(* ===== verification/Prelude.thy ===== *)
theory Prelude
  imports Main "HOL-Library.Word" "HOL-Library.AList"
begin

text \<open>
  Shared vocabulary of the development: the value types of the Python sources (times, durations,
  identifiers, byte strings), dictionaries as association lists in insertion order, the string
  functions of the language that the sources use (\<open>str.strip\<close>, \<open>str(int)\<close>,
  \<open>int(str)\<close> with its digit limit, \<open>bytes.hex\<close>, UTF-8), and the lemmas the component
  theories share.

  A \<open>datetime\<close> is the number of microseconds since the epoch (the resolution of the class), a
  duration is a number of microseconds: a float number of seconds enters the arithmetic of the
  sources only through \<open>timedelta(seconds=...)\<close>, which rounds to that resolution.  A Python
  string is a list of code points below 256.
\<close>

named_theorems dict_simps \<open>reading a dictionary after an update\<close>
named_theorems py_defs \<open>definitions of the small language functions\<close>

type_synonym time = int
type_synonym duration = int
type_synonym uuid = int
type_synonym bytes = "8 word list"
type_synonym ('k, 'v) dict = "('k \<times> 'v) list"

abbreviation dict_get :: "('k, 'v) dict \<Rightarrow> 'k \<Rightarrow> 'v option" where
  "dict_get d k \<equiv> map_of d k"

abbreviation dict_set :: "('k, 'v) dict \<Rightarrow> 'k \<Rightarrow> 'v \<Rightarrow> ('k, 'v) dict" where
  "dict_set d k v \<equiv> AList.update k v d"

definition seconds :: "int \<Rightarrow> duration" where
  "seconds n = n * 1000000"

definition milliseconds :: "int \<Rightarrow> duration" where
  "milliseconds n = n * 1000"

section \<open>Characters and decimal numbers\<close>

definition is_digit :: "char \<Rightarrow> bool" where
  "is_digit c \<longleftrightarrow> 48 \<le> (of_char c :: nat) \<and> (of_char c :: nat) \<le> 57"

definition digit_val :: "char \<Rightarrow> nat" where
  "digit_val c = of_char c - 48"

definition digit_char :: "nat \<Rightarrow> char" where
  "digit_char d = char_of (48 + d)"

text \<open>The characters below 256 that \<open>str.isspace\<close> accepts, which \<open>str.strip\<close> removes.\<close>

definition is_space :: "char \<Rightarrow> bool" where
  "is_space c \<longleftrightarrow> (let n = (of_char c :: nat) in
     (9 \<le> n \<and> n \<le> 13) \<or> (28 \<le> n \<and> n \<le> 32) \<or> n = 133 \<or> n = 160)"

definition py_lstrip :: "(char \<Rightarrow> bool) \<Rightarrow> string \<Rightarrow> string" where
  "py_lstrip p s = dropWhile p s"

definition py_rstrip :: "(char \<Rightarrow> bool) \<Rightarrow> string \<Rightarrow> string" where
  "py_rstrip p s = rev (dropWhile p (rev s))"

definition py_strip :: "(char \<Rightarrow> bool) \<Rightarrow> string \<Rightarrow> string" where
  "py_strip p s = py_rstrip p (py_lstrip p s)"

definition py_ljust :: "string \<Rightarrow> nat \<Rightarrow> char \<Rightarrow> string" where
  "py_ljust s n c = s @ replicate (n - length s) c"

definition py_rjust :: "string \<Rightarrow> nat \<Rightarrow> char \<Rightarrow> string" where
  "py_rjust s n c = replicate (n - length s) c @ s"

text \<open>\<open>str(n)\<close> of a natural number, and of an integer.\<close>

fun nat_str :: "nat \<Rightarrow> string" where
  "nat_str n = (if n < 10 then [digit_char n] else nat_str (n div 10) @ [digit_char (n mod 10)])"

declare nat_str.simps [simp del]

definition int_str :: "int \<Rightarrow> string" where
  "int_str i = (if i < 0 then CHR ''-'' # nat_str (nat (- i)) else nat_str (nat i))"

text \<open>
  The value of a string of ASCII digits.  \<open>int(s)\<close> refuses more than 4300 digits with a plain
  \<open>ValueError\<close> (\<open>sys.int_info.default_max_str_digits\<close>); the callers model that branch.
\<close>

definition digits_val :: "string \<Rightarrow> nat" where
  "digits_val s = foldl (\<lambda>a c. a * 10 + digit_val c) 0 s"

definition max_str_digits :: nat where
  "max_str_digits = 4300"

section \<open>Bytes\<close>

definition hex_char :: "nat \<Rightarrow> char" where
  "hex_char d = (if d < 10 then char_of (48 + d) else char_of (87 + d))"

definition hex_byte :: "8 word \<Rightarrow> string" where
  "hex_byte b = [hex_char (unat b div 16), hex_char (unat b mod 16)]"

definition bytes_hex :: "bytes \<Rightarrow> string" where
  "bytes_hex bs = concat (map hex_byte bs)"

text \<open>\<open>s.encode()\<close> for code points below 256.\<close>

definition utf8_char :: "char \<Rightarrow> bytes" where
  "utf8_char c = (let n = (of_char c :: nat) in
     if n < 128 then [of_nat n] else [of_nat (192 + n div 64), of_nat (128 + n mod 64)])"

definition utf8_encode :: "string \<Rightarrow> bytes" where
  "utf8_encode s = concat (map utf8_char s)"

section \<open>Binary floating point\<close>

text \<open>
  The nearest IEEE double of a non-negative fraction, as mantissa and exponent, and the one
  expression the sources compute in floats, \<open>int(t.timestamp() * 1000)\<close>: the quotient of the
  microseconds by \<open>10 ^ 6\<close>, correctly rounded, times 1000, correctly rounded, truncated.  (The
  exponent range of a double is never left by dates.)
\<close>

function bit_length :: "int \<Rightarrow> int" where
  "bit_length n = (if n \<le> 0 then 0 else 1 + bit_length (n div 2))"
  by pat_completeness auto
termination
  by (relation "measure nat") auto

declare bit_length.simps [simp del]

definition round_half_even :: "int \<Rightarrow> int \<Rightarrow> int" where
  "round_half_even num den =
     (let q = num div den; r = num mod den in
      if 2 * r < den then q else if den < 2 * r then q + 1 else if even q then q else q + 1)"

definition scale :: "int \<Rightarrow> int \<Rightarrow> int \<Rightarrow> int \<times> int" where
  "scale num den e = (if e < 0 then (num * 2 ^ nat (- e), den) else (num, den * 2 ^ nat e))"

definition to_double :: "int \<Rightarrow> int \<Rightarrow> int \<times> int" where
  "to_double num den =
     (let e0 = bit_length num - bit_length den - 53;
          (n0, d0) = scale num den e0;
          e = (if 2 ^ 53 * d0 \<le> n0 then e0 + 1 else e0);
          (n, d) = scale num den e
      in (round_half_even n d, e))"

definition timestamp_ms :: "time \<Rightarrow> int" where
  "timestamp_ms t =
     (let (m, e) = to_double \<bar>t\<bar> 1000000;
          (m', e') = (if e < 0 then to_double (m * 1000) (2 ^ nat (- e))
                      else to_double (m * 1000 * 2 ^ nat e) 1)
      in sgn t * (if e' < 0 then m' div 2 ^ nat (- e') else m' * 2 ^ nat e'))"

section \<open>Lemmas on dictionaries\<close>

lemma dict_get_set [dict_simps, simp]:
  "dict_get (dict_set d k v) k' = (if k' = k then Some v else dict_get d k')"
  by (simp add: update_conv')

lemma dict_set_keys [dict_simps]:
  "fst ` set (dict_set d k v) = insert k (fst ` set d)"
  by (simp add: dom_update)

lemma dict_set_distinct [simp, intro]:
  "distinct (map fst d) \<Longrightarrow> distinct (map fst (dict_set d k v))"
  by (rule distinct_update)

lemma dict_set_set_fresh:
  "k \<notin> fst ` set d \<Longrightarrow> dict_set d k v = d @ [(k, v)]"
  by (induction d) auto

lemma dict_get_None_iff [dict_simps]:
  "dict_get d k = None \<longleftrightarrow> k \<notin> fst ` set d"
  by (rule map_of_eq_None_iff)

lemma dict_get_mem:
  "dict_get d k = Some v \<Longrightarrow> (k, v) \<in> set d"
  by (rule map_of_SomeD)

lemma distinct_single: "distinct xs \<Longrightarrow> x \<in> set xs \<Longrightarrow> (\<And>y. y \<in> set xs \<Longrightarrow> y = x) \<Longrightarrow> xs = [x]"
proof (cases xs)
  case (Cons y ys)
  moreover assume "distinct xs" "\<And>y. y \<in> set xs \<Longrightarrow> y = x"
  ultimately show ?thesis by (cases ys) auto
qed simp

lemma dict_get_distinct:
  "distinct (map fst d) \<Longrightarrow> (k, v) \<in> set d \<longleftrightarrow> dict_get d k = Some v"
  by simp

section \<open>Lemmas on digits\<close>

lemma replicate_unfold: "replicate (numeral k) x = x # replicate (pred_numeral k) x"
  by (simp add: numeral_eq_Suc)

lemma is_digit_digit_char [simp]: "d < 10 \<Longrightarrow> is_digit (digit_char d)"
  by (simp add: is_digit_def digit_char_def)

lemma digit_val_digit_char [simp]: "d < 10 \<Longrightarrow> digit_val (digit_char d) = d"
  by (simp add: digit_val_def digit_char_def)

lemma digit_char_val [simp]: "is_digit c \<Longrightarrow> digit_char (digit_val c) = c"
  by (simp add: is_digit_def digit_val_def digit_char_def)

lemma digit_val_less [simp]: "is_digit c \<Longrightarrow> digit_val c < 10"
  unfolding is_digit_def digit_val_def by linarith

lemma digits_val_Nil [simp]: "digits_val [] = 0"
  by (simp add: digits_val_def)

lemma digits_val_snoc [simp]: "digits_val (s @ [c]) = digits_val s * 10 + digit_val c"
  by (simp add: digits_val_def)

lemma digits_val_append:
  "digits_val (s @ t) = digits_val s * 10 ^ length t + digits_val t"
  by (induction t rule: rev_induct) (simp_all add: algebra_simps flip: append_assoc)

lemma digits_val_zeros [simp]: "digits_val (replicate n CHR ''0'') = 0"
proof (induction n)
  case (Suc n)
  have "replicate (Suc n) CHR ''0'' = replicate n CHR ''0'' @ [CHR ''0'']"
    by (simp add: replicate_append_same)
  then show ?case
    using Suc by (simp add: digit_val_def del: replicate_Suc)
qed simp

lemma digits_val_bound:
  "\<forall>c \<in> set s. is_digit c \<Longrightarrow> digits_val s < 10 ^ length s"
proof (induction s rule: rev_induct)
  case (snoc c s)
  then have "digits_val s + 1 \<le> 10 ^ length s" and "digit_val c < 10"
    by (simp_all add: Suc_leI)
  then have "digits_val s * 10 + digit_val c < 10 ^ length s * 10"
    by linarith
  then show ?case by simp
qed simp

lemma digits_val_nat_str [simp]: "digits_val (nat_str n) = n"
proof (induction n rule: nat_str.induct)
  case (1 n)
  then show ?case
    by (cases "n < 10") (simp_all add: nat_str.simps [of n] digits_val_def)
qed

lemma nat_str_digits: "c \<in> set (nat_str n) \<Longrightarrow> is_digit c"
proof (induction n rule: nat_str.induct)
  case (1 n)
  then show ?case
    by (cases "n < 10") (auto simp: nat_str.simps [of n])
qed

lemma nat_str_not_Nil [simp]: "nat_str n \<noteq> []"
  by (subst nat_str.simps) simp

lemma nat_str_inject [simp]: "nat_str m = nat_str n \<longleftrightarrow> m = n"
  by (metis digits_val_nat_str)

lemma hex_char_of: "d < 16 \<Longrightarrow> (of_char (hex_char d) :: nat) = (if d < 10 then 48 + d else 87 + d)"
  by (simp add: hex_char_def)

lemma hex_char_inject:
  assumes "a < 16" "b < 16" "hex_char a = hex_char b"
  shows "a = b"
proof -
  have "(if a < 10 then 48 + a else 87 + a) = (if b < 10 then 48 + b else 87 + b)"
    using assms hex_char_of by metis
  then show ?thesis by (auto split: if_splits)
qed

lemma hex_pair_inject:
  assumes "m < 256" "n < 256" "hex_char (m div 16) = hex_char (n div 16)"
    "hex_char (m mod 16) = hex_char (n mod 16)"
  shows "m = n"
proof -
  have "m div 16 = n div 16" "m mod 16 = n mod 16"
    using assms by (auto intro!: hex_char_inject)
  then show ?thesis by (metis div_mult_mod_eq)
qed

lemma hex_byte_inject [simp]: "hex_byte a = hex_byte b \<longleftrightarrow> a = b"
proof
  assume "hex_byte a = hex_byte b"
  then have "unat a = unat b"
    using unsigned_less [of a, where 'a = nat] unsigned_less [of b, where 'a = nat]
    by (intro hex_pair_inject) (simp_all add: hex_byte_def)
  then show "a = b" by (rule word_unat_eq_iff [THEN iffD2])
qed simp

lemma bytes_hex_inject [simp]: "bytes_hex a = bytes_hex b \<longleftrightarrow> a = b"
proof
  show "bytes_hex a = bytes_hex b \<Longrightarrow> a = b"
  proof (induction a arbitrary: b)
    case Nil
    then show ?case by (cases b) (simp_all add: bytes_hex_def hex_byte_def)
  next
    case (Cons x a)
    have len: "length (hex_byte y) = 2" for y
      by (simp add: hex_byte_def)
    show ?case
    proof (cases b)
      case Nil
      with Cons.prems show ?thesis by (simp add: bytes_hex_def hex_byte_def)
    next
      case (Cons y c)
      with Cons.prems have "hex_byte x @ bytes_hex a = hex_byte y @ bytes_hex c"
        by (simp add: bytes_hex_def)
      then have "x = y" and "bytes_hex a = bytes_hex c"
        using len by simp_all
      with Cons Cons.IH show ?thesis by simp
    qed
  qed
qed simp

lemma bytes_hex_no_colon: "CHR '':'' \<notin> set (bytes_hex bs)"
proof -
  have "(of_char (hex_char d) :: nat) \<noteq> of_char CHR '':''" if "d < 16" for d
    using hex_char_of [OF that] by (auto split: if_splits)
  then have ne: "hex_char d \<noteq> CHR '':''" if "d < 16" for d
    using that by metis
  have "CHR '':'' \<notin> set (hex_byte b)" for b
    using unsigned_less [of b, where 'a = nat] ne [of "unat b div 16"] ne [of "unat b mod 16"]
    by (simp add: hex_byte_def less_mult_imp_div_less)
  then show ?thesis
    by (simp add: bytes_hex_def)
qed

lemma minus_not_digit [simp]: "\<not> is_digit CHR ''-''"
  by (simp add: is_digit_def)

lemma int_str_inject [simp]: "int_str i = int_str j \<longleftrightarrow> i = j"
proof -
  have neg: "CHR ''-'' # t \<noteq> nat_str n" for t n
    using nat_str_digits [of "CHR ''-''" n] by (metis list.set_intros(1) minus_not_digit)
  show ?thesis
    by (auto simp: int_str_def neg neg [symmetric])
qed

end
