(* ===== verification/States.thy ===== *)
theory States
  imports Prelude
begin

text \<open>
  The operation state machine of \<open>sluice/states.py\<close>: the nine states, the transition table,
  the derived terminal and claimable sets and \<open>can_transition\<close>; and its second copy, the
  guard trigger of \<open>migrations/001_schema.sql\<close>.  Both copies implement one interface, the
  locale \<open>transition_guard\<close>, whose lemmas are proved once.
\<close>

section \<open>The table\<close>

datatype op_state =
    REQUESTED | VALIDATED | SIGNING | SIGNED | BROADCASTING | BROADCAST
  | CONFIRMED | FAILED | REJECTED

definition all_states :: "op_state list" where
  "all_states = [REQUESTED, VALIDATED, SIGNING, SIGNED, BROADCASTING, BROADCAST,
     CONFIRMED, FAILED, REJECTED]"

fun state_value :: "op_state \<Rightarrow> string" where
  "state_value REQUESTED = ''requested''"
| "state_value VALIDATED = ''validated''"
| "state_value SIGNING = ''signing''"
| "state_value SIGNED = ''signed''"
| "state_value BROADCASTING = ''broadcasting''"
| "state_value BROADCAST = ''broadcast''"
| "state_value CONFIRMED = ''confirmed''"
| "state_value FAILED = ''failed''"
| "state_value REJECTED = ''rejected''"

fun TRANSITIONS :: "op_state \<Rightarrow> op_state list" where
  "TRANSITIONS REQUESTED = [VALIDATED, REJECTED]"
| "TRANSITIONS VALIDATED = [SIGNING, REJECTED]"
| "TRANSITIONS SIGNING = [SIGNED, FAILED]"
| "TRANSITIONS SIGNED = [BROADCASTING, SIGNING]"
| "TRANSITIONS BROADCASTING = [BROADCAST, SIGNING, FAILED]"
| "TRANSITIONS BROADCAST = [CONFIRMED, SIGNING, FAILED]"
| "TRANSITIONS CONFIRMED = []"
| "TRANSITIONS FAILED = []"
| "TRANSITIONS REJECTED = []"

definition TERMINAL :: "op_state list" where
  "TERMINAL = filter (\<lambda>s. TRANSITIONS s = []) all_states"

definition CLAIMABLE :: "op_state list" where
  "CLAIMABLE = filter (\<lambda>s. s \<notin> set TERMINAL) all_states"

definition can_transition :: "op_state \<Rightarrow> op_state \<Rightarrow> bool" where
  "can_transition src dst \<longleftrightarrow> src = dst \<or> dst \<in> set (TRANSITIONS src)"

text \<open>Paths of the machine: what a sequence of legal writes can do to a row.\<close>

inductive path :: "op_state \<Rightarrow> op_state \<Rightarrow> bool" where
  path_refl: "path s s"
| path_step: "path s t \<Longrightarrow> can_transition t u \<Longrightarrow> path s u"

section \<open>The trigger\<close>

text \<open>
  \<open>op_transition_guard\<close>: an update of a row is refused when the old row is terminal, or when
  the state changes along a pair that is not in the list.
\<close>

definition trigger_pairs :: "(string \<times> string) list" where
  "trigger_pairs =
     [(''requested'', ''validated''), (''requested'', ''rejected''),
      (''validated'', ''signing''), (''validated'', ''rejected''),
      (''signing'', ''signed''), (''signing'', ''failed''),
      (''signed'', ''broadcasting''), (''signed'', ''signing''),
      (''broadcasting'', ''broadcast''), (''broadcasting'', ''signing''),
      (''broadcasting'', ''failed''),
      (''broadcast'', ''confirmed''), (''broadcast'', ''signing''), (''broadcast'', ''failed'')]"

datatype trigger_verdict = Immutable_Row | Illegal_Update | Update_Allowed

definition op_transition_guard :: "op_state \<Rightarrow> op_state \<Rightarrow> trigger_verdict" where
  "op_transition_guard old new =
     (if state_value old \<in> {''confirmed'', ''failed'', ''rejected''} then Immutable_Row
      else if new \<noteq> old \<and> (state_value old, state_value new) \<notin> set trigger_pairs
           then Illegal_Update
      else Update_Allowed)"

section \<open>The interface of a transition guard\<close>

text \<open>
  What a guard of the machine promises: terminal states are left by no state change, same-state
  writes pass on live states, and the order of the machine is respected: a state change follows
  the phase order or re-enters \<open>SIGNING\<close> from a state that holds an envelope.
\<close>

fun phase :: "op_state \<Rightarrow> nat" where
  "phase REQUESTED = 0"
| "phase VALIDATED = 1"
| "phase SIGNING = 2"
| "phase SIGNED = 3"
| "phase BROADCASTING = 4"
| "phase BROADCAST = 5"
| "phase CONFIRMED = 6"
| "phase FAILED = 6"
| "phase REJECTED = 6"

locale transition_guard =
  fixes allows :: "op_state \<Rightarrow> op_state \<Rightarrow> bool"
    and terminal :: "op_state \<Rightarrow> bool"
  assumes terminal_stuck: "terminal s \<Longrightarrow> allows s t \<Longrightarrow> t = s"
    and forward_or_rebuild: "allows s t \<Longrightarrow> t \<noteq> s \<Longrightarrow>
          phase s < phase t \<or> (t = SIGNING \<and> s \<in> {SIGNED, BROADCASTING, BROADCAST})"
    and live_self: "\<not> terminal s \<Longrightarrow> allows s s"
begin

inductive walk :: "op_state \<Rightarrow> op_state \<Rightarrow> bool" where
  walk_refl: "walk s s"
| walk_step: "walk s t \<Longrightarrow> allows t u \<Longrightarrow> walk s u"

lemma walk_terminal: "walk s t \<Longrightarrow> terminal s \<Longrightarrow> t = s"
  by (induction rule: walk.induct) (auto dest: terminal_stuck)

lemma walk_phase: "walk s t \<Longrightarrow> phase s \<le> phase t \<or> 2 \<le> phase t"
proof (induction rule: walk.induct)
  case (walk_step s t u)
  show ?case
  proof (cases "u = t")
    case False
    with walk_step.hyps(2) consider "phase t < phase u" | "u = SIGNING"
      by (auto dest: forward_or_rebuild)
    then show ?thesis
      using walk_step.IH by cases auto
  qed (use walk_step.IH in simp)
qed simp

end

section \<open>Lemmas\<close>

lemma all_states_complete [simp]: "s \<in> set all_states"
  by (cases s) (simp_all add: all_states_def)

lemma TERMINAL_set [simp]: "s \<in> set TERMINAL \<longleftrightarrow> s \<in> {CONFIRMED, FAILED, REJECTED}"
  by (cases s) (simp_all add: TERMINAL_def)

lemma CLAIMABLE_set [simp]: "s \<in> set CLAIMABLE \<longleftrightarrow> s \<notin> {CONFIRMED, FAILED, REJECTED}"
  by (simp add: CLAIMABLE_def)

lemma state_value_inject [simp]: "state_value s = state_value t \<longleftrightarrow> s = t"
  by (cases s; cases t) simp_all

lemma can_transition_refl [simp]: "can_transition s s"
  by (simp add: can_transition_def)

interpretation py: transition_guard can_transition "\<lambda>s. s \<in> set TERMINAL"
proof unfold_locales
  show "t = s" if "s \<in> set TERMINAL" and "can_transition s t" for s t
    using that by (auto simp: can_transition_def)
  show "phase s < phase t \<or> (t = SIGNING \<and> s \<in> {SIGNED, BROADCASTING, BROADCAST})"
    if "can_transition s t" and "t \<noteq> s" for s t
    using that by (cases s) (auto simp: can_transition_def)
  show "can_transition s s" if "s \<notin> set TERMINAL" for s
    by simp
qed

lemma trigger_agrees_live:
  "s \<notin> set TERMINAL \<Longrightarrow> op_transition_guard s t = Update_Allowed \<longleftrightarrow> can_transition s t"
  by (cases s; cases t)
     (simp_all add: op_transition_guard_def trigger_pairs_def can_transition_def)

lemma trigger_terminal:
  "op_transition_guard s t = Immutable_Row \<longleftrightarrow> s \<in> set TERMINAL"
  by (cases s) (auto simp: op_transition_guard_def)

interpretation sql: transition_guard
  "\<lambda>s t. op_transition_guard s t = Update_Allowed" "\<lambda>s. op_transition_guard s s = Immutable_Row"
proof unfold_locales
  show "t = s"
    if "op_transition_guard s s = Immutable_Row" and "op_transition_guard s t = Update_Allowed"
    for s t
    using that trigger_terminal [of s s] trigger_terminal [of s t] by simp
  show "phase s < phase t \<or> (t = SIGNING \<and> s \<in> {SIGNED, BROADCASTING, BROADCAST})"
    if a: "op_transition_guard s t = Update_Allowed" and n: "t \<noteq> s" for s t
  proof -
    have "s \<notin> set TERMINAL"
      using a trigger_terminal [of s t] by auto
    with a have "can_transition s t"
      by (simp add: trigger_agrees_live)
    then show ?thesis
      using n by (rule py.forward_or_rebuild)
  qed
  show "op_transition_guard s s = Update_Allowed"
    if "op_transition_guard s s \<noteq> Immutable_Row" for s
    using that by (simp add: trigger_terminal trigger_agrees_live)
qed

lemma path_walk: "path s t = py.walk s t"
proof
  show "path s t \<Longrightarrow> py.walk s t"
    by (induction rule: path.induct) (auto intro: py.walk.intros)
  show "py.walk s t \<Longrightarrow> path s t"
    by (induction rule: py.walk.induct) (auto intro: path.intros)
qed

lemma path_trans: "path t u \<Longrightarrow> path s t \<Longrightarrow> path s u"
  by (induction rule: path.induct) (auto intro: path.intros)

inductive_cases path_stepE: "path s t"

section \<open>Properties\<close>

text \<open>C34. The transition table of \<open>states.py\<close> and the database trigger are the same machine:
  on a live row the trigger admits exactly the writes \<open>can_transition\<close> admits, and it refuses
  every write to a row exactly when its state is terminal.\<close>

theorem trigger_mirrors_table:
  "op_transition_guard s t =
     (if s \<in> set TERMINAL then Immutable_Row
      else if can_transition s t then Update_Allowed else Illegal_Update)"
  using trigger_agrees_live [of s t] trigger_terminal [of s t]
  by (cases "op_transition_guard s t") auto

text \<open>Whatever sequence of legal writes a row goes through, a terminal state is never left,
  and once a row has reached the signing phase it never returns to intake or validation.\<close>

theorem path_monotone:
  assumes "path s t"
  shows "(s \<in> set TERMINAL \<longrightarrow> t = s) \<and> (2 \<le> phase s \<longrightarrow> t \<notin> {REQUESTED, VALIDATED})"
proof -
  have w: "py.walk s t"
    using assms by (simp add: path_walk)
  have "phase s \<le> phase t \<or> 2 \<le> phase t"
    using w by (rule py.walk_phase)
  then show ?thesis
    using py.walk_terminal [OF w] by auto
qed

theorem path_monotone_witness:
  "path SIGNED SIGNING \<and> SIGNING \<notin> {REQUESTED, VALIDATED}"
proof -
  have "path SIGNED SIGNING"
    by (rule path.path_step [OF path.path_refl]) (simp add: can_transition_def)
  then show ?thesis
    using path_monotone [of SIGNED SIGNING] by simp
qed

text \<open>Every live state can still finish: from any state a path of the table leads to a
  terminal state.\<close>

theorem every_state_can_terminate: "\<exists>t \<in> set TERMINAL. path s t"
proof -
  have one: "path a b" if "can_transition a b" for a b
    using path.path_step [OF path.path_refl that] .
  have br: "path BROADCASTING FAILED" "path SIGNING FAILED" "path BROADCAST FAILED"
      "path REQUESTED REJECTED" "path VALIDATED REJECTED"
    by (rule one, simp add: can_transition_def)+
  have "path SIGNED FAILED"
    by (rule path_trans [OF br(1)]) (rule one, simp add: can_transition_def)
  with br show ?thesis
    by (cases s) (force intro: path.path_refl)+
qed

end
