(* ===== verification/Exceptions.thy ===== *)
theory Exceptions
  imports States
begin

text \<open>
  The exceptions the sources raise, as one datatype, so that every \<open>raise\<close> is a value of a sum
  \<open>exn + 'a\<close> (\<open>Inl\<close> the exception).  \<open>SimulatedCrash\<close> of \<open>sluice/crashpoints.py\<close> is a
  \<open>BaseException\<close> and the only one that \<open>except Exception\<close> does not catch.  The texts of the
  messages are kept where a caller returns them; the texts of \<open>AmountError\<close> are kept as the
  problem they describe.  \<open>DatabaseError\<close> stands for the errors the Postgres driver raises.
  JSON values of a request body, and the dictionaries the code stores
  beside an operation, are datatypes of their own.
\<close>

text \<open>A value of a parsed JSON body; a number with a fraction or an exponent keeps its literal.\<close>

datatype json =
    JNull
  | JBool bool
  | JInt int
  | JFloat string
  | JStr string
  | JList "json list"
  | JObj "(string, json) dict"

datatype amount_problem =
    Not_A_String
  | Malformed string
  | Too_Many_Fraction_Digits string nat nat
  | Negative_Units

datatype reason = Reason string | Amount_Reason amount_problem | Unsupported_Asset json

datatype exn =
    AmountError amount_problem
  | ValueError
  | TypeError
  | KeyError string
  | ValidationError string reason
  | PayloadMismatch uuid
  | IllegalTransition op_state op_state
  | LostClaim uuid op_state op_state
  | SimulatedCrash string
  | NodeTimeout string
  | RuntimeError string
  | DatabaseError string
  | AssertionError string
  | AttributeError

definition is_Exception :: "exn \<Rightarrow> bool" where
  "is_Exception e = (case e of SimulatedCrash _ \<Rightarrow> False | _ \<Rightarrow> True)"

fun ebind :: "exn + 'a \<Rightarrow> ('a \<Rightarrow> exn + 'b) \<Rightarrow> exn + 'b" where
  "ebind (Inl e) f = Inl e"
| "ebind (Inr x) f = f x"

lemma ebind_Inr_iff:
  "ebind m f = Inr y \<longleftrightarrow> (\<exists>x. m = Inr x \<and> f x = Inr y)"
  by (cases m) auto

lemma ebind_split_asm [split]:
  "P (ebind m f) \<longleftrightarrow> \<not> ((\<exists>e. m = Inl e \<and> \<not> P (Inl e)) \<or> (\<exists>x. m = Inr x \<and> \<not> P (f x)))"
  by (cases m) auto

end
