(* ===== verification/Canonical.thy ===== *)
theory Canonical
  imports Exceptions "HOL-Library.List_Lexorder" "HOL-Library.Char_ord"
begin

text \<open>
  \<open>sluice/canonical.py\<close> and the serialisation it shares with \<open>compute_txid\<close>:
  \<open>json.dumps(..., sort_keys=True, separators=(",", ":"))\<close> with \<open>ensure_ascii\<close>, on the
  fragment of JSON the sources serialise (integers, strings, objects with string keys).  The
  digest \<open>hashlib.sha256\<close> is a parameter \<open>sha\<close>: every theorem holds for every digest
  function, and those that need two inputs not to collide say so.
\<close>

section \<open>Definitions\<close>

datatype jdoc =
    DInt int
  | DStr string
  | DObj "(string, jdoc) dict"

definition esc_char :: "char \<Rightarrow> string" where
  "esc_char c =
     (let n = (of_char c :: nat) in
      if c = CHR 0x5C then [CHR 0x5C, CHR 0x5C]
      else if c = CHR 0x22 then [CHR 0x5C, CHR 0x22]
      else if c = CHR 0x0A then [CHR 0x5C, CHR ''n'']
      else if c = CHR 0x0D then [CHR 0x5C, CHR ''r'']
      else if c = CHR 0x09 then [CHR 0x5C, CHR ''t'']
      else if c = CHR 0x0C then [CHR 0x5C, CHR ''f'']
      else if c = CHR 0x08 then [CHR 0x5C, CHR ''b'']
      else if 32 \<le> n \<and> n \<le> 126 then [c]
      else [CHR 0x5C, CHR ''u'', CHR ''0'', CHR ''0'', hex_char (n div 16), hex_char (n mod 16)])"

definition esc :: "string \<Rightarrow> string" where
  "esc s = concat (map esc_char s)"

definition quote :: "string \<Rightarrow> string" where
  "quote s = [CHR 0x22] @ esc s @ [CHR 0x22]"

fun join_comma :: "string list \<Rightarrow> string" where
  "join_comma [] = []"
| "join_comma [x] = x"
| "join_comma (x # y # zs) = x @ '','' @ join_comma (y # zs)"

fun dumps :: "jdoc \<Rightarrow> string" where
  "dumps (DInt i) = int_str i"
| "dumps (DStr s) = quote s"
| "dumps (DObj kvs) =
     ''{'' @ join_comma (map (\<lambda>(k, s). quote k @ '':'' @ s)
               (sort_key fst (map (\<lambda>(k, v). (k, dumps v)) kvs))) @ ''}''"

definition ascii_encode :: "string \<Rightarrow> bytes" where
  "ascii_encode s = map (\<lambda>c. of_nat (of_char c)) s"

definition canonical_request :: "string \<Rightarrow> int \<Rightarrow> string \<Rightarrow> bytes" where
  "canonical_request to_addr units ass =
     ascii_encode (dumps (DObj [(''amount_units'', DInt units), (''asset'', DStr ass),
       (''to_address'', DStr to_addr)]))"

definition request_hash :: "(bytes \<Rightarrow> bytes) \<Rightarrow> string \<Rightarrow> int \<Rightarrow> string \<Rightarrow> bytes" where
  "request_hash sha to_addr units ass = sha (canonical_request to_addr units ass)"

text \<open>What a document means: the same document with the keys of every object sorted.\<close>

fun norm_doc :: "jdoc \<Rightarrow> jdoc" where
  "norm_doc (DInt i) = DInt i"
| "norm_doc (DStr s) = DStr s"
| "norm_doc (DObj kvs) = DObj (sort_key fst (map (\<lambda>(k, v). (k, norm_doc v)) kvs))"

text \<open>
  The serialisation is a prefix code up to a boundary character: a document can be read off the
  front of a text that goes on with a comma or a closing brace.
\<close>

definition boundary :: "string \<Rightarrow> bool" where
  "boundary r \<longleftrightarrow> r = [] \<or> hd r \<in> {CHR '','', CHR ''}''}"

definition prefix_code :: "jdoc \<Rightarrow> bool" where
  "prefix_code v \<longleftrightarrow> (\<forall>v' r r'. boundary r \<longrightarrow> boundary r' \<longrightarrow> dumps v @ r = dumps v' @ r' \<longrightarrow>
     norm_doc v = norm_doc v' \<and> r = r')"

abbreviation member :: "string \<times> jdoc \<Rightarrow> string" where
  "member \<equiv> (\<lambda>(k, v). quote k @ '':'' @ dumps v)"

section \<open>Lemmas\<close>

lemma sort_key_map_snd:
  "sort_key fst (map (\<lambda>(k, v). (k, f v)) kvs) = map (\<lambda>(k, v). (k, f v)) (sort_key fst kvs)"
proof (induction kvs)
  case (Cons p kvs)
  have "insort_key fst (k, f v) (map (\<lambda>(k, v). (k, f v)) ys) =
      map (\<lambda>(k, v). (k, f v)) (insort_key fst (k, v) ys)" for k v ys
    by (induction ys) auto
  with Cons show ?case
    by (cases p) simp
qed simp

lemma esc_char_prefix:
  assumes "esc_char c @ x = esc_char d @ y"
  shows "c = d \<and> x = y"
  using assms hex_pair_inject [of "of_char c" "of_char d"]
  by (auto simp: esc_char_def Let_def split: if_splits)

lemma esc_char_first: "\<exists>h t. esc_char c = h # t \<and> h \<noteq> CHR 0x22"
  by (auto simp: esc_char_def Let_def)

lemma esc_prefix:
  "esc s @ CHR 0x22 # r = esc s' @ CHR 0x22 # r' \<Longrightarrow> s = s' \<and> r = r'"
proof (induction s arbitrary: s')
  case Nil
  then show ?case using esc_char_first [of "hd s'"] by (cases s') (auto simp: esc_def)
next
  case (Cons c s)
  show ?case
  proof (cases s')
    case Nil
    then show ?thesis using Cons.prems esc_char_first [of c] by (auto simp: esc_def)
  next
    case (Cons d t)
    with Cons.prems have "esc_char c @ (esc s @ CHR 0x22 # r) = esc_char d @ (esc t @ CHR 0x22 # r')"
      by (simp add: esc_def)
    from esc_char_prefix [OF this] Cons.IH [of t] Cons show ?thesis by simp
  qed
qed

lemma quote_prefix: "quote s @ r = quote s' @ r' \<Longrightarrow> s = s' \<and> r = r'"
  using esc_prefix [of s r s' r'] by (simp add: quote_def)

lemma append_boundary_eq:
  assumes "a @ r = b @ r'" "\<forall>c \<in> set a. P c" "\<forall>c \<in> set b. P c"
    "r = [] \<or> \<not> P (hd r)" "r' = [] \<or> \<not> P (hd r')"
  shows "a = b \<and> r = r'"
proof -
  have "takeWhile P (x @ t) = x" if "\<forall>c \<in> set x. P c" "t = [] \<or> \<not> P (hd t)" for x t
    using that by (cases t) (auto simp: takeWhile_append)
  from this [of a r] this [of b r'] assms have "a = b" by metis
  with assms(1) show ?thesis by simp
qed

lemma int_str_chars: "c \<in> set (int_str i) \<Longrightarrow> is_digit c \<or> c = CHR ''-''"
  by (auto simp: int_str_def dest: nat_str_digits split: if_splits)

lemma int_str_prefix:
  assumes "int_str i @ r = int_str j @ r'" "boundary r" "boundary r'"
  shows "i = j \<and> r = r'"
proof -
  have "int_str i = int_str j \<and> r = r'"
    using assms by (intro append_boundary_eq [where P = "\<lambda>c. is_digit c \<or> c = CHR ''-''"])
      (auto dest: int_str_chars simp: boundary_def is_digit_def)
  then show ?thesis by simp
qed

lemma int_str_hd: "\<exists>h t. int_str i = h # t \<and> (is_digit h \<or> h = CHR ''-'')"
  using int_str_chars [of "hd (int_str i)" i]
  by (cases "int_str i") (auto simp: int_str_def split: if_splits)

lemma dumps_DObj:
  "dumps (DObj kvs) = ''{'' @ join_comma (map member (sort_key fst kvs)) @ ''}''"
  unfolding dumps.simps sort_key_map_snd map_map by (simp add: comp_def case_prod_unfold)

lemma members_prefix:
  assumes "\<forall>(k, v) \<in> set xs. prefix_code v"
    and "join_comma (map member xs) @ CHR ''}'' # r = join_comma (map member ys) @ CHR ''}'' # r'"
  shows "map (\<lambda>(k, v). (k, norm_doc v)) xs = map (\<lambda>(k, v). (k, norm_doc v)) ys \<and> r = r'"
  using assms
proof (induction xs arbitrary: ys)
  case Nil
  then show ?case
    by (cases "map member ys" rule: join_comma.cases) (auto simp: quote_def)
next
  case (Cons x xs)
  obtain k v where x: "x = (k, v)" by (cases x)
  have tail: "\<exists>t. join_comma (map member (x # zs)) @ CHR ''}'' # q = member x @ t \<and> boundary t \<and>
      t = (if zs = [] then CHR ''}'' # q else CHR '','' # join_comma (map member zs) @ CHR ''}'' # q)" for x zs q
    by (cases zs) (auto simp: boundary_def)
  obtain t where t: "join_comma (map member (x # xs)) @ CHR ''}'' # r = member x @ t" "boundary t"
     "t = (if xs = [] then CHR ''}'' # r else CHR '','' # join_comma (map member xs) @ CHR ''}'' # r)"
    using tail by blast
  obtain y zs where ys: "ys = y # zs"
    using Cons.prems(2) x t(1) by (cases ys) (auto simp: quote_def)
  obtain l w where y: "y = (l, w)" by (cases y)
  obtain u where u: "join_comma (map member (y # zs)) @ CHR ''}'' # r' = member y @ u" "boundary u"
     "u = (if zs = [] then CHR ''}'' # r' else CHR '','' # join_comma (map member zs) @ CHR ''}'' # r')"
    using tail by blast
  have "quote k @ (CHR '':'' # dumps v @ t) = quote l @ (CHR '':'' # dumps w @ u)"
    using Cons.prems(2) t(1) u(1) ys x y by simp
  from quote_prefix [OF this] have kl: "k = l" and d: "dumps v @ t = dumps w @ u" by auto
  have "prefix_code v" using Cons.prems(1) x by simp
  with d t(2) u(2) have vw: "norm_doc v = norm_doc w" and tu: "t = u"
    by (auto simp: prefix_code_def)
  have "map (\<lambda>(k, v). (k, norm_doc v)) xs = map (\<lambda>(k, v). (k, norm_doc v)) zs \<and> r = r'"
  proof (cases "xs = []")
    case True
    then show ?thesis using tu t(3) u(3) by (auto split: if_splits)
  next
    case False
    then show ?thesis using tu t(3) u(3) Cons.IH [of zs] Cons.prems(1) by (auto split: if_splits)
  qed
  then show ?case using x y ys kl vw by simp
qed

lemma dumps_prefix_code: "prefix_code v"
proof (induction v)
  case (DInt i)
  show ?case unfolding prefix_code_def
  proof (intro allI impI)
    fix v' r r' assume b: "boundary r" "boundary r'" and e: "dumps (DInt i) @ r = dumps v' @ r'"
    show "norm_doc (DInt i) = norm_doc v' \<and> r = r'"
      using b e int_str_hd [of i] int_str_prefix [of i r _ r'] by (cases v') (auto simp: quote_def is_digit_def)
  qed
next
  case (DStr s)
  show ?case unfolding prefix_code_def
  proof (intro allI impI)
    fix v' r r' assume b: "boundary r" "boundary r'" and e: "dumps (DStr s) @ r = dumps v' @ r'"
    show "norm_doc (DStr s) = norm_doc v' \<and> r = r'"
    proof (cases v')
      case (DInt i)
      then show ?thesis using e int_str_hd [of i] by (auto simp: quote_def is_digit_def)
    next
      case (DStr s')
      then show ?thesis using e quote_prefix [of s r s' r'] by simp
    next
      case (DObj x)
      then show ?thesis using e by (auto simp: quote_def)
    qed
  qed
next
  case (DObj kvs)
  have "prefix_code v" if "(k, v) \<in> set kvs" for k v
    using DObj [OF that, of v] by simp
  then have IH: "\<forall>(k, v) \<in> set (sort_key fst kvs). prefix_code v"
    by auto
  show ?case unfolding prefix_code_def
  proof (intro allI impI)
    fix v' r r' assume b: "boundary r" "boundary r'" and e: "dumps (DObj kvs) @ r = dumps v' @ r'"
    show "norm_doc (DObj kvs) = norm_doc v' \<and> r = r'"
    proof (cases v')
      case (DInt i)
      then show ?thesis using e int_str_hd [of i] by (auto simp: is_digit_def)
    next
      case (DStr s')
      then show ?thesis using e by (auto simp: quote_def)
    next
      case (DObj kvs')
      have "join_comma (map member (sort_key fst kvs)) @ CHR ''}'' # r = join_comma (map member (sort_key fst kvs')) @ CHR ''}'' # r'"
        using e unfolding DObj dumps_DObj by simp
      from members_prefix [OF IH this] show ?thesis
        unfolding DObj by (simp add: sort_key_map_snd)
    qed
  qed
qed

lemma dumps_inject: "dumps v = dumps v' \<Longrightarrow> norm_doc v = norm_doc v'"
  using dumps_prefix_code [of v, unfolded prefix_code_def, rule_format, of "[]" "[]" v']
  by (simp add: boundary_def)

lemma ascii_char_inject [simp]:
  "(of_nat (of_char c) :: 8 word) = of_nat (of_char d) \<longleftrightarrow> c = d"
proof -
  have "unat (of_nat (of_char c) :: 8 word) = of_char c" for c :: char
    by (simp add: unat_of_nat)
  then show ?thesis
    by (metis of_char_eq_iff)
qed

lemma ascii_encode_inject [simp]: "ascii_encode s = ascii_encode t \<longleftrightarrow> s = t"
  unfolding ascii_encode_def by (rule inj_map_eq_map) (rule injI, simp)

lemma canonical_request_inject:
  "canonical_request a u s = canonical_request a' u' s' \<longleftrightarrow> a = a' \<and> u = u' \<and> s = s'"
proof
  assume "canonical_request a u s = canonical_request a' u' s'"
  then have "norm_doc (DObj [(''amount_units'', DInt u), (''asset'', DStr s), (''to_address'', DStr a)]) =
      norm_doc (DObj [(''amount_units'', DInt u'), (''asset'', DStr s'), (''to_address'', DStr a')])"
    unfolding canonical_request_def ascii_encode_inject by (rule dumps_inject)
  then show "a = a' \<and> u = u' \<and> s = s'"
    by simp
qed simp

section \<open>Properties\<close>

text \<open>The canonical serialisation is injective on meanings: two documents with the same text
  are the same document once the keys of their objects are sorted, whatever quotes, control
  characters and nesting their strings hold.\<close>

theorem dumps_injective: "dumps v = dumps v' \<longrightarrow> norm_doc v = norm_doc v'"
  using dumps_inject by blast

theorem dumps_injective_witness:
  "dumps (DObj [(''b'', DInt 1), (''a'', DStr [CHR 0x22])]) =
     dumps (DObj [(''a'', DStr [CHR 0x22]), (''b'', DInt 1)]) \<and>
   norm_doc (DObj [(''b'', DInt 1), (''a'', DStr [CHR 0x22])]) =
     norm_doc (DObj [(''a'', DStr [CHR 0x22]), (''b'', DInt 1)])"
proof -
  have h: "dumps (DObj [(''b'', DInt 1), (''a'', DStr [CHR 0x22])]) =
     dumps (DObj [(''a'', DStr [CHR 0x22]), (''b'', DInt 1)])"
    by simp
  show ?thesis
    using h dumps_injective [THEN mp, OF h] by blast
qed

text \<open>C40. The request hash tells requests apart exactly by their meaning: when the digest does not
  collide on the two canonical texts, two hashes are equal if and only if destination, amount in
  units and asset are all equal.\<close>

theorem request_hash_faithful:
  assumes "inj_on sha {canonical_request a u s, canonical_request a' u' s'}"
  shows "request_hash sha a u s = request_hash sha a' u' s' \<longleftrightarrow> a = a' \<and> u = u' \<and> s = s'"
  using inj_on_eq_iff [OF assms] canonical_request_inject [of a u s a' u' s']
  unfolding request_hash_def by simp

theorem request_hash_faithful_witness:
  "request_hash (\<lambda>bs. bs) ''Ta'' 1500000 ''USDT'' \<noteq> request_hash (\<lambda>bs. bs) ''Ta'' 1500001 ''USDT''"
  using request_hash_faithful [of "\<lambda>bs. bs" "''Ta''" 1500000 "''USDT''" "''Ta''" 1500001 "''USDT''"]
  by simp

end
