(* ===== verification/Tron_Types.thy ===== *)
theory Tron_Types
  imports Canonical
begin

text \<open>
  \<open>sluice/tron/types.py\<close>: the broadcast codes and their classification, the answers of the node,
  the transaction envelope and its identifier, and the JSON form in which a signed transaction is
  stored.  \<open>BroadcastCode\<close> is a \<open>StrEnum\<close> whose members compare equal to their text, so a
  result code is a string.  A stored dictionary has values of the type \<open>pyval\<close>, in which a
  rendered date (\<open>isoformat\<close>) stands for the date it renders and is read back by
  \<open>fromisoformat\<close>.
\<close>

section \<open>Broadcast codes\<close>

datatype broadcast_code =
    SUCCESS | DUP_TRANSACTION | SIGERROR | CONTRACT_VALIDATE_ERROR
  | TAPOS_ERROR | TRANSACTION_EXPIRATION_ERROR | SERVER_BUSY

fun code_value :: "broadcast_code \<Rightarrow> string" where
  "code_value SUCCESS = ''SUCCESS''"
| "code_value DUP_TRANSACTION = ''DUP_TRANSACTION''"
| "code_value SIGERROR = ''SIGERROR''"
| "code_value CONTRACT_VALIDATE_ERROR = ''CONTRACT_VALIDATE_ERROR''"
| "code_value TAPOS_ERROR = ''TAPOS_ERROR''"
| "code_value TRANSACTION_EXPIRATION_ERROR = ''TRANSACTION_EXPIRATION_ERROR''"
| "code_value SERVER_BUSY = ''SERVER_BUSY''"

definition RETRY_SAME_BYTES :: "string list" where
  "RETRY_SAME_BYTES = map code_value [SERVER_BUSY]"

definition ACCEPTED :: "string list" where
  "ACCEPTED = map code_value [SUCCESS, DUP_TRANSACTION]"

definition HARD_REJECT :: "string list" where
  "HARD_REJECT = map code_value [SIGERROR, CONTRACT_VALIDATE_ERROR]"

definition STALE_ENVELOPE :: "string list" where
  "STALE_ENVELOPE = map code_value [TAPOS_ERROR, TRANSACTION_EXPIRATION_ERROR]"

record broadcast_result =
  br_code :: string
  br_message :: string

section \<open>Queries\<close>

datatype tx_query = UNKNOWN | PENDING | INCLUDED

fun query_value :: "tx_query \<Rightarrow> string" where
  "query_value UNKNOWN = ''unknown''"
| "query_value PENDING = ''pending''"
| "query_value INCLUDED = ''included''"

record tx_status =
  ts_result :: tx_query
  ts_block :: "int option"
  ts_solid :: bool
  ts_receipt :: "string option"

section \<open>Envelopes\<close>

record contract =
  c_type :: string
  contract_address :: string
  c_call :: string
  c_to :: string
  c_amount_units :: string

record raw_data =
  rd_contract :: contract
  ref_block_num :: int
  ref_block_hash :: string
  rd_timestamp_ms :: int
  rd_expiration_ms :: int

definition raw_doc :: "raw_data \<Rightarrow> jdoc" where
  "raw_doc r =
     DObj [(''contract'',
            DObj [(''type'', DStr (c_type (rd_contract r))),
                  (''contract_address'', DStr (contract_address (rd_contract r))),
                  (''call'', DStr (c_call (rd_contract r))),
                  (''to'', DStr (c_to (rd_contract r))),
                  (''amount_units'', DStr (c_amount_units (rd_contract r)))]),
           (''ref_block_num'', DInt (ref_block_num r)),
           (''ref_block_hash'', DStr (ref_block_hash r)),
           (''timestamp_ms'', DInt (rd_timestamp_ms r)),
           (''expiration_ms'', DInt (rd_expiration_ms r))]"

definition txid_blob :: "raw_data \<Rightarrow> bytes" where
  "txid_blob r = utf8_encode (dumps (raw_doc r))"

definition compute_txid :: "(bytes \<Rightarrow> bytes) \<Rightarrow> raw_data \<Rightarrow> string" where
  "compute_txid sha r = bytes_hex (sha (txid_blob r))"

record unsignedtx =
  ut_raw_data :: raw_data
  ut_txid :: string
  ut_expiration :: time

record signedtx =
  st_raw_data :: raw_data
  st_txid :: string
  st_expiration :: time
  st_signature :: string

datatype pyval =
    PNone
  | PBool bool
  | PInt int
  | PStr string
  | PDur duration
  | PIso time
  | PRaw raw_data
  | PDict "(string, pyval) dict"

definition to_json :: "signedtx \<Rightarrow> (string, pyval) dict" where
  "to_json t =
     [(''raw_data'', PRaw (st_raw_data t)), (''txid'', PStr (st_txid t)),
      (''expiration'', PIso (st_expiration t)), (''signature'', PStr (st_signature t))]"

definition py_item :: "(string, pyval) dict \<Rightarrow> string \<Rightarrow> exn + pyval" where
  "py_item d k = (case dict_get d k of None \<Rightarrow> Inl (KeyError k) | Some v \<Rightarrow> Inr v)"

definition from_json :: "(string, pyval) dict \<Rightarrow> exn + signedtx" where
  "from_json d =
     ebind (py_item d ''raw_data'') (\<lambda>r.
     ebind (py_item d ''txid'') (\<lambda>t.
     ebind (py_item d ''expiration'') (\<lambda>e.
     ebind (py_item d ''signature'') (\<lambda>s.
       case (r, t, e, s) of
         (PRaw r', PStr t', PIso e', PStr s') \<Rightarrow>
           Inr \<lparr> st_raw_data = r', st_txid = t', st_expiration = e', st_signature = s' \<rparr>
       | _ \<Rightarrow> Inl TypeError))))"

section \<open>Lemmas\<close>

lemma code_value_inject [simp]: "code_value a = code_value b \<longleftrightarrow> a = b"
  by (cases a; cases b) simp_all

lemmas code_sets = RETRY_SAME_BYTES_def ACCEPTED_def HARD_REJECT_def STALE_ENVELOPE_def

lemma from_to_json [simp]: "from_json (to_json t) = Inr t"
  by (simp add: from_json_def to_json_def py_item_def)

lemma esc_char_ascii: "c \<in> set (esc_char d) \<Longrightarrow> (of_char c :: nat) < 128"
proof -
  have "(of_char (hex_char n) :: nat) < 128" if "n < 16" for n
    using hex_char_of [OF that] that by simp
  moreover have "(of_char d :: nat) div 16 < 16"
    by (simp add: less_mult_imp_div_less)
  ultimately show "c \<in> set (esc_char d) \<Longrightarrow> (of_char c :: nat) < 128"
    by (auto simp: esc_char_def Let_def split: if_splits)
qed

lemma quote_ascii: "c \<in> set (quote s) \<Longrightarrow> (of_char c :: nat) < 128"
  by (auto simp: quote_def esc_def dest: esc_char_ascii)

lemma join_comma_set: "set (join_comma xs) \<subseteq> insert CHR '','' (\<Union> (set ` set xs))"
  by (induction xs rule: join_comma.induct) auto

lemma dumps_ascii: "c \<in> set (dumps v) \<Longrightarrow> (of_char c :: nat) < 128"
proof (induction v)
  case (DInt i)
  then show ?case by (auto dest: int_str_chars simp: is_digit_def)
next
  case (DStr s)
  then show ?case by (auto dest: quote_ascii)
next
  case (DObj kvs)
  from DObj.prems consider "c \<in> {CHR ''{'', CHR ''}'', CHR '','', CHR '':''}"
    | k v where "(k, v) \<in> set kvs" "c \<in> set (quote k) \<or> c \<in> set (dumps v)"
    unfolding dumps_DObj using join_comma_set by fastforce
  then show ?case
    using DObj.IH by cases (auto dest: quote_ascii)
qed

lemma utf8_ascii: "\<forall>c \<in> set s. (of_char c :: nat) < 128 \<Longrightarrow> utf8_encode s = ascii_encode s"
  by (induction s) (simp_all add: utf8_encode_def utf8_char_def ascii_encode_def Let_def)

lemma txid_blob_ascii: "txid_blob r = ascii_encode (dumps (raw_doc r))"
  unfolding txid_blob_def by (rule utf8_ascii) (auto dest: dumps_ascii)

lemma txid_blob_inject: "txid_blob r = txid_blob r' \<longleftrightarrow> r = r'"
proof
  assume "txid_blob r = txid_blob r'"
  then have "norm_doc (raw_doc r) = norm_doc (raw_doc r')"
    unfolding txid_blob_ascii ascii_encode_inject by (rule dumps_inject)
  then show "r = r'"
    by (simp add: raw_doc_def)
qed simp

section \<open>Properties\<close>

text \<open>The transaction id identifies the envelope: where the digest does not collide on the two
  serialised envelopes, two envelopes have the same txid if and only if they agree in every field
  (contract, call, destination, amount, reference block, timestamp and expiration).\<close>

theorem txid_identifies_envelope:
  assumes "inj_on sha {txid_blob r, txid_blob r'}"
  shows "compute_txid sha r = compute_txid sha r' \<longleftrightarrow> r = r'"
  using inj_on_eq_iff [OF assms] txid_blob_inject [of r r']
  unfolding compute_txid_def bytes_hex_inject by simp

theorem txid_identifies_envelope_witness:
  "let r = \<lparr> rd_contract = \<lparr> c_type = ''T'', contract_address = ''C'', c_call = ''f'', c_to = ''A'',
             c_amount_units = ''1'' \<rparr>, ref_block_num = 1, ref_block_hash = ''b'',
             rd_timestamp_ms = 1, rd_expiration_ms = 2 \<rparr>
   in compute_txid (\<lambda>bs. bs) r \<noteq> compute_txid (\<lambda>bs. bs) (r\<lparr>rd_timestamp_ms := 2\<rparr>)"
  unfolding Let_def by (subst txid_identifies_envelope) simp_all

text \<open>A signed transaction survives storage: reading back the stored JSON form gives the same
  transaction, and the JSON form determines it.\<close>

theorem signed_json_roundtrip:
  "from_json (to_json t) = Inr t \<and> (to_json t = to_json t' \<longleftrightarrow> t = t')"
  using from_to_json by (metis sum.inject(2))

text \<open>The classification of broadcast codes is a partition: every code the enumeration knows
  is in exactly one of the four classes, and a text outside the enumeration is in none (it is
  treated as ambiguous).\<close>

theorem codes_partition:
  "(length (filter (\<lambda>cls. x \<in> set cls) [ACCEPTED, HARD_REJECT, STALE_ENVELOPE, RETRY_SAME_BYTES]) =
     (if x \<in> range code_value then 1 else 0))"
proof (cases "x \<in> range code_value")
  case True
  then obtain c where "x = code_value c" by auto
  then have "length (filter (\<lambda>cls. x \<in> set cls)
      [ACCEPTED, HARD_REJECT, STALE_ENVELOPE, RETRY_SAME_BYTES]) = 1"
    by (cases c) (simp_all add: code_sets)
  with True show ?thesis by simp
next
  case False
  then have "x \<noteq> code_value c" for c by auto
  then show ?thesis
    using False by (simp add: code_sets del: code_value.simps)
qed

end
