(* ===== verification/Address.thy ===== *)
theory Address
  imports Exceptions
begin

text \<open>
  \<open>sluice/tron/address.py\<close>: TRON base58check addresses.  Numbers in base 58 and base 256 are
  most-significant-first digit lists without leading zeros, which is what the \<open>divmod\<close> loop
  of \<open>_b58encode\<close> (reversed) and \<open>int.to_bytes\<close> with the minimal length produce.  The digest
  \<open>hashlib.sha256\<close> is the parameter \<open>sha\<close>; the properties assume of it only the documented
  digest size of 32 bytes.
\<close>

section \<open>Definitions\<close>

fun radix_digits :: "nat \<Rightarrow> nat \<Rightarrow> nat list" where
  "radix_digits b n =
     (if n = 0 \<or> b < 2 then [] else radix_digits b (n div b) @ [n mod b])"

declare radix_digits.simps [simp del]

definition radix_val :: "nat \<Rightarrow> nat list \<Rightarrow> nat" where
  "radix_val b ds = foldl (\<lambda>a d. a * b + d) 0 ds"

definition ALPHABET :: string where
  "ALPHABET = ''123456789ABCDEFGHJKLMNPQRSTUVWXYZabcdefghijkmnopqrstuvwxyz''"

definition INDEX :: "char \<Rightarrow> nat option" where
  "INDEX c = map_of (zip ALPHABET [0..<58]) c"

definition VERSION :: "8 word" where
  "VERSION = 0x41"

fun b58_num :: "nat \<Rightarrow> string \<Rightarrow> exn + nat" where
  "b58_num num [] = Inr num"
| "b58_num num (c # cs) =
     (case INDEX c of None \<Rightarrow> Inl ValueError | Some i \<Rightarrow> b58_num (num * 58 + i) cs)"

definition int_to_bytes :: "nat \<Rightarrow> bytes" where
  "int_to_bytes n = map of_nat (radix_digits 256 n)"

definition int_from_bytes :: "bytes \<Rightarrow> nat" where
  "int_from_bytes bs = radix_val 256 (map unat bs)"

definition b58decode :: "string \<Rightarrow> exn + bytes" where
  "b58decode s =
     ebind (b58_num 0 s) (\<lambda>num.
       Inr (replicate (length s - length (py_lstrip (\<lambda>c. c = CHR ''1'') s)) 0 @ int_to_bytes num))"

definition b58encode :: "bytes \<Rightarrow> string" where
  "b58encode raw =
     replicate (length raw - length (dropWhile (\<lambda>b. b = 0) raw)) CHR ''1'' @
     map (\<lambda>d. ALPHABET ! d) (radix_digits 58 (int_from_bytes raw))"

definition checksum :: "(bytes \<Rightarrow> bytes) \<Rightarrow> bytes \<Rightarrow> bytes" where
  "checksum sha payload = take 4 (sha (sha payload))"

definition is_valid :: "(bytes \<Rightarrow> bytes) \<Rightarrow> string \<Rightarrow> bool" where
  "is_valid sha address =
     (if \<not> (30 \<le> length address \<and> length address \<le> 40) then False
      else case b58decode address of
          Inl _ \<Rightarrow> False
        | Inr raw \<Rightarrow>
            if length raw \<noteq> 25 \<or> raw ! 0 \<noteq> VERSION then False
            else checksum sha (take 21 raw) = drop 21 raw)"

definition from_payload :: "(bytes \<Rightarrow> bytes) \<Rightarrow> bytes \<Rightarrow> exn + string" where
  "from_payload sha body20 =
     (if length body20 \<noteq> 20 then Inl ValueError
      else (let payload = VERSION # body20 in
            Inr (b58encode (payload @ checksum sha payload))))"

section \<open>Digits in a radix\<close>

lemma radix_val_Nil [simp]: "radix_val b [] = 0"
  by (simp add: radix_val_def)

lemma radix_val_snoc [simp]: "radix_val b (ds @ [d]) = radix_val b ds * b + d"
  by (simp add: radix_val_def)

lemma radix_val_zero [simp]: "radix_val b (0 # ds) = radix_val b ds"
  by (simp add: radix_val_def)

lemma radix_val_zeros [simp]: "radix_val b (replicate n 0 @ ds) = radix_val b ds"
  by (induction n) simp_all

lemma radix_digits_0 [simp]: "radix_digits b 0 = []"
  by (simp add: radix_digits.simps)

lemma radix_val_digits: "2 \<le> b \<Longrightarrow> radix_val b (radix_digits b n) = n"
proof (induction b n rule: radix_digits.induct)
  case (1 b n)
  then show ?case
    by (cases "n = 0") (simp_all add: radix_digits.simps [of b n] radix_val_def)
qed

lemma radix_digits_bound: "d \<in> set (radix_digits b n) \<Longrightarrow> d < b"
proof (induction b n rule: radix_digits.induct)
  case (1 b n)
  then show ?case
    by (cases "n = 0 \<or> b < 2") (auto simp: radix_digits.simps [of b n])
qed

lemma radix_digits_Nil_iff: "2 \<le> b \<Longrightarrow> radix_digits b n = [] \<longleftrightarrow> n = 0"
  by (subst radix_digits.simps) simp

lemma radix_digits_step:
  assumes "d < b" "2 \<le> b" "0 < n * b + d"
  shows "radix_digits b (n * b + d) = radix_digits b n @ [d]"
  using assms radix_digits.simps [of b "n * b + d"] by simp

text \<open>Reading digits and writing them again drops exactly the leading zeros.\<close>

lemma radix_digits_val:
  assumes "2 \<le> b" "\<forall>d \<in> set ds. d < b"
  shows "radix_digits b (radix_val b ds) = dropWhile (\<lambda>d. d = 0) ds"
  using assms(2)
proof (induction ds rule: rev_induct)
  case (snoc d ds)
  then have IH: "radix_digits b (radix_val b ds) = dropWhile (\<lambda>d. d = 0) ds" and d: "d < b"
    by simp_all
  show ?case
  proof (cases "radix_val b ds * b + d = 0")
    case True
    then have "radix_val b ds = 0" and "d = 0"
      using assms(1) by auto
    then have "dropWhile (\<lambda>d. d = 0) ds = []"
      using IH by simp
    then have "\<forall>x \<in> set ds. x = 0"
      by simp
    then show ?thesis
      using \<open>radix_val b ds = 0\<close> \<open>d = 0\<close> by (simp add: dropWhile_append2)
  next
    case False
    then have "radix_digits b (radix_val b (ds @ [d])) = dropWhile (\<lambda>d. d = 0) ds @ [d]"
      using radix_digits_step [OF d assms(1)] IH by simp
    moreover have "dropWhile (\<lambda>d. d = 0) (ds @ [d]) = dropWhile (\<lambda>d. d = 0) ds @ [d]"
    proof (cases "\<forall>x \<in> set ds. x = 0")
      case True
      then have "radix_digits b (radix_val b ds) = []"
        using IH by simp
      then have "radix_val b ds = 0"
        using radix_digits_Nil_iff [OF assms(1)] by simp
      with False have "d \<noteq> 0" by simp
      with True show ?thesis
        by (simp add: dropWhile_append2 dropWhile_eq_Nil_conv [THEN iffD2])
    next
      case False
      then show ?thesis by (auto simp: dropWhile_append1)
    qed
    ultimately show ?thesis by simp
  qed
qed simp

lemma radix_digits_dropWhile:
  assumes "2 \<le> b"
  shows "dropWhile (\<lambda>d. d = 0) (radix_digits b n) = radix_digits b n"
  using radix_digits_val [OF assms, of "radix_digits b n"] radix_val_digits [OF assms]
    radix_digits_bound by metis

lemma radix_digits_length_le:
  "2 \<le> b \<Longrightarrow> n < b ^ k \<Longrightarrow> length (radix_digits b n) \<le> k"
proof (induction k arbitrary: n)
  case (Suc k)
  show ?case
  proof (cases "n = 0")
    case False
    have "n div b < b ^ k"
      using Suc.prems by (simp add: less_mult_imp_div_less mult.commute)
    then show ?thesis
      using Suc.IH [of "n div b"] Suc.prems(1) False by (simp add: radix_digits.simps [of b n])
  qed simp
qed simp

lemma radix_digits_length_ge:
  "2 \<le> b \<Longrightarrow> b ^ k \<le> n \<Longrightarrow> k < length (radix_digits b n)"
proof (induction k arbitrary: n)
  case 0
  then show ?case by (simp add: radix_digits_Nil_iff)
next
  case (Suc k)
  have "b ^ k \<le> n div b"
    using Suc.prems by (simp add: less_eq_div_iff_mult_less_eq mult.commute)
  moreover have "n \<noteq> 0"
    using Suc.prems by (metis le_zero_eq power_not_zero not_numeral_le_zero)
  ultimately show ?case
    using Suc.IH [of "n div b"] Suc.prems(1) by (simp add: radix_digits.simps [of b n])
qed

section \<open>Base 58\<close>

lemma ALPHABET_length [simp]: "length ALPHABET = 58"
  by (simp add: ALPHABET_def)

lemma ALPHABET_distinct: "distinct ALPHABET"
  by (simp add: ALPHABET_def)

lemma INDEX_ALPHABET [simp]: "d < 58 \<Longrightarrow> INDEX (ALPHABET ! d) = Some d"
proof -
  assume d: "d < 58"
  have "distinct (map fst (zip ALPHABET [0..<58]))"
    by (simp add: ALPHABET_distinct)
  moreover have "(ALPHABET ! d, d) \<in> set (zip ALPHABET [0..<58])"
    using d by (auto simp: set_zip)
  ultimately show ?thesis
    by (simp add: INDEX_def)
qed

lemma INDEX_SomeD: "INDEX c = Some d \<Longrightarrow> d < 58 \<and> ALPHABET ! d = c"
  unfolding INDEX_def by (drule map_of_SomeD) (auto simp: set_zip)

lemma INDEX_one [simp]: "INDEX CHR ''1'' = Some 0"
  using INDEX_ALPHABET [of 0] by (simp add: ALPHABET_def)

lemma ALPHABET_one: "d < 58 \<Longrightarrow> ALPHABET ! d = CHR ''1'' \<longleftrightarrow> d = 0"
  using INDEX_ALPHABET [of d] by (metis INDEX_one INDEX_SomeD option.inject)

lemma b58_num_digits:
  assumes "\<forall>d \<in> set ds. d < 58"
  shows "b58_num n (map (\<lambda>d. ALPHABET ! d) ds) = Inr (foldl (\<lambda>a d. a * 58 + d) n ds)"
  using assms by (induction ds arbitrary: n) simp_all

lemma b58_num_InrD:
  "b58_num n s = Inr m \<Longrightarrow>
    \<exists>ds. s = map (\<lambda>d. ALPHABET ! d) ds \<and> (\<forall>d \<in> set ds. d < 58) \<and>
      m = foldl (\<lambda>a d. a * 58 + d) n ds"
proof (induction s arbitrary: n)
  case (Cons c s)
  then obtain d where d: "INDEX c = Some d" and "b58_num (n * 58 + d) s = Inr m"
    by (auto split: option.splits)
  with Cons.IH obtain ds where "s = map (\<lambda>d. ALPHABET ! d) ds" "\<forall>d \<in> set ds. d < 58"
      "m = foldl (\<lambda>a d. a * 58 + d) (n * 58 + d) ds"
    by blast
  with INDEX_SomeD [OF d] show ?case
    by (intro exI [of _ "d # ds"]) simp
qed simp

lemma takeWhile_eq_replicate:
  "s = replicate (length s - length (dropWhile (\<lambda>c. c = x) s)) x @ dropWhile (\<lambda>c. c = x) s"
  by (induction s) (simp_all add: Suc_diff_le length_dropWhile_le)

lemma dropWhile_replicate_append [simp]:
  "dropWhile (\<lambda>x. x = a) (replicate n a @ xs) = dropWhile (\<lambda>x. x = a) xs"
  by (induction n) simp_all

lemma dropWhile_map_zero:
  assumes "\<forall>d \<in> set ds. f d = y \<longleftrightarrow> d = 0"
  shows "dropWhile (\<lambda>c. c = y) (map f ds) = map f (dropWhile (\<lambda>d. d = 0) ds)"
  using assms by (induction ds) auto

lemma unat_of_nat_byte: "d < 256 \<Longrightarrow> unat (of_nat d :: 8 word) = d"
  by (simp add: unat_of_nat)

lemma map_unat_bytes:
  "\<forall>d \<in> set ds. d < 256 \<Longrightarrow> map unat (map of_nat ds :: 8 word list) = ds"
  by (induction ds) (simp_all add: unat_of_nat_byte)

lemma int_to_from_bytes:
  "int_to_bytes (int_from_bytes raw) = dropWhile (\<lambda>b. b = 0) raw"
proof -
  have "radix_digits 256 (radix_val 256 (map unat raw)) = dropWhile (\<lambda>d. d = 0) (map unat raw)"
    by (rule radix_digits_val) (auto simp: unsigned_less [where 'b = 8, simplified])
  also have "\<dots> = map unat (dropWhile (\<lambda>b. b = 0) raw)"
    by (induction raw) (auto simp: unat_eq_zero)
  finally show ?thesis
    by (simp add: int_to_bytes_def int_from_bytes_def comp_def)
qed

lemma int_from_to_bytes:
  "int_from_bytes (replicate k 0 @ int_to_bytes n) = n"
proof -
  have "map unat (map of_nat (radix_digits 256 n) :: 8 word list) = radix_digits 256 n"
    by (rule map_unat_bytes) (auto dest: radix_digits_bound)
  then show ?thesis
    by (simp add: int_from_bytes_def int_to_bytes_def radix_val_digits comp_def)
qed

lemma int_to_bytes_no_zero:
  "dropWhile (\<lambda>b. b = 0) (int_to_bytes n) = int_to_bytes n"
proof -
  have "(of_nat d :: 8 word) = 0 \<longleftrightarrow> d = 0" if "d < 256" for d
    using unat_of_nat_byte [OF that] unat_eq_zero [of "of_nat d :: 8 word"] by simp
  then have "dropWhile (\<lambda>b. b = 0) (int_to_bytes n) =
      map of_nat (dropWhile (\<lambda>d. d = 0) (radix_digits 256 n))"
    unfolding int_to_bytes_def
    by (intro dropWhile_map_zero) (auto dest: radix_digits_bound)
  then show ?thesis
    by (simp add: radix_digits_dropWhile int_to_bytes_def)
qed

text \<open>Decoding inverts encoding on all byte strings, leading zero bytes included.\<close>

lemma b58decode_encode: "b58decode (b58encode raw) = Inr raw"
proof -
  let ?n = "int_from_bytes raw" and ?k = "length raw - length (dropWhile (\<lambda>b. b = 0) raw)"
  let ?ds = "radix_digits 58 ?n"
  have enc: "b58encode raw = map (\<lambda>d. ALPHABET ! d) (replicate ?k 0 @ ?ds)"
    by (simp add: b58encode_def ALPHABET_def)
  have ds: "\<forall>d \<in> set (replicate ?k 0 @ ?ds). d < 58"
    by (auto dest: radix_digits_bound)
  have "b58_num 0 (b58encode raw) = Inr (radix_val 58 (replicate ?k 0 @ ?ds))"
    unfolding enc radix_val_def by (rule b58_num_digits [OF ds])
  then have num: "b58_num 0 (b58encode raw) = Inr ?n"
    by (simp add: radix_val_digits)
  have "dropWhile (\<lambda>c. c = CHR ''1'') (b58encode raw) =
      map (\<lambda>d. ALPHABET ! d) (dropWhile (\<lambda>d. d = 0) (replicate ?k 0 @ ?ds))"
    unfolding enc using ds by (intro dropWhile_map_zero) (auto simp: ALPHABET_one)
  also have "\<dots> = map (\<lambda>d. ALPHABET ! d) ?ds"
    by (simp add: radix_digits_dropWhile)
  finally have "length (b58encode raw) - length (py_lstrip (\<lambda>c. c = CHR ''1'') (b58encode raw)) = ?k"
    by (simp add: enc py_lstrip_def)
  then show ?thesis
    using num takeWhile_eq_replicate [of raw 0]
    by (simp add: b58decode_def int_to_from_bytes)
qed

text \<open>Encoding inverts decoding: a base 58 text is determined by the bytes it decodes to.\<close>

lemma b58encode_decode:
  assumes "b58decode s = Inr raw"
  shows "b58encode raw = s"
proof -
  let ?t = "dropWhile (\<lambda>c. c = CHR ''1'') s"
  let ?k = "length s - length ?t"
  obtain num where num: "b58_num 0 s = Inr num" and raw: "raw = replicate ?k 0 @ int_to_bytes num"
    using assms by (auto simp: b58decode_def py_lstrip_def)
  obtain ds where ds: "s = map (\<lambda>d. ALPHABET ! d) ds" "\<forall>d \<in> set ds. d < 58"
      "num = radix_val 58 ds"
    using b58_num_InrD [OF num] by (auto simp: radix_val_def)
  have t: "?t = map (\<lambda>d. ALPHABET ! d) (dropWhile (\<lambda>d. d = 0) ds)"
    unfolding ds(1) using ds(2) by (intro dropWhile_map_zero) (auto simp: ALPHABET_one)
  have "radix_digits 58 num = dropWhile (\<lambda>d. d = 0) ds"
    unfolding ds(3) by (rule radix_digits_val) (simp_all add: ds(2))
  moreover have "int_from_bytes raw = num"
    unfolding raw by (rule int_from_to_bytes)
  moreover have "length raw - length (dropWhile (\<lambda>b. b = 0) raw) = ?k"
    unfolding raw by (simp add: int_to_bytes_no_zero)
  ultimately have "b58encode raw = replicate ?k CHR ''1'' @ ?t"
    by (simp add: b58encode_def t)
  then show ?thesis
    using takeWhile_eq_replicate [of s "CHR ''1''"] by simp
qed

lemma int_from_bytes_bounds:
  assumes "length body = 24"
  shows "65 * 256 ^ 24 \<le> int_from_bytes (VERSION # body)"
    and "int_from_bytes (VERSION # body) < 66 * 256 ^ 24"
proof -
  have val: "radix_val 256 (d # ds) = d * 256 ^ length ds + radix_val 256 ds" for d ds
    by (induction ds rule: rev_induct) (simp_all add: radix_val_def algebra_simps)
  have "radix_val 256 (map unat bs) < 256 ^ length bs" for bs :: bytes
  proof (induction bs)
    case (Cons b bs)
    have "unat b \<le> 255"
      using unsigned_less [of b, where 'a = nat] by simp
    then have "unat b * 256 ^ length bs \<le> 255 * 256 ^ length bs"
      by (rule mult_le_mono1)
    then have "unat b * 256 ^ length bs + radix_val 256 (map unat bs) < 256 * 256 ^ length bs"
      using Cons.IH by linarith
    then show ?case
      using val [of "unat b" "map unat bs"] by simp
  qed simp
  from this [of body] val [of "unat VERSION" "map unat body"] assms
  show "65 * 256 ^ 24 \<le> int_from_bytes (VERSION # body)"
    and "int_from_bytes (VERSION # body) < 66 * 256 ^ 24"
    by (simp_all add: int_from_bytes_def VERSION_def)
qed

text \<open>Every address has 34 characters: the version byte fixes the size of the number.\<close>

lemma address_length:
  assumes "length body = 24"
  shows "length (b58encode (VERSION # body)) = 34"
proof -
  let ?n = "int_from_bytes (VERSION # body)"
  have "58 ^ 33 \<le> ?n" and "?n < 58 ^ 34"
    using int_from_bytes_bounds [OF assms] by simp_all
  then have "33 < length (radix_digits 58 ?n)" and "length (radix_digits 58 ?n) \<le> 34"
    by (intro radix_digits_length_ge radix_digits_length_le; simp)+
  then show ?thesis
    by (simp add: b58encode_def VERSION_def)
qed

lemma from_payload_is_valid:
  assumes "length body = 20" and "\<forall>x. length (sha x) = 32"
  shows "\<exists>a. from_payload sha body = Inr a \<and> is_valid sha a"
proof -
  let ?raw = "VERSION # body @ checksum sha (VERSION # body)"
  have "length (checksum sha (VERSION # body)) = 4"
    using assms(2) by (simp add: checksum_def)
  then have "length (b58encode ?raw) = 34" and "length ?raw = 25"
    using assms(1) by (simp_all add: address_length)
  then show ?thesis
    using assms(1) by (simp add: from_payload_def is_valid_def b58decode_encode)
qed

lemma is_valid_from_payload:
  assumes "is_valid sha a"
  shows "\<exists>body. length body = 20 \<and> from_payload sha body = Inr a"
proof -
  obtain raw where raw: "b58decode a = Inr raw" "length raw = 25" "raw ! 0 = VERSION"
      "checksum sha (take 21 raw) = drop 21 raw"
    using assms by (auto simp: is_valid_def split: if_splits sum.splits)
  obtain body where body: "take 21 raw = VERSION # body"
    using raw(2,3) by (cases raw) auto
  moreover have "length (take 21 raw) = 21"
    using raw(2) by simp
  ultimately have "length (VERSION # body) = 21"
    by simp
  moreover have "raw = (VERSION # body) @ checksum sha (VERSION # body)"
    using append_take_drop_id [of 21 raw] unfolding body [symmetric] raw(4) by simp
  ultimately show ?thesis
    using b58encode_decode [OF raw(1)]
    by (intro exI [of _ body]) (simp add: from_payload_def)
qed

section \<open>A sample address\<close>

definition sample_sha :: "bytes \<Rightarrow> bytes" where
  "sample_sha bs = replicate 32 7"

definition sample_address :: string where
  "sample_address = (case from_payload sample_sha (replicate 20 1) of Inl e \<Rightarrow> [] | Inr a \<Rightarrow> a)"

lemma sample_address_valid: "is_valid sample_sha sample_address"
proof -
  obtain a where "from_payload sample_sha (replicate 20 1) = Inr a" "is_valid sample_sha a"
    using from_payload_is_valid [of "replicate 20 1" sample_sha] by (auto simp: sample_sha_def)
  then show ?thesis by (simp add: sample_address_def)
qed

section \<open>Properties\<close>

text \<open>C37. Base 58 coding is a bijection between byte strings and the texts over the alphabet:
  decoding an encoding returns the bytes, and any text that decodes is the encoding of what it
  decodes to.\<close>

theorem base58_roundtrip:
  "b58decode (b58encode raw) = Inr raw \<and> (b58decode s = Inr raw \<longrightarrow> s = b58encode raw)"
  using b58decode_encode b58encode_decode by auto

theorem base58_roundtrip_witness:
  "b58decode ''12'' = Inr [0, 1] \<and> ''12'' = b58encode [0, 1]"
proof -
  have h: "b58decode ''12'' = Inr [0, 1]"
    by (simp add: b58decode_def INDEX_def ALPHABET_def py_lstrip_def int_to_bytes_def
        radix_digits.simps upt_rec)
  show ?thesis
    using h base58_roundtrip [THEN conjunct2, THEN mp, OF h] by simp
qed

text \<open>C36. Address validation accepts exactly the checksummed addresses: with a 32-byte digest, a
  text is valid if and only if \<open>from_payload\<close> mints it from some 20-byte account payload.\<close>

theorem is_valid_iff_minted:
  assumes "\<forall>x. length (sha x) = 32"
  shows "is_valid sha a \<longleftrightarrow> (\<exists>body. length body = 20 \<and> from_payload sha body = Inr a)"
  using is_valid_from_payload from_payload_is_valid [OF _ assms] by fastforce

theorem is_valid_iff_minted_witness:
  "is_valid (\<lambda>_. replicate 32 7) (case from_payload (\<lambda>_. replicate 32 7) (replicate 20 1) of
     Inr a \<Rightarrow> a | Inl _ \<Rightarrow> [])"
proof -
  obtain a where a: "from_payload (\<lambda>_. replicate 32 7) (replicate 20 1) = Inr a"
    by (simp add: from_payload_def)
  show ?thesis
    unfolding a sum.case
    by (subst is_valid_iff_minted) (auto intro: exI [of _ "replicate 20 1"] simp: a)
qed

end
