(* ===== verification/Model.thy ===== *)
theory Model
  imports Tron_Types Address
begin

text \<open>
  \<open>sluice/model.py\<close>: the operation row and the event row, and the public view of an operation.
\<close>

section \<open>Definitions\<close>

record operation =
  operation_id :: uuid
  op_request_hash :: bytes
  op_state :: op_state
  to_address :: string
  asset :: string
  amount_units :: int
  unsigned_tx :: "raw_data option"
  op_txid :: "string option"
  tx_expiration :: "time option"
  signed_tx :: "(string, pyval) dict option"
  attempts :: int
  claimed_by :: "string option"
  lease_expires_at :: "time option"
  fencing_token :: int
  last_error :: "string option"
  failure_reason :: "string option"
  broadcast_at :: "time option"
  included_block :: "int option"
  confirmed_at :: "time option"
  created_at :: "time option"
  updated_at :: "time option"

definition new_operation :: "uuid \<Rightarrow> bytes \<Rightarrow> op_state \<Rightarrow> string \<Rightarrow> string \<Rightarrow> int \<Rightarrow> operation" where
  "new_operation oid rh st addr ass units =
     \<lparr> operation_id = oid, op_request_hash = rh, op_state = st, to_address = addr, asset = ass,
       amount_units = units, unsigned_tx = None, op_txid = None, tx_expiration = None,
       signed_tx = None, attempts = 0, claimed_by = None, lease_expires_at = None,
       fencing_token = 0, last_error = None, failure_reason = None, broadcast_at = None,
       included_block = None, confirmed_at = None, created_at = None, updated_at = None \<rparr>"

definition opt_str :: "string option \<Rightarrow> pyval" where
  "opt_str x = (case x of None \<Rightarrow> PNone | Some s \<Rightarrow> PStr s)"

definition opt_int :: "int option \<Rightarrow> pyval" where
  "opt_int x = (case x of None \<Rightarrow> PNone | Some i \<Rightarrow> PInt i)"

definition opt_iso :: "time option \<Rightarrow> pyval" where
  "opt_iso x = (case x of None \<Rightarrow> PNone | Some t \<Rightarrow> PIso t)"

text \<open>\<open>str\<close> of a UUID: 32 hexadecimal digits in the groups 8-4-4-4-12.\<close>

definition uuid_str :: "uuid \<Rightarrow> string" where
  "uuid_str u =
     (let h = py_rjust (map hex_char (radix_digits 16 (nat u))) 32 CHR ''0'' in
      take 8 h @ ''-'' @ take 4 (drop 8 h) @ ''-'' @ take 4 (drop 12 h) @ ''-'' @
      take 4 (drop 16 h) @ ''-'' @ drop 20 h)"

definition public_view :: "operation \<Rightarrow> (string, pyval) dict" where
  "public_view op =
     [(''operation_id'', PStr (uuid_str (operation_id op))),
      (''state'', PStr (state_value (op_state op))),
      (''to_address'', PStr (to_address op)),
      (''asset'', PStr (asset op)),
      (''amount_units'', PStr (int_str (amount_units op))),
      (''txid'', opt_str (op_txid op)),
      (''attempts'', PInt (attempts op)),
      (''failure_reason'', opt_str (failure_reason op)),
      (''included_block'', opt_int (included_block op)),
      (''created_at'', opt_iso (created_at op)),
      (''confirmed_at'', opt_iso (confirmed_at op))]"

record event =
  ev_operation_id :: uuid
  ev_from_state :: "op_state option"
  ev_to_state :: op_state
  ev_worker_id :: "string option"
  ev_fencing_token :: int
  ev_detail :: "(string, pyval) dict"
  ev_at :: "time option"
  ev_seq :: int

end
