(* ===== verification/Store_Interface.thy ===== *)
theory Store_Interface
  imports Model Exceptions
begin

text \<open>
  \<open>sluice/store/__init__.py\<close>: the storage contract.  The whitelist of columns, the assignments a
  caller of \<open>cas\<close> passes, what a successful write does to a row, and the contract itself as the
  locale \<open>fenced_store\<close>: the operations every store offers, the laws its module documentation
  states, and the consequences the callers rely on, proved once.
\<close>

section \<open>Assignments\<close>

text \<open>
  A keyword of \<open>sets\<close> is a field of the operation and its new value: one constructor for each
  field of the dataclass, so that the assignments the whitelist refuses can be written down too.
\<close>

datatype field_set =
    Set_operation_id uuid
  | Set_request_hash bytes
  | Set_state op_state
  | Set_to_address string
  | Set_asset string
  | Set_amount_units int
  | Set_unsigned_tx "raw_data option"
  | Set_txid "string option"
  | Set_tx_expiration "time option"
  | Set_signed_tx "(string, pyval) dict option"
  | Set_attempts int
  | Set_claimed_by "string option"
  | Set_lease_expires_at "time option"
  | Set_fencing_token int
  | Set_last_error "string option"
  | Set_failure_reason "string option"
  | Set_broadcast_at "time option"
  | Set_included_block "int option"
  | Set_confirmed_at "time option"
  | Set_created_at "time option"
  | Set_updated_at "time option"

fun field_name :: "field_set \<Rightarrow> string" where
  "field_name (Set_operation_id _) = ''operation_id''"
| "field_name (Set_request_hash _) = ''request_hash''"
| "field_name (Set_state _) = ''state''"
| "field_name (Set_to_address _) = ''to_address''"
| "field_name (Set_asset _) = ''asset''"
| "field_name (Set_amount_units _) = ''amount_units''"
| "field_name (Set_unsigned_tx _) = ''unsigned_tx''"
| "field_name (Set_txid _) = ''txid''"
| "field_name (Set_tx_expiration _) = ''tx_expiration''"
| "field_name (Set_signed_tx _) = ''signed_tx''"
| "field_name (Set_attempts _) = ''attempts''"
| "field_name (Set_claimed_by _) = ''claimed_by''"
| "field_name (Set_lease_expires_at _) = ''lease_expires_at''"
| "field_name (Set_fencing_token _) = ''fencing_token''"
| "field_name (Set_last_error _) = ''last_error''"
| "field_name (Set_failure_reason _) = ''failure_reason''"
| "field_name (Set_broadcast_at _) = ''broadcast_at''"
| "field_name (Set_included_block _) = ''included_block''"
| "field_name (Set_confirmed_at _) = ''confirmed_at''"
| "field_name (Set_created_at _) = ''created_at''"
| "field_name (Set_updated_at _) = ''updated_at''"

fun apply_set :: "field_set \<Rightarrow> operation \<Rightarrow> operation" where
  "apply_set (Set_operation_id v) r = r\<lparr>operation_id := v\<rparr>"
| "apply_set (Set_request_hash v) r = r\<lparr>op_request_hash := v\<rparr>"
| "apply_set (Set_state v) r = r\<lparr>op_state := v\<rparr>"
| "apply_set (Set_to_address v) r = r\<lparr>to_address := v\<rparr>"
| "apply_set (Set_asset v) r = r\<lparr>asset := v\<rparr>"
| "apply_set (Set_amount_units v) r = r\<lparr>amount_units := v\<rparr>"
| "apply_set (Set_unsigned_tx v) r = r\<lparr>unsigned_tx := v\<rparr>"
| "apply_set (Set_txid v) r = r\<lparr>op_txid := v\<rparr>"
| "apply_set (Set_tx_expiration v) r = r\<lparr>tx_expiration := v\<rparr>"
| "apply_set (Set_signed_tx v) r = r\<lparr>signed_tx := v\<rparr>"
| "apply_set (Set_attempts v) r = r\<lparr>attempts := v\<rparr>"
| "apply_set (Set_claimed_by v) r = r\<lparr>claimed_by := v\<rparr>"
| "apply_set (Set_lease_expires_at v) r = r\<lparr>lease_expires_at := v\<rparr>"
| "apply_set (Set_fencing_token v) r = r\<lparr>fencing_token := v\<rparr>"
| "apply_set (Set_last_error v) r = r\<lparr>last_error := v\<rparr>"
| "apply_set (Set_failure_reason v) r = r\<lparr>failure_reason := v\<rparr>"
| "apply_set (Set_broadcast_at v) r = r\<lparr>broadcast_at := v\<rparr>"
| "apply_set (Set_included_block v) r = r\<lparr>included_block := v\<rparr>"
| "apply_set (Set_confirmed_at v) r = r\<lparr>confirmed_at := v\<rparr>"
| "apply_set (Set_created_at v) r = r\<lparr>created_at := v\<rparr>"
| "apply_set (Set_updated_at v) r = r\<lparr>updated_at := v\<rparr>"

definition MUTABLE_FIELDS :: "string list" where
  "MUTABLE_FIELDS = [''unsigned_tx'', ''txid'', ''tx_expiration'', ''signed_tx'', ''attempts'',
     ''last_error'', ''failure_reason'', ''broadcast_at'', ''included_block'', ''confirmed_at'']"

definition mutable_sets :: "field_set list \<Rightarrow> bool" where
  "mutable_sets sets = list_all (\<lambda>f. field_name f \<in> set MUTABLE_FIELDS) sets"

section \<open>What the operations do to a row\<close>

text \<open>The row \<open>insert_new\<close> files, the row \<open>claim\<close> takes, the row \<open>cas\<close> writes and the row
  \<open>release\<close> leaves.\<close>

definition stamped :: "time \<Rightarrow> operation \<Rightarrow> operation" where
  "stamped now r = r\<lparr>created_at := Some now, updated_at := Some now\<rparr>"

definition claimed :: "time \<Rightarrow> string \<Rightarrow> duration \<Rightarrow> operation \<Rightarrow> operation" where
  "claimed now wid lease r =
     r\<lparr>claimed_by := Some wid, lease_expires_at := Some (now + lease),
       fencing_token := fencing_token r + 1, updated_at := Some now\<rparr>"

definition written :: "time \<Rightarrow> op_state \<Rightarrow> field_set list \<Rightarrow> duration option \<Rightarrow> operation \<Rightarrow> operation"
  where
  "written now to_state sets renew r0 =
     (let r1 = fold apply_set sets r0;
          r2 = r1\<lparr>op_state := to_state, updated_at := Some now\<rparr>;
          r3 = (case renew of None \<Rightarrow> r2 | Some d \<Rightarrow> r2\<lparr>lease_expires_at := Some (now + d)\<rparr>)
      in if to_state \<in> set TERMINAL then r3\<lparr>claimed_by := None, lease_expires_at := None\<rparr> else r3)"

definition released :: "time \<Rightarrow> operation \<Rightarrow> operation" where
  "released now r = r\<lparr>claimed_by := None, lease_expires_at := None, updated_at := Some now\<rparr>"

text \<open>The columns intake fixes, and how a row may evolve.\<close>

definition intake_part :: "operation \<Rightarrow> uuid \<times> bytes \<times> string \<times> string \<times> int \<times> time option" where
  "intake_part r = (operation_id r, op_request_hash r, to_address r, asset r, amount_units r,
     created_at r)"

text \<open>The columns that carry the lifecycle: everything but the claim bookkeeping.\<close>

definition lifecycle_part :: "operation \<Rightarrow> operation" where
  "lifecycle_part r = r\<lparr>claimed_by := None, lease_expires_at := None, fencing_token := 0,
     updated_at := None\<rparr>"

text \<open>A terminal row stays as it is, except that a release may still clear the claim and stamp it.\<close>

definition at_rest :: "operation \<Rightarrow> operation \<Rightarrow> bool" where
  "at_rest r r' \<longleftrightarrow> r' = r \<or> (\<exists>now. r' = released now r)"

definition row_evolves :: "operation \<Rightarrow> operation \<Rightarrow> bool" where
  "row_evolves r r' \<longleftrightarrow> intake_part r' = intake_part r \<and> fencing_token r \<le> fencing_token r' \<and>
     path (op_state r) (op_state r') \<and> (op_state r \<in> set TERMINAL \<longrightarrow> at_rest r r')"

lemma at_rest_refl [simp]: "at_rest r r" "at_rest r (released now r)"
  by (auto simp: at_rest_def)

lemma at_rest_trans: "at_rest r r' \<Longrightarrow> at_rest r' r'' \<Longrightarrow> at_rest r r''"
  by (auto simp: at_rest_def released_def)

lemma mutable_sets_keep:
  "mutable_sets sets \<Longrightarrow>
     intake_part (fold apply_set sets r) = intake_part r \<and>
     op_state (fold apply_set sets r) = op_state r \<and>
     fencing_token (fold apply_set sets r) = fencing_token r \<and>
     claimed_by (fold apply_set sets r) = claimed_by r \<and>
     lease_expires_at (fold apply_set sets r) = lease_expires_at r"
proof (induction sets arbitrary: r)
  case (Cons f fs)
  then have "field_name f \<in> set MUTABLE_FIELDS" "mutable_sets fs"
    by (simp_all add: mutable_sets_def)
  with Cons.IH [of "apply_set f r"] show ?case
    by (cases f) (simp_all add: intake_part_def MUTABLE_FIELDS_def)
qed simp

lemma written_keeps:
  assumes "mutable_sets sets"
  shows "intake_part (written now to sets renew r) = intake_part r"
    "op_state (written now to sets renew r) = to"
    "fencing_token (written now to sets renew r) = fencing_token r"
  using mutable_sets_keep [OF assms, of r]
  by (auto simp: written_def intake_part_def Let_def split: option.splits)

lemma row_evolves_refl [simp]: "row_evolves r r"
  by (simp add: row_evolves_def path.path_refl)

lemma row_evolves_trans: "row_evolves r r' \<Longrightarrow> row_evolves r' r'' \<Longrightarrow> row_evolves r r''"
proof -
  assume a: "row_evolves r r'" "row_evolves r' r''"
  then have "op_state r \<in> set TERMINAL \<Longrightarrow> op_state r' = op_state r"
    by (auto simp: row_evolves_def path_walk dest: py.walk_terminal)
  with a show ?thesis
    unfolding row_evolves_def by (auto intro: path_trans at_rest_trans)
qed

lemma released_evolves [simp]: "row_evolves r (released now r)"
  by (simp add: row_evolves_def) (simp add: released_def intake_part_def path.path_refl)

lemma claimed_evolves: "op_state r \<in> set CLAIMABLE \<Longrightarrow> row_evolves r (claimed now wid d r)"
  by (simp add: row_evolves_def claimed_def intake_part_def path.path_refl)

lemma written_evolves:
  assumes "mutable_sets sets" "can_transition (op_state r) to" "op_state r \<notin> set TERMINAL"
  shows "row_evolves r (written now to sets renew r)"
  using assms path.path_step [OF path.path_refl assms(2)]
  by (simp add: row_evolves_def written_keeps)

lemma claimed_simps [simp]:
  "operation_id (claimed now wid d r) = operation_id r"
  "op_state (claimed now wid d r) = op_state r"
  "fencing_token (claimed now wid d r) = fencing_token r + 1"
  "lease_expires_at (claimed now wid d r) = Some (now + d)"
  "claimed_by (claimed now wid d r) = Some wid"
  by (simp_all add: claimed_def)

lemma released_simps [simp]:
  "operation_id (released now r) = operation_id r"
  "op_state (released now r) = op_state r"
  "fencing_token (released now r) = fencing_token r"
  by (simp_all add: released_def)

lemma stamped_simps [simp]:
  "operation_id (stamped now r) = operation_id r"
  "op_state (stamped now r) = op_state r"
  "fencing_token (stamped now r) = fencing_token r"
  by (simp_all add: stamped_def)

text \<open>What a claim hands out, when it replaces the selected rows by claimed ones.\<close>

lemma handed_out:
  assumes sel: "\<And>k r. (k, r) \<in> set sel \<Longrightarrow> row k = Some r \<and> operation_id r = k \<and> op_state r \<in> set states \<and>
      (\<forall>l. lease_expires_at r = Some l \<longrightarrow> l \<le> now)"
    and "distinct (map fst sel)" "set qs = set sel" "distinct (map fst qs)"
    and new: "\<And>i. row' i = (case dict_get sel i of None \<Rightarrow> row i | Some r \<Rightarrow> Some (claimed now wid d r))"
    and out: "out = map (\<lambda>(k, r). claimed now wid d r) qs"
  shows "\<forall>i. row' i = row i \<or> (\<exists>r. row i = Some r \<and> op_state r \<in> set states \<and> row' i = Some (claimed now wid d r))"
    "distinct (map operation_id out)"
    "\<forall>r' \<in> set out. row' (operation_id r') = Some r' \<and> (\<exists>r. row (operation_id r') = Some r \<and> op_state r \<in> set states \<and>
       (\<forall>l. lease_expires_at r = Some l \<longrightarrow> l \<le> now) \<and> r' = claimed now wid d r)"
proof -
  show "\<forall>i. row' i = row i \<or> (\<exists>r. row i = Some r \<and> op_state r \<in> set states \<and> row' i = Some (claimed now wid d r))"
    using sel by (auto simp: new split: option.split dest: dict_get_mem)
  have "map operation_id out = map fst qs"
    using sel assms(3) by (auto simp: out claimed_def)
  then show "distinct (map operation_id out)" using assms(4) by simp
  show "\<forall>r' \<in> set out. row' (operation_id r') = Some r' \<and> (\<exists>r. row (operation_id r') = Some r \<and> op_state r \<in> set states \<and>
      (\<forall>l. lease_expires_at r = Some l \<longrightarrow> l \<le> now) \<and> r' = claimed now wid d r)"
  proof
    fix r' assume "r' \<in> set out"
    then obtain k r where kr: "(k, r) \<in> set sel" "r' = claimed now wid d r" using assms(3) by (auto simp: out)
    then have "dict_get sel k = Some r" using assms(2) by simp
    then show "row' (operation_id r') = Some r' \<and> (\<exists>r. row (operation_id r') = Some r \<and> op_state r \<in> set states \<and>
        (\<forall>l. lease_expires_at r = Some l \<longrightarrow> l \<le> now) \<and> r' = claimed now wid d r)"
      using sel [OF kr(1)] kr(2) by (auto simp: new claimed_def)
  qed
qed

section \<open>The contract\<close>

locale fenced_store =
  fixes good :: "'s \<Rightarrow> bool"
    and row :: "'s \<Rightarrow> uuid \<Rightarrow> operation option"
    and log_of :: "'s \<Rightarrow> event list"
    and s_insert :: "time \<Rightarrow> time \<Rightarrow> 's \<Rightarrow> operation \<Rightarrow> (exn + operation \<times> bool) \<times> 's"
    and s_claim :: "'e \<Rightarrow> time \<Rightarrow> 's \<Rightarrow> op_state list \<Rightarrow> int \<Rightarrow> string \<Rightarrow> duration \<Rightarrow>
          (exn + operation list) \<times> 's"
    and s_cas :: "time \<Rightarrow> time \<Rightarrow> 's \<Rightarrow> uuid \<Rightarrow> int \<Rightarrow> op_state \<Rightarrow> op_state \<Rightarrow> field_set list \<Rightarrow>
          (string, pyval) dict \<Rightarrow> duration option \<Rightarrow> string option \<Rightarrow> (exn + operation option) \<times> 's"
    and s_release :: "time \<Rightarrow> 's \<Rightarrow> uuid \<Rightarrow> int \<Rightarrow> 's"
  assumes row_id: "good s \<Longrightarrow> row s i = Some r \<Longrightarrow> operation_id r = i"
    and insert_law: "good s \<Longrightarrow> s_insert now at s op = (ans, s') \<Longrightarrow>
          good s' \<and> (\<exists>es. log_of s' = log_of s @ es) \<and>
          (case ans of
             Inl e \<Rightarrow> row s' = row s
           | Inr (r, created) \<Rightarrow>
               row s' (operation_id op) = Some r \<and> created = (row s (operation_id op) = None) \<and>
               (created \<longrightarrow> intake_part r = intake_part (stamped now op) \<and> op_state r = op_state op) \<and>
               (\<forall>i. row s i \<noteq> None \<or> i \<noteq> operation_id op \<longrightarrow> row s' i = row s i))"
    and claim_law: "good s \<Longrightarrow> set states \<subseteq> set CLAIMABLE \<Longrightarrow>
          s_claim env now s states limit wid d = (claims, s') \<Longrightarrow>
          good s' \<and> log_of s' = log_of s \<and>
          (\<forall>i. row s' i = row s i \<or> (\<exists>r. row s i = Some r \<and> op_state r \<in> set states \<and>
             row s' i = Some (claimed now wid d r))) \<and>
          (\<forall>out. claims = Inr out \<longrightarrow> distinct (map operation_id out) \<and>
             (\<forall>r' \<in> set out. row s' (operation_id r') = Some r' \<and>
               (\<exists>r. row s (operation_id r') = Some r \<and> op_state r \<in> set states \<and>
                 (\<forall>l. lease_expires_at r = Some l \<longrightarrow> l \<le> now) \<and> r' = claimed now wid d r)))"
    and cas_law: "good s \<Longrightarrow>
          s_cas now at s i tok from to sets detail renew who = (res, s') \<Longrightarrow>
          good s' \<and>
          ((\<forall>r'. res \<noteq> Inr (Some r')) \<and> row s' = row s \<and> log_of s' = log_of s \<or>
           (\<exists>r. row s i = Some r \<and> fencing_token r = tok \<and> op_state r = from \<and>
              from \<notin> set TERMINAL \<and> can_transition from to \<and> mutable_sets sets \<and>
              res = Inr (Some (written now to sets renew r)) \<and>
              row s' = (row s)(i \<mapsto> written now to sets renew r) \<and>
              (\<exists>e. log_of s' = log_of s @ [e] \<and> ev_operation_id e = i \<and>
                 ev_from_state e = Some from \<and> ev_to_state e = to \<and> ev_detail e = detail)))"
    and release_law: "good s \<Longrightarrow> s' = s_release now s i tok \<Longrightarrow>
          good s' \<and> log_of s' = log_of s \<and>
          (row s' = row s \<or> (\<exists>r. row s i = Some r \<and> fencing_token r = tok \<and>
             row s' = (row s)(i \<mapsto> released now r)))"
begin

text \<open>Any call by anybody.\<close>

inductive call :: "'s \<Rightarrow> 's \<Rightarrow> bool" where
  call_insert: "s_insert now at s op = (res, s') \<Longrightarrow> call s s'"
| call_claim: "set states \<subseteq> set CLAIMABLE \<Longrightarrow>
    s_claim env now s states limit wid d = (res, s') \<Longrightarrow> call s s'"
| call_cas: "s_cas now at s i tok from to sets detail renew who = (res, s') \<Longrightarrow> call s s'"
| call_release: "call s (s_release now s i tok)"

lemma call_good: "call s s' \<Longrightarrow> good s \<Longrightarrow> good s'"
proof (induction rule: call.induct)
  case (call_insert now at s op res s')
  then show ?case using insert_law by blast
qed (auto dest: claim_law cas_law release_law)

lemma call_evolves:
  assumes "call s s'" "good s" "row s i = Some r"
  shows "\<exists>r'. row s' i = Some r' \<and> row_evolves r r'"
  using assms
proof (induction rule: call.induct)
  case (call_insert now at s op res s')
  show ?case
    using insert_law [OF call_insert.prems(1) call_insert.hyps] call_insert.prems(2)
    by (cases res) auto
next
  case (call_claim states env now s limit wid d res s')
  have "row s' i = row s i \<or> (\<exists>r. row s i = Some r \<and> op_state r \<in> set states \<and>
      row s' i = Some (claimed now wid d r))"
    using claim_law [OF call_claim.prems(1) call_claim.hyps] by blast
  then show ?case
    using call_claim.prems(2) call_claim.hyps(1) by (auto intro!: claimed_evolves)
next
  case (call_cas now at s j tok src dst sets detail renew who res s')
  show ?case
    using cas_law [OF call_cas.prems(1) call_cas.hyps] call_cas.prems(2)
    by (auto intro!: written_evolves)
next
  case (call_release s now j tok)
  show ?case
    using release_law [OF call_release.prems(1) refl, of now j tok] call_release.prems(2)
    by (auto simp: fun_upd_def)
qed

lemma run_evolves:
  assumes "call\<^sup>*\<^sup>* s s'" "good s" "row s i = Some r"
  shows "good s' \<and> (\<exists>r'. row s' i = Some r' \<and> row_evolves r r')"
  using assms
  by (induction rule: rtranclp_induct) (blast intro: call_good row_evolves_refl row_evolves_trans
      dest: call_evolves)+

text \<open>A token that was overtaken never writes again.\<close>

lemma stale_token_writes_nothing:
  assumes "good s" "row s i = Some r" "tok < fencing_token r" "call\<^sup>*\<^sup>* s s'"
    and "s_cas now at s' i tok from to sets detail renew who = (res, s'')"
  shows "row s'' = row s' \<and> log_of s'' = log_of s' \<and> (\<forall>r'. res \<noteq> Inr (Some r'))"
proof -
  obtain r' where "good s'" "row s' i = Some r'" "tok < fencing_token r'"
    using run_evolves [OF assms(4,1,2)] assms(3) by (auto simp: row_evolves_def)
  then show ?thesis
    using cas_law [OF _ assms(5)] by auto
qed

lemma stale_token_releases_nothing:
  assumes "good s" "row s i = Some r" "tok < fencing_token r" "call\<^sup>*\<^sup>* s s'"
  shows "row (s_release now s' i tok) = row s'"
proof -
  obtain r' where "good s'" "row s' i = Some r'" "tok < fencing_token r'"
    using run_evolves [OF assms(4,1,2)] assms(3) by (auto simp: row_evolves_def)
  then show ?thesis
    using release_law [of s', OF _ refl, of now i tok] by auto
qed

text \<open>The log only grows.\<close>

lemma call_log: "call s s' \<Longrightarrow> good s \<Longrightarrow> \<exists>es. log_of s' = log_of s @ es"
proof (induction rule: call.induct)
  case (call_insert now at s op res s')
  then show ?case using insert_law by blast
next
  case (call_claim states env now s limit wid d res s')
  then show ?case using claim_law by (metis append_Nil2)
next
  case (call_cas now at s j tok src dst sets detail renew who res s')
  then show ?case using cas_law [OF call_cas.prems call_cas.hyps] by auto
next
  case (call_release s now j tok)
  then show ?case using release_law [OF _ refl, of s now j tok] by auto
qed

lemma run_log: "call\<^sup>*\<^sup>* s s' \<Longrightarrow> good s \<Longrightarrow> good s' \<and> (\<exists>es. log_of s' = log_of s @ es)"
proof (induction rule: rtranclp_induct)
  case (step y z)
  then obtain es where es: "good y" "log_of y = log_of s @ es" by blast
  with call_log [OF step.hyps(2)] obtain fs where "log_of z = log_of y @ fs" by blast
  with es show ?case using call_good [OF step.hyps(2)] by simp
qed simp

text \<open>Two claims of one row carry different tokens.\<close>

lemma claims_differ:
  assumes "good s" "s_claim env now s states limit wid d = (Inr out, s')" "set states \<subseteq> set CLAIMABLE"
    and "call\<^sup>*\<^sup>* s' t" "set states' \<subseteq> set CLAIMABLE"
    and "s_claim env' now' t states' limit' wid' d' = (Inr out', t')"
    and "r \<in> set out" "r' \<in> set out'" "operation_id r' = operation_id r"
  shows "fencing_token r < fencing_token r'"
proof -
  have s': "good s'" "row s' (operation_id r) = Some r"
    using claim_law [OF assms(1,3,2)] assms(7) by blast+
  then obtain q where q: "good t" "row t (operation_id r) = Some q" "row_evolves r q"
    using run_evolves [OF assms(4)] by blast
  have "\<exists>r0. row t (operation_id r') = Some r0 \<and> r' = claimed now' wid' d' r0"
    using claim_law [OF q(1) assms(5,6)] assms(8) by blast
  then show ?thesis
    using q assms(9) by (auto simp: row_evolves_def)
qed

end

end
