(* ===== verification/Memory_Store.thy ===== *)
theory Memory_Store
  imports Store_Interface "HOL-Library.Multiset"
begin

text \<open>
  \<open>sluice/store/memory.py\<close>: the in-memory store.  Every method runs under one lock, so each is one
  function of the store and of the clock values it reads: \<open>now\<close> for the row and, where the method
  appends an event, \<open>at\<close> for the event (two readings of the same clock).  Rows are copied in and
  out (\<open>copy.deepcopy\<close>), so a value of type \<open>operation\<close> is a snapshot.
\<close>

section \<open>Definitions\<close>

record mstore =
  ms_ops :: "(uuid, operation) dict"
  ms_events :: "event list"
  ms_order :: int
  ms_arrival :: "(uuid, int) dict"
  ms_event_seq :: int

definition new_store :: mstore where
  "new_store = \<lparr> ms_ops = [], ms_events = [], ms_order = 0, ms_arrival = [], ms_event_seq = 1 \<rparr>"

definition append_event :: "time \<Rightarrow> mstore \<Rightarrow> operation \<Rightarrow> op_state option \<Rightarrow> op_state \<Rightarrow>
    string option \<Rightarrow> int \<Rightarrow> (string, pyval) dict \<Rightarrow> mstore" where
  "append_event at ms op from_state to_state wid tok detail =
     ms\<lparr>ms_events := ms_events ms @
          [\<lparr> ev_operation_id = operation_id op, ev_from_state = from_state, ev_to_state = to_state,
             ev_worker_id = wid, ev_fencing_token = tok, ev_detail = detail, ev_at = Some at,
             ev_seq = ms_event_seq ms \<rparr>],
        ms_event_seq := ms_event_seq ms + 1\<rparr>"

definition insert_new :: "time \<Rightarrow> time \<Rightarrow> mstore \<Rightarrow> operation \<Rightarrow> (operation \<times> bool) \<times> mstore" where
  "insert_new now at ms op =
     (case dict_get (ms_ops ms) (operation_id op) of
        Some existing \<Rightarrow> ((existing, False), ms)
      | None \<Rightarrow>
          (let r = op\<lparr>created_at := Some now, updated_at := Some now\<rparr>;
               ms1 = ms\<lparr>ms_ops := dict_set (ms_ops ms) (operation_id op) r\<rparr>;
               ms2 = ms1\<lparr>ms_arrival := dict_set (ms_arrival ms1) (operation_id op) (ms_order ms1),
                         ms_order := ms_order ms1 + 1\<rparr>;
               ms3 = append_event at ms2 r None (op_state r) None 0 [(''intake'', PBool True)]
           in ((r, True), ms3)))"

definition get :: "mstore \<Rightarrow> uuid \<Rightarrow> operation option" where
  "get ms oid = dict_get (ms_ops ms) oid"

text \<open>The sorted candidates: the key function of \<open>sorted\<close> raises when a row has no arrival.\<close>

definition candidates :: "mstore \<Rightarrow> op_state list \<Rightarrow> exn + (uuid \<times> operation) list" where
  "candidates ms wanted =
     (let c = filter (\<lambda>(k, op). op_state op \<in> set wanted) (ms_ops ms) in
      if list_all (\<lambda>(k, op). dict_get (ms_arrival ms) (operation_id op) \<noteq> None) c
      then Inr (sort_key (\<lambda>(k, op). the (dict_get (ms_arrival ms) (operation_id op))) c)
      else Inl (KeyError ''arrival''))"

fun claim_loop :: "time \<Rightarrow> int \<Rightarrow> string \<Rightarrow> duration \<Rightarrow> (uuid \<times> operation) list \<Rightarrow>
    (uuid, operation) dict \<Rightarrow> operation list \<Rightarrow> operation list \<times> (uuid, operation) dict" where
  "claim_loop now limit wid lease [] ops out = (out, ops)"
| "claim_loop now limit wid lease ((k, op) # cs) ops out =
     (if int (length out) \<ge> limit then (out, ops)
      else if (case lease_expires_at op of None \<Rightarrow> False | Some l \<Rightarrow> l > now)
        then claim_loop now limit wid lease cs ops out
      else
        (let op' = op\<lparr>claimed_by := Some wid, lease_expires_at := Some (now + lease),
                     fencing_token := fencing_token op + 1, updated_at := Some now\<rparr>
         in claim_loop now limit wid lease cs (dict_set ops k op') (out @ [op'])))"

definition claim :: "time \<Rightarrow> mstore \<Rightarrow> op_state list \<Rightarrow> int \<Rightarrow> string \<Rightarrow> duration \<Rightarrow>
    (exn + operation list) \<times> mstore" where
  "claim now ms states limit wid lease =
     (case candidates ms states of
        Inl e \<Rightarrow> (Inl e, ms)
      | Inr cs \<Rightarrow>
          (let (out, ops) = claim_loop now limit wid lease cs (ms_ops ms) []
           in (Inr out, ms\<lparr>ms_ops := ops\<rparr>)))"

definition cas :: "time \<Rightarrow> time \<Rightarrow> mstore \<Rightarrow> uuid \<Rightarrow> int \<Rightarrow> op_state \<Rightarrow> op_state \<Rightarrow> field_set list \<Rightarrow>
    (string, pyval) dict \<Rightarrow> duration option \<Rightarrow> string option \<Rightarrow> (exn + operation option) \<times> mstore" where
  "cas now at ms oid tok from_state to_state sets detail renew wid =
     (if \<not> list_all (\<lambda>f. field_name f \<in> set MUTABLE_FIELDS) sets then (Inl ValueError, ms)
      else if \<not> can_transition from_state to_state
        then (Inl (IllegalTransition from_state to_state), ms)
      else case dict_get (ms_ops ms) oid of
        None \<Rightarrow> (Inr None, ms)
      | Some op \<Rightarrow>
          if fencing_token op \<noteq> tok \<or> op_state op \<noteq> from_state then (Inr None, ms)
          else if op_state op \<in> set TERMINAL then (Inr None, ms)
          else
            (let op1 = fold apply_set sets op;
                 op2 = op1\<lparr>op_state := to_state, updated_at := Some now\<rparr>;
                 op3 = (case renew of None \<Rightarrow> op2
                        | Some d \<Rightarrow> op2\<lparr>lease_expires_at := Some (now + d)\<rparr>);
                 op4 = (if to_state \<in> set TERMINAL
                        then op3\<lparr>claimed_by := None, lease_expires_at := None\<rparr> else op3);
                 ms1 = ms\<lparr>ms_ops := dict_set (ms_ops ms) oid op4\<rparr>;
                 ms2 = append_event at ms1 op4 (Some from_state) to_state wid tok detail
             in (Inr (Some op4), ms2)))"

definition release :: "time \<Rightarrow> mstore \<Rightarrow> uuid \<Rightarrow> int \<Rightarrow> mstore" where
  "release now ms oid tok =
     (case dict_get (ms_ops ms) oid of
        None \<Rightarrow> ms
      | Some op \<Rightarrow>
          if fencing_token op \<noteq> tok then ms
          else ms\<lparr>ms_ops := dict_set (ms_ops ms) oid
                 (op\<lparr>claimed_by := None, lease_expires_at := None, updated_at := Some now\<rparr>)\<rparr>)"

definition events :: "mstore \<Rightarrow> uuid \<Rightarrow> event list" where
  "events ms oid = filter (\<lambda>e. ev_operation_id e = oid) (ms_events ms)"

definition all_txids :: "mstore \<Rightarrow> uuid \<Rightarrow> pyval set" where
  "all_txids ms oid =
     set (List.map_filter
       (\<lambda>e. if ev_operation_id e = oid then dict_get (ev_detail e) ''txid'' else None) (ms_events ms))"

definition all_operations :: "mstore \<Rightarrow> operation list" where
  "all_operations ms = map snd (ms_ops ms)"

section \<open>The invariant\<close>

text \<open>
  Rows are filed once, under their own id, and every filed row has an arrival number.
\<close>

definition store_wf :: "mstore \<Rightarrow> bool" where
  "store_wf ms \<longleftrightarrow> distinct (map fst (ms_ops ms)) \<and>
     (\<forall>(k, r) \<in> set (ms_ops ms). operation_id r = k \<and> dict_get (ms_arrival ms) k \<noteq> None)"

text \<open>Any call by anybody, at any clock readings.\<close>

inductive store_step :: "mstore \<Rightarrow> mstore \<Rightarrow> bool" where
  st_insert: "insert_new now at ms op = (res, ms') \<Longrightarrow> store_step ms ms'"
| st_claim: "set states \<subseteq> set CLAIMABLE \<Longrightarrow> claim now ms states limit wid d = (res, ms') \<Longrightarrow>
    store_step ms ms'"
| st_cas: "cas now at ms oid tok src dst sets detail renew wid = (res, ms') \<Longrightarrow> store_step ms ms'"
| st_release: "store_step ms (release now ms oid tok)"

text \<open>The events of a row form one chain: intake opens it, each event starts where the previous one
  ended along a legal transition, and the last one ends in the row's state.\<close>

fun chained :: "op_state option \<Rightarrow> event list \<Rightarrow> op_state option \<Rightarrow> bool" where
  "chained st [] fin \<longleftrightarrow> st = fin"
| "chained st (e # es) fin \<longleftrightarrow> ev_from_state e = st \<and>
     (case st of None \<Rightarrow> True | Some s \<Rightarrow> can_transition s (ev_to_state e) \<and> s \<notin> set TERMINAL) \<and>
     chained (Some (ev_to_state e)) es fin"

definition log_chained :: "mstore \<Rightarrow> bool" where
  "log_chained ms \<longleftrightarrow> (\<forall>i. chained None (events ms i) (map_option op_state (get ms i)))"

definition log_numbered :: "mstore \<Rightarrow> bool" where
  "log_numbered ms \<longleftrightarrow> map ev_seq (ms_events ms) = [1..int (length (ms_events ms))] \<and>
     ms_event_seq ms = int (length (ms_events ms)) + 1"

section \<open>Lemmas\<close>

lemma store_wf_row: "store_wf ms \<Longrightarrow> get ms i = Some r \<Longrightarrow> operation_id r = i"
  unfolding store_wf_def get_def by (auto dest: dict_get_mem)

lemma store_wf_arrival:
  "store_wf ms \<Longrightarrow> get ms i = Some r \<Longrightarrow> dict_get (ms_arrival ms) i \<noteq> None"
  unfolding store_wf_def get_def by (auto dest!: dict_get_mem)

lemma store_wf_get: 
  "store_wf ms \<longleftrightarrow> distinct (map fst (ms_ops ms)) \<and>
     (\<forall>k r. get ms k = Some r \<longrightarrow> operation_id r = k \<and> dict_get (ms_arrival ms) k \<noteq> None)"
  unfolding store_wf_def get_def by (auto simp flip: dict_get_distinct)

lemma append_event_simps [simp]:
  "ms_ops (append_event at ms op f t w k d) = ms_ops ms"
  "ms_arrival (append_event at ms op f t w k d) = ms_arrival ms"
  "ms_order (append_event at ms op f t w k d) = ms_order ms"
  by (simp_all add: append_event_def)

lemma append_event_log:
  "\<exists>e. ms_events (append_event at ms op f t w k d) = ms_events ms @ [e] \<and>
     ev_operation_id e = operation_id op \<and> ev_from_state e = f \<and> ev_to_state e = t \<and> ev_detail e = d"
  by (simp add: append_event_def)

text \<open>The write path in one line: refuse and change nothing, or write the row and log it.\<close>

lemma cas_cases:
  assumes "cas now at ms i tok src dst sets detail renew who = (res, ms')"
  obtains (refused) "ms' = ms" "\<forall>r'. res \<noteq> Inr (Some r')"
  | (wrote) r where "get ms i = Some r" "fencing_token r = tok" "op_state r = src"
      "src \<notin> set TERMINAL" "can_transition src dst" "mutable_sets sets"
      "res = Inr (Some (written now dst sets renew r))"
      "ms' = append_event at (ms\<lparr>ms_ops := dict_set (ms_ops ms) i (written now dst sets renew r)\<rparr>)
          (written now dst sets renew r) (Some src) dst who tok detail"
proof -
  show thesis
  proof (cases "ms' = ms \<and> (\<forall>r'. res \<noteq> Inr (Some r'))")
    case False
    then have ok: "list_all (\<lambda>f. field_name f \<in> set MUTABLE_FIELDS) sets" "can_transition src dst"
      using assms by (auto simp: cas_def split: if_splits)
    then obtain r where r: "dict_get (ms_ops ms) i = Some r"
      using assms False by (auto simp: cas_def split: option.splits)
    with assms False ok have g: "fencing_token r = tok" "op_state r = src" "src \<notin> set TERMINAL"
      by (auto simp: cas_def split: if_splits)
    have "(res, ms') = (Inr (Some (written now dst sets renew r)),
      append_event at (ms\<lparr>ms_ops := dict_set (ms_ops ms) i (written now dst sets renew r)\<rparr>)
          (written now dst sets renew r) (Some src) dst who tok detail)"
      using assms ok r g by (simp add: cas_def written_def Let_def)
    then show thesis
      using ok r g by (intro wrote) (auto simp: get_def mutable_sets_def)
  qed (use refused in blast)
qed

lemma release_cases:
  obtains "release now ms i tok = ms"
  | r where "get ms i = Some r" "fencing_token r = tok"
      "release now ms i tok = ms\<lparr>ms_ops := dict_set (ms_ops ms) i (released now r)\<rparr>"
proof (cases "get ms i")
  case (Some r)
  then show thesis
    using that by (cases "fencing_token r = tok") (auto simp: release_def get_def released_def)
qed (use that in \<open>simp add: release_def get_def\<close>)

text \<open>The claim loop takes the first free candidates, up to the limit.\<close>

definition lease_free :: "time \<Rightarrow> operation \<Rightarrow> bool" where
  "lease_free now op = (case lease_expires_at op of None \<Rightarrow> True | Some l \<Rightarrow> l \<le> now)"

definition claim_selection :: "time \<Rightarrow> int \<Rightarrow> (uuid \<times> operation) list \<Rightarrow> (uuid \<times> operation) list" where
  "claim_selection now limit cs = take (nat limit) (filter (\<lambda>(k, op). lease_free now op) cs)"

lemma claim_loop_spec:
  "claim_loop now limit wid d cs ops out =
     (let sel = claim_selection now (limit - int (length out)) cs in
      (out @ map (\<lambda>(k, op). claimed now wid d op) sel,
       fold (\<lambda>(k, op) o'. dict_set o' k (claimed now wid d op)) sel ops))"
proof (induction cs arbitrary: ops out)
  case (Cons x cs)
  obtain k op where x: "x = (k, op)" by (cases x)
  have n: "nat (limit - int (length out)) = Suc (nat (limit - int (length out) - 1))"
    if "int (length out) < limit"
    using that by simp
  show ?case
    using Cons.IH [of ops out] Cons.IH [of "dict_set ops k (claimed now wid d op)"
        "out @ [claimed now wid d op]"]
    by (auto simp: x claim_selection_def Let_def lease_free_def n claimed_def algebra_simps
        split: option.splits)
qed (simp add: claim_selection_def)

lemma fold_dict_set_get:
  "distinct (map fst sel) \<Longrightarrow>
     dict_get (fold (\<lambda>(k, v) d. dict_set d k (f v)) sel ops) i =
       (case dict_get sel i of None \<Rightarrow> dict_get ops i | Some v \<Rightarrow> Some (f v))"
proof (induction sel arbitrary: ops)
  case (Cons x sel)
  obtain k v where x: "x = (k, v)" by (cases x)
  have "i = k \<Longrightarrow> dict_get sel i = None"
    using Cons.prems by (simp add: x map_of_eq_None_iff)
  then show ?case
    using Cons.IH [of "dict_set ops k (f v)"] Cons.prems by (auto simp: x split: option.split)
qed simp

lemma fold_dict_set_distinct:
  "distinct (map fst ops) \<Longrightarrow> distinct (map fst (fold (\<lambda>(k, v) d. dict_set d k (f v)) sel ops))"
  by (induction sel arbitrary: ops) (auto simp: dict_set_distinct)

lemma claim_selection_sub:
  "set (claim_selection now limit cs) \<subseteq> set cs"
  "(k, r) \<in> set (claim_selection now limit cs) \<Longrightarrow> lease_free now r"
  by (auto simp: claim_selection_def dest: in_set_takeD)

lemma claim_selection_distinct:
  "distinct (map fst cs) \<Longrightarrow> distinct (map fst (claim_selection now limit cs))"
  by (simp add: claim_selection_def distinct_map_filter flip: take_map)

lemma candidates_set:
  assumes "candidates ms states = Inr cs"
  shows "mset cs = mset (filter (\<lambda>(k, op). op_state op \<in> set states) (ms_ops ms))"
  using assms by (auto simp: candidates_def Let_def split: if_splits)

lemma candidates_total: "store_wf ms \<Longrightarrow> \<exists>cs. candidates ms states = Inr cs"
  unfolding store_wf_def candidates_def by (auto simp: list_all_iff Let_def)

lemma candidates_distinct:
  assumes "candidates ms states = Inr cs" "store_wf ms"
  shows "distinct (map fst cs)"
proof -
  have "mset (map fst cs) =
      mset (map fst (filter (\<lambda>(k, op). op_state op \<in> set states) (ms_ops ms)))"
    using candidates_set [OF assms(1)] by (simp only: mset_map)
  moreover have "distinct (map fst (filter (\<lambda>(k, op). op_state op \<in> set states) (ms_ops ms)))"
    using assms(2) by (simp add: store_wf_def distinct_map_filter)
  ultimately show ?thesis
    by (metis mset_eq_imp_distinct_iff)
qed

lemma candidates_sorted:
  assumes "store_wf ms" "candidates ms states = Inr cs"
  shows "sorted (map (\<lambda>(k, op). the (dict_get (ms_arrival ms) k)) cs)"
proof -
  have "(case x of (k, op) \<Rightarrow> the (dict_get (ms_arrival ms) k)) =
      (case x of (k, op) \<Rightarrow> the (dict_get (ms_arrival ms) (operation_id op)))" if "x \<in> set cs" for x
  proof -
    have "x \<in> set (ms_ops ms)"
      using that candidates_set [OF assms(2)] by (metis filter_is_subset mset_eq_setD subsetD)
    then show ?thesis using assms(1) by (auto simp: store_wf_def)
  qed
  then have "map (\<lambda>(k, op). the (dict_get (ms_arrival ms) k)) cs =
      map (\<lambda>(k, op). the (dict_get (ms_arrival ms) (operation_id op))) cs"
    by (intro map_cong) auto
  moreover have "sorted (map (\<lambda>(k, op). the (dict_get (ms_arrival ms) (operation_id op))) cs)"
    using assms(2) by (auto simp: candidates_def Let_def split: if_splits)
  ultimately show ?thesis by metis
qed

text \<open>What a claim returns and what it leaves behind.\<close>

lemma claim_effect:
  assumes wf: "store_wf ms" and cl: "claim now ms states limit wid d = (res, ms')"
  obtains sel where "res = Inr (map (\<lambda>(k, op). claimed now wid d op) sel)"
    "distinct (map fst sel)"
    "\<And>k r. (k, r) \<in> set sel \<Longrightarrow> get ms k = Some r \<and> op_state r \<in> set states \<and> lease_free now r"
    "\<And>i. get ms' i = (case dict_get sel i of None \<Rightarrow> get ms i | Some r \<Rightarrow> Some (claimed now wid d r))"
    "\<exists>ops. ms' = ms\<lparr>ms_ops := ops\<rparr> \<and> distinct (map fst ops)"
proof -
  obtain cs where cs: "candidates ms states = Inr cs"
    using candidates_total [OF wf] by blast
  define sel where "sel = claim_selection now limit cs"
  have d: "distinct (map fst sel)"
    unfolding sel_def using candidates_distinct [OF cs wf] by (rule claim_selection_distinct)
  have mem: "get ms k = Some r \<and> op_state r \<in> set states \<and> lease_free now r"
    if "(k, r) \<in> set sel" for k r
  proof -
    have "(k, r) \<in> set cs" "lease_free now r"
      using that claim_selection_sub unfolding sel_def by blast+
    moreover have "set cs = set (filter (\<lambda>(k, op). op_state op \<in> set states) (ms_ops ms))"
      using candidates_set [OF cs] by (metis set_mset_mset)
    ultimately show ?thesis
      using wf by (auto simp: get_def store_wf_def)
  qed
  have eq: "(res, ms') = (Inr (map (\<lambda>(k, op). claimed now wid d op) sel),
     ms\<lparr>ms_ops := fold (\<lambda>(k, op) o'. dict_set o' k (claimed now wid d op)) sel (ms_ops ms)\<rparr>)"
    using cl cs by (simp add: claim_def claim_loop_spec Let_def sel_def)
  have g: "get ms' i = (case dict_get sel i of None \<Rightarrow> get ms i | Some r \<Rightarrow> Some (claimed now wid d r))"
    for i
    using eq fold_dict_set_get [OF d, where f = "claimed now wid d" and ops = "ms_ops ms"]
    unfolding get_def by simp
  have "distinct (map fst (fold (\<lambda>(k, op) o'. dict_set o' k (claimed now wid d op)) sel (ms_ops ms)))"
    using wf by (intro fold_dict_set_distinct) (simp add: store_wf_def)
  with eq have "\<exists>ops. ms' = ms\<lparr>ms_ops := ops\<rparr> \<and> distinct (map fst ops)" by blast
  with eq show thesis using d mem g by (intro that) auto
qed

lemma store_wf_new: "store_wf new_store"
  by (simp add: store_wf_def new_store_def)

lemma get_dict_set [simp]:
  "get (ms\<lparr>ms_ops := dict_set (ms_ops ms) i r\<rparr>) = (get ms)(i \<mapsto> r)"
  by (rule ext) (simp add: get_def)

lemma get_append_event [simp]: "get (append_event at ms op f t w k d) = get ms"
  by (rule ext) (simp add: get_def)

lemma store_wf_dict_set:
  assumes "store_wf ms" "get ms i = Some r" "operation_id r' = i"
  shows "store_wf (ms\<lparr>ms_ops := dict_set (ms_ops ms) i r'\<rparr>)"
  using assms unfolding store_wf_get by (auto simp: dict_set_distinct)

lemma store_wf_append_event [simp]: "store_wf (append_event at ms op f t w k d) = store_wf ms"
  by (simp add: store_wf_get)

lemma insert_new_effect:
  assumes "store_wf ms" "insert_new now at ms op = ((r, created), ms')"
  shows "store_wf ms'" "created = (get ms (operation_id op) = None)"
    "get ms' (operation_id op) = Some r" "created \<Longrightarrow> r = stamped now op"
    "get ms i \<noteq> None \<or> i \<noteq> operation_id op \<Longrightarrow> get ms' i = get ms i"
    "\<exists>es. ms_events ms' = ms_events ms @ es"
proof -
  show "store_wf ms'"
    using assms unfolding store_wf_get
    by (auto simp: insert_new_def get_def Let_def dict_set_distinct split: option.splits if_splits)
  show "created = (get ms (operation_id op) = None)" "created \<Longrightarrow> r = stamped now op"
    "get ms' (operation_id op) = Some r"
    "get ms i \<noteq> None \<or> i \<noteq> operation_id op \<Longrightarrow> get ms' i = get ms i"
    using assms(2) by (auto simp: insert_new_def get_def stamped_def Let_def split: option.splits)
  show "\<exists>es. ms_events ms' = ms_events ms @ es"
    using assms(2) by (auto simp: insert_new_def append_event_def Let_def split: option.splits)
qed

lemma cas_wf:
  assumes "store_wf ms" "cas now at ms i tok src dst sets detail renew who = (res, ms')"
  shows "store_wf ms'"
  using assms(2)
proof (cases rule: cas_cases)
  case (wrote r)
  have "operation_id (written now dst sets renew r) = i"
    using written_keeps(1) [OF wrote(6), of now dst renew r] store_wf_row [OF assms(1) wrote(1)]
    by (simp add: intake_part_def)
  then show ?thesis
    using store_wf_dict_set [OF assms(1) wrote(1)] wrote(8) by simp
qed (use assms(1) in simp)

lemma claim_wf:
  assumes "store_wf ms" "claim now ms states limit wid d = (res, ms')"
  shows "store_wf ms'"
proof -
  obtain sel ops where sel: "ms' = ms\<lparr>ms_ops := ops\<rparr>" "distinct (map fst ops)"
    "\<And>k r. (k, r) \<in> set sel \<Longrightarrow> get ms k = Some r"
    "\<And>i. get ms' i = (case dict_get sel i of None \<Rightarrow> get ms i | Some r \<Rightarrow> Some (claimed now wid d r))"
    using claim_effect [OF assms] by metis
  have "operation_id r = k \<and> dict_get (ms_arrival ms') k \<noteq> None" if g: "get ms' k = Some r" for k r
  proof -
    have "\<exists>r0. get ms k = Some r0 \<and> operation_id r = operation_id r0"
      using sel(3) [of k] sel(4) [of k] g by (cases "dict_get sel k") (force dest: dict_get_mem)+
    then show ?thesis
      using store_wf_row [OF assms(1)] store_wf_arrival [OF assms(1)] sel(1) by auto
  qed
  then show ?thesis
    using sel(1,2) by (simp add: store_wf_get)
qed

lemma release_wf: "store_wf ms \<Longrightarrow> store_wf (release now ms i tok)"
  by (rule release_cases [of now ms i tok])
     (auto intro!: store_wf_dict_set dest: store_wf_row)

section \<open>The laws of the contract\<close>

lemma mem_insert_law:
  fixes res :: "exn + operation \<times> bool"
  assumes "store_wf s" "apfst Inr (insert_new now at s op) = (res, s')"
  shows "store_wf s' \<and> (\<exists>es. ms_events s' = ms_events s @ es) \<and>
      (case res of
         Inl e \<Rightarrow> get s' = get s
       | Inr (r, created) \<Rightarrow>
           get s' (operation_id op) = Some r \<and> created = (get s (operation_id op) = None) \<and>
           (created \<longrightarrow> intake_part r = intake_part (stamped now op) \<and> op_state r = op_state op) \<and>
           (\<forall>i. get s i \<noteq> None \<or> i \<noteq> operation_id op \<longrightarrow> get s' i = get s i))"
proof -
  obtain r created where i: "insert_new now at s op = ((r, created), s')" and res: "res = Inr (r, created)"
    using assms(2) by (cases "insert_new now at s op") auto
  show ?thesis unfolding res using insert_new_effect [OF assms(1) i] by auto
qed

lemma mem_claim_law:
  assumes wf: "store_wf s" and cl: "claim now s states limit wid d = (claims, s')"
  shows "store_wf s' \<and> ms_events s' = ms_events s \<and>
      (\<forall>i. get s' i = get s i \<or> (\<exists>r. get s i = Some r \<and> op_state r \<in> set states \<and>
         get s' i = Some (claimed now wid d r))) \<and>
      (\<forall>out. claims = Inr out \<longrightarrow> distinct (map operation_id out) \<and>
         (\<forall>r' \<in> set out. get s' (operation_id r') = Some r' \<and>
           (\<exists>r. get s (operation_id r') = Some r \<and> op_state r \<in> set states \<and>
             (\<forall>l. lease_expires_at r = Some l \<longrightarrow> l \<le> now) \<and> r' = claimed now wid d r)))"
proof -
  obtain sel where sel: "claims = Inr (map (\<lambda>(k, op). claimed now wid d op) sel)"
    "distinct (map fst sel)"
    "\<And>k r. (k, r) \<in> set sel \<Longrightarrow> get s k = Some r \<and> op_state r \<in> set states \<and> lease_free now r"
    "\<And>i. get s' i = (case dict_get sel i of None \<Rightarrow> get s i | Some r \<Rightarrow> Some (claimed now wid d r))"
    "\<exists>ops. s' = s\<lparr>ms_ops := ops\<rparr> \<and> distinct (map fst ops)"
    using claim_effect [OF wf cl] by metis
  have rows: "get s k = Some r \<and> operation_id r = k \<and> op_state r \<in> set states \<and>
      (\<forall>l. lease_expires_at r = Some l \<longrightarrow> l \<le> now)" if "(k, r) \<in> set sel" for k r
    using sel(3) [OF that] store_wf_row [OF wf] by (auto simp: lease_free_def)
  have log: "ms_events s' = ms_events s" using sel(5) by auto
  show ?thesis
    using handed_out [OF rows sel(2) refl sel(2,4) refl] claim_wf [OF wf cl] log sel(1) by auto
qed

lemma mem_cas_law:
  assumes wf: "store_wf s" and c: "cas now at s i tok from to sets detail renew who = (res, s')"
  shows "store_wf s' \<and>
      ((\<forall>r'. res \<noteq> Inr (Some r')) \<and> get s' = get s \<and> ms_events s' = ms_events s \<or>
       (\<exists>r. get s i = Some r \<and> fencing_token r = tok \<and> op_state r = from \<and>
          from \<notin> set TERMINAL \<and> can_transition from to \<and> mutable_sets sets \<and>
          res = Inr (Some (written now to sets renew r)) \<and>
          get s' = (get s)(i \<mapsto> written now to sets renew r) \<and>
          (\<exists>e. ms_events s' = ms_events s @ [e] \<and> ev_operation_id e = i \<and>
             ev_from_state e = Some from \<and> ev_to_state e = to \<and> ev_detail e = detail)))"
  using c
proof (cases rule: cas_cases)
  case (wrote r)
  have "operation_id (written now to sets renew r) = i"
    using written_keeps(1) [OF wrote(6), of now to renew r] store_wf_row [OF wf wrote(1)]
    by (simp add: intake_part_def)
  then have "\<exists>e. ms_events s' = ms_events s @ [e] \<and> ev_operation_id e = i \<and>
      ev_from_state e = Some from \<and> ev_to_state e = to \<and> ev_detail e = detail"
    using wrote(8) by (simp add: append_event_def)
  moreover have "get s' = (get s)(i \<mapsto> written now to sets renew r)"
    using wrote(8) by simp
  ultimately show ?thesis
    using cas_wf [OF wf c] wrote(1-7) by blast
qed (use wf in simp)

lemma mem_release_law:
  assumes "store_wf s" "s' = release now s i tok"
  shows "store_wf s' \<and> ms_events s' = ms_events s \<and>
      (get s' = get s \<or> (\<exists>r. get s i = Some r \<and> fencing_token r = tok \<and>
         get s' = (get s)(i \<mapsto> released now r)))"
  using assms release_wf [OF assms(1)] by (auto intro: release_cases [of now s i tok])

interpretation mem: fenced_store store_wf get ms_events
  "\<lambda>now at s op. apfst Inr (insert_new now at s op)" "\<lambda>_ :: unit. claim" cas release
  by unfold_locales
    (rule store_wf_row mem_insert_law mem_claim_law mem_cas_law mem_release_law; assumption)+

lemma store_step_call: "store_step = mem.call"
proof (intro ext iffI)
  show "store_step s s' \<Longrightarrow> mem.call s s'" for s s'
  proof (induction rule: store_step.induct)
    case (st_insert now at ms op res ms')
    then show ?case using mem.call_insert [of now at ms op "Inr res" ms'] by simp
  qed (auto intro: mem.call.intros)
  show "mem.call s s' \<Longrightarrow> store_step s s'" for s s'
  proof (induction rule: mem.call.induct)
    case (call_insert now at s op res s')
    then show ?case by (cases "insert_new now at s op") (auto intro: st_insert)
  qed (auto intro: store_step.intros)
qed

lemma store_run_wf: "store_step\<^sup>*\<^sup>* ms ms' \<Longrightarrow> store_wf ms \<Longrightarrow> store_wf ms'"
  unfolding store_step_call using mem.run_log by blast

lemma store_run_row:
  assumes "store_step\<^sup>*\<^sup>* ms ms'" "store_wf ms" "get ms i = Some r"
  obtains r' where "get ms' i = Some r'" "row_evolves r r'"
  using mem.run_evolves [of ms ms' i r] assms unfolding store_step_call by blast

lemma row_evolves_token: "row_evolves r r' \<Longrightarrow> fencing_token r \<le> fencing_token r'"
  by (simp add: row_evolves_def)

text \<open>The log.\<close>

lemma events_append_event:
  "events (append_event at ms op f t w k d) i = events ms i @
     (if operation_id op = i
      then [\<lparr> ev_operation_id = i, ev_from_state = f, ev_to_state = t, ev_worker_id = w,
              ev_fencing_token = k, ev_detail = d, ev_at = Some at, ev_seq = ms_event_seq ms \<rparr>]
      else [])"
  by (simp add: events_def append_event_def)

lemma events_frame [simp]:
  "events (ms\<lparr>ms_ops := x\<rparr>) i = events ms i"
  "events (ms\<lparr>ms_arrival := y\<rparr>) i = events ms i"
  "events (ms\<lparr>ms_order := z\<rparr>) i = events ms i"
  by (simp_all add: events_def)

lemma chained_append: "chained st (es @ fs) fin \<longleftrightarrow> (\<exists>m. chained st es m \<and> chained m fs fin)"
  by (induction es arbitrary: st) auto

lemma log_chained_insert:
  assumes "log_chained ms" "insert_new now at ms op = (res, ms')"
  shows "log_chained ms'"
proof (cases "get ms (operation_id op)")
  case None
  then have "\<exists>m. chained None (events ms (operation_id op)) m \<and> m = None"
    using assms(1) unfolding log_chained_def by (metis option.map(1))
  with None assms show ?thesis
    by (auto simp: log_chained_def insert_new_def get_def Let_def events_append_event
        chained_append)
qed (use assms in \<open>auto simp: insert_new_def get_def\<close>)

lemma log_chained_cas:
  assumes "log_chained ms" "store_wf ms"
    "cas now at ms i tok src dst sets detail renew who = (res, ms')"
  shows "log_chained ms'"
  using assms(3)
proof (cases rule: cas_cases)
  case (wrote r)
  let ?w = "written now dst sets renew r"
  have id: "operation_id ?w = i"
    using written_keeps(1) [OF wrote(6), of now dst renew r] store_wf_row [OF assms(2) wrote(1)]
    by (simp add: intake_part_def)
  have "chained None (events ms i) (Some src)"
    using assms(1) wrote(1,3) unfolding log_chained_def by (metis option.map(2))
  then have "chained None (events ms' i) (Some dst)"
    using wrote(4,5,8) id by (auto simp: events_append_event chained_append)
  then show ?thesis
    using assms(1) wrote(8) id written_keeps(2) [OF wrote(6)]
    by (auto simp: log_chained_def events_append_event)
qed (use assms(1) in simp)

lemma log_chained_step:
  assumes "store_step ms ms'" "log_chained ms" "store_wf ms"
  shows "log_chained ms'"
  using assms(1)
proof (cases rule: store_step.cases)
  case (st_claim states now limit wid d res)
  obtain sel ops where sel: "ms' = ms\<lparr>ms_ops := ops\<rparr>"
    "\<And>k r. (k, r) \<in> set sel \<Longrightarrow> get ms k = Some r"
    "\<And>i. get ms' i = (case dict_get sel i of None \<Rightarrow> get ms i | Some r \<Rightarrow> Some (claimed now wid d r))"
    using claim_effect [OF assms(3) st_claim(2)] by metis
  have "map_option op_state (get ms' i) = map_option op_state (get ms i)" for i
    using sel(2) [of i] sel(3) [of i] by (cases "dict_get sel i") (auto dest: dict_get_mem)
  then show ?thesis
    using assms(2) sel(1) by (simp add: log_chained_def)
next
  case (st_release now oid tok)
  show ?thesis
    by (rule release_cases [of now ms oid tok])
       (use assms(2) st_release in \<open>auto simp: log_chained_def dest: spec [of _ oid]\<close>)
qed (use assms in \<open>auto intro: log_chained_insert log_chained_cas\<close>)

lemma log_numbered_append_event: "log_numbered ms \<Longrightarrow> log_numbered (append_event at ms op f t w k d)"
  by (simp add: log_numbered_def append_event_def upto_rec2)

lemma log_numbered_frame [simp]:
  "log_numbered (ms\<lparr>ms_ops := x\<rparr>) = log_numbered ms"
  "log_numbered (ms\<lparr>ms_arrival := y\<rparr>) = log_numbered ms"
  "log_numbered (ms\<lparr>ms_order := z\<rparr>) = log_numbered ms"
  by (simp_all add: log_numbered_def)

lemma log_numbered_step:
  assumes "store_step ms ms'" "log_numbered ms" "store_wf ms"
  shows "log_numbered ms'"
  using assms(1)
proof (cases rule: store_step.cases)
  case (st_insert now at op res)
  with assms(2) show ?thesis
    by (auto simp: insert_new_def Let_def split: option.splits intro!: log_numbered_append_event)
next
  case (st_claim states now limit wid d res)
  then show ?thesis using assms(2,3) claim_effect log_numbered_frame(1) by metis
next
  case (st_cas now at oid tok src dst sets detail renew wid res)
  from st_cas show ?thesis
    by (cases rule: cas_cases) (use assms(2) in \<open>auto intro!: log_numbered_append_event\<close>)
next
  case (st_release now oid tok)
  show ?thesis
    by (rule release_cases [of now ms oid tok]) (use assms(2) st_release in auto)
qed

lemma log_run:
  "store_step\<^sup>*\<^sup>* ms ms' \<Longrightarrow> store_wf ms \<Longrightarrow> log_chained ms \<Longrightarrow> log_numbered ms \<Longrightarrow>
     log_chained ms' \<and> log_numbered ms' \<and> store_wf ms'"
proof (induction rule: rtranclp_induct)
  case (step y z)
  then show ?case
    using log_chained_step log_numbered_step store_run_wf [of y z] by blast
qed simp

lemma log_new: "log_chained new_store" "log_numbered new_store"
  by (simp_all add: log_chained_def log_numbered_def new_store_def events_def get_def)

section \<open>A sample store for the concrete instances\<close>

definition sample_op :: operation where
  "sample_op = new_operation 7 [] REQUESTED ''a'' ''USDT'' 5"

definition sample_store :: mstore where
  "sample_store = snd (insert_new 0 0 new_store sample_op)"

definition sample_claim :: "time \<Rightarrow> mstore \<Rightarrow> (exn + operation list) \<times> mstore" where
  "sample_claim now ms = claim now ms CLAIMABLE 10 ''w'' 30"

definition sample_row :: "time \<Rightarrow> int \<Rightarrow> operation" where
  "sample_row now tok = (stamped 0 sample_op)\<lparr>claimed_by := Some ''w'',
     lease_expires_at := Some (now + 30), fencing_token := tok, updated_at := Some now\<rparr>"

lemma sample_store_eval:
  "sample_store = \<lparr> ms_ops = [(7, stamped 0 sample_op)],
     ms_events = [\<lparr> ev_operation_id = 7, ev_from_state = None, ev_to_state = REQUESTED,
       ev_worker_id = None, ev_fencing_token = 0, ev_detail = [(''intake'', PBool True)],
       ev_at = Some 0, ev_seq = 1 \<rparr>],
     ms_order = 1, ms_arrival = [(7, 0)], ms_event_seq = 2 \<rparr>"
  by (simp add: sample_store_def insert_new_def new_store_def sample_op_def new_operation_def
      append_event_def stamped_def Let_def)

lemma sample_insert: "insert_new 0 0 new_store sample_op = ((stamped 0 sample_op, True), sample_store)"
  by (simp add: sample_store_def insert_new_def new_store_def stamped_def Let_def)

lemma sample_wf: "store_wf sample_store"
  using insert_new_effect(1) [OF store_wf_new sample_insert] .

lemmas sample_claim_simps = sample_claim_def claim_def candidates_def sample_row_def sample_op_def
  new_operation_def stamped_def Let_def

lemma sample_claim_first:
  "sample_claim 0 sample_store = (Inr [sample_row 0 1], sample_store\<lparr>ms_ops := [(7, sample_row 0 1)]\<rparr>)"
  by (simp add: sample_store_eval sample_claim_simps)

lemma sample_claim_second:
  "sample_claim 30 (sample_store\<lparr>ms_ops := [(7, sample_row 0 1)]\<rparr>) =
     (Inr [sample_row 30 2], sample_store\<lparr>ms_ops := [(7, sample_row 30 2)]\<rparr>)"
  by (simp add: sample_store_eval sample_claim_simps)

section \<open>Properties\<close>

text \<open>
  C14. Fencing.  A worker claims a row, then anything happens to the store - other claims, writes,
  releases, inserts, at any clock readings.  A worker whose token is older than the one the claim
  handed out changes nothing at all: its \<open>cas\<close> returns no row and leaves the store (rows, event
  log, counters) as it was, and so does its \<open>release\<close>.
\<close>

theorem zombie_write_is_void:
  assumes "store_wf s" "set states \<subseteq> set CLAIMABLE"
    and "claim now s states limit wid d = (Inr out, s1)" "r \<in> set out"
    and "store_step\<^sup>*\<^sup>* s1 s2" "tok < fencing_token r"
    and "cas now' at s2 (operation_id r) tok src dst sets detail renew who = (res, s3)"
  shows "s3 = s2 \<and> (\<forall>r'. res \<noteq> Inr (Some r')) \<and> release now' s2 (operation_id r) tok = s2"
proof -
  have "store_wf s1" "get s1 (operation_id r) = Some r"
    using mem.claim_law [OF assms(1-3)] assms(4) by blast+
  then obtain r2 where "get s2 (operation_id r) = Some r2" "row_evolves r r2"
    by (rule store_run_row [OF assms(5)])
  then have r2: "get s2 (operation_id r) = Some r2" "tok < fencing_token r2"
    using assms(6) row_evolves_token by fastforce+
  have "release now' s2 (operation_id r) tok = s2"
    using r2 by (simp add: release_def get_def)
  moreover have "s3 = s2 \<and> (\<forall>r'. res \<noteq> Inr (Some r'))"
    using assms(7) by (cases rule: cas_cases) (use r2 in auto)
  ultimately show ?thesis by blast
qed

theorem zombie_write_is_void_witness:
  "cas 31 31 (sample_store\<lparr>ms_ops := [(7, sample_row 30 2)]\<rparr>) 7 1 REQUESTED VALIDATED [] [] None None =
     (Inr None, sample_store\<lparr>ms_ops := [(7, sample_row 30 2)]\<rparr>)"
proof -
  let ?s = "sample_store\<lparr>ms_ops := [(7, sample_row 30 2)]\<rparr>"
  obtain res s3 where c: "cas 31 31 ?s 7 1 REQUESTED VALIDATED [] [] None None = (res, s3)"
    by fastforce
  have wf: "store_wf (sample_store\<lparr>ms_ops := [(7, sample_row 0 1)]\<rparr>)"
    using claim_wf [OF sample_wf, of 0 CLAIMABLE 10 "''w''" 30] sample_claim_first
    by (simp add: sample_claim_def)
  have id: "operation_id (sample_row 30 2) = 7" "fencing_token (sample_row 30 2) = 2"
    by (simp_all add: sample_row_def sample_op_def new_operation_def)
  have "s3 = ?s \<and> (\<forall>r'. res \<noteq> Inr (Some r'))"
    using zombie_write_is_void [OF wf _ sample_claim_second [unfolded sample_claim_def],
        of "sample_row 30 2" ?s 1 31 31 REQUESTED VALIDATED "[]" "[]" None None res s3] c id
    by simp
  then show ?thesis
    using c by (simp add: cas_def can_transition_def sample_store_eval id)
qed

text \<open>
  C15. Ownership is exclusive: whenever one row is handed out by two claims, the later claim carries
  a strictly larger fencing token, and at the time of the later claim the row's lease had run out.
\<close>

theorem claims_are_exclusive:
  assumes "store_wf s" "set states \<subseteq> set CLAIMABLE" "set states' \<subseteq> set CLAIMABLE"
    and "claim now s states limit wid d = (Inr out, s1)" "r \<in> set out"
    and "store_step\<^sup>*\<^sup>* s1 s2"
    and "claim now' s2 states' limit' wid' d' = (Inr out', s3)" "r' \<in> set out'"
    and "operation_id r' = operation_id r"
  shows "fencing_token r < fencing_token r' \<and>
    (\<exists>q. get s2 (operation_id r) = Some q \<and> (\<forall>l. lease_expires_at q = Some l \<longrightarrow> l \<le> now'))"
proof -
  have "store_wf s1" using mem.claim_law [OF assms(1,2,4)] by blast
  then have "store_wf s2" using store_run_wf [OF assms(6)] by blast
  then have "\<exists>q. get s2 (operation_id r) = Some q \<and> (\<forall>l. lease_expires_at q = Some l \<longrightarrow> l \<le> now')"
    using mem.claim_law [OF _ assms(3,7)] assms(8,9) by metis
  moreover have "fencing_token r < fencing_token r'"
    using mem.claims_differ [OF assms(1,4,2) _ assms(3,7,5,8,9)] assms(6)
    by (simp add: store_step_call)
  ultimately show ?thesis by blast
qed

theorem claims_are_exclusive_witness:
  "fencing_token (sample_row 0 1) < fencing_token (sample_row 30 2)"
proof -
  have id: "operation_id (sample_row 0 1) = 7" "operation_id (sample_row 30 2) = 7"
    by (simp_all add: sample_row_def sample_op_def new_operation_def)
  show ?thesis
    using claims_are_exclusive [OF sample_wf _ _ sample_claim_first [unfolded sample_claim_def] _
        rtranclp.rtrancl_refl sample_claim_second [unfolded sample_claim_def],
        of "sample_row 0 1" "sample_row 30 2"] id
    by simp
qed



text \<open>
  C28. When \<open>cas\<close> applies and what it writes: it returns a row exactly when the columns are
  whitelisted, the transition is legal and (id, token, state) match a live row; then exactly that
  row changes, keeping the intake columns and the token, its state is the target, a terminal
  target clears the claim, and one event with that transition and token is appended.  In every
  other case the store is untouched, and it raises exactly for a bad column or an illegal
  transition.
\<close>

theorem cas_applies_iff:
  assumes "store_wf s" "cas now at s i tok src dst sets detail renew who = (res, s')"
  shows "((\<exists>r'. res = Inr (Some r')) \<longleftrightarrow> mutable_sets sets \<and> can_transition src dst \<and>
      src \<notin> set TERMINAL \<and> (\<exists>r. get s i = Some r \<and> fencing_token r = tok \<and> op_state r = src)) \<and>
    ((\<exists>e. res = Inl e) \<longleftrightarrow> \<not> (mutable_sets sets \<and> can_transition src dst)) \<and>
    (\<forall>r'. res \<noteq> Inr (Some r')) = (s' = s) \<and>
    (\<forall>r'. res = Inr (Some r') \<longrightarrow> get s' = (get s)(i \<mapsto> r') \<and> operation_id r' = i \<and>
      fencing_token r' = tok \<and> op_state r' = dst \<and>
      (dst \<in> set TERMINAL \<longrightarrow> claimed_by r' = None \<and> lease_expires_at r' = None) \<and>
      events s' i = events s i @ [\<lparr> ev_operation_id = i, ev_from_state = Some src, ev_to_state = dst,
        ev_worker_id = who, ev_fencing_token = tok, ev_detail = detail, ev_at = Some at,
        ev_seq = ms_event_seq s \<rparr>])"
  using assms(2)
proof (cases rule: cas_cases)
  case refused
  then show ?thesis
    using assms(2)
    by (auto simp: cas_def mutable_sets_def get_def Let_def split: if_splits option.splits)
next
  case (wrote r)
  let ?w = "written now dst sets renew r"
  have id: "operation_id ?w = i"
    using written_keeps(1) [OF wrote(6), of now dst renew r] store_wf_row [OF assms(1) wrote(1)]
    by (simp add: intake_part_def)
  have "ms_event_seq s' \<noteq> ms_event_seq s"
    using wrote(8) by (simp add: append_event_def)
  then have "s' \<noteq> s" by auto
  moreover have "dst \<in> set TERMINAL \<Longrightarrow> claimed_by ?w = None \<and> lease_expires_at ?w = None"
    by (simp add: written_def Let_def)
  ultimately show ?thesis
    using wrote written_keeps [OF wrote(6)] id by (auto simp: events_append_event)
qed

theorem cas_applies_iff_witness:
  "\<exists>r'. fst (cas 5 5 sample_store 7 0 REQUESTED REJECTED [] [] None None) = Inr (Some r') \<and>
     op_state r' = REJECTED"
proof -
  obtain res s' where c: "cas 5 5 sample_store 7 0 REQUESTED REJECTED [] [] None None = (res, s')"
    by fastforce
  have "get sample_store 7 = Some (stamped 0 sample_op)"
    by (simp add: sample_store_eval get_def)
  then show ?thesis
    using cas_applies_iff [OF sample_wf c] c
    by (auto simp: mutable_sets_def can_transition_def sample_op_def new_operation_def)
qed

text \<open>
  C29. A claim is FIFO and bounded: it returns the first \<open>limit\<close> rows, in arrival order, among the
  rows in a wanted state whose lease is free, each with its token raised by one and a lease of
  the given length; every other row is left as it was.
\<close>

theorem claim_is_fifo:
  assumes "store_wf s"
  shows "\<exists>cs s'. sorted (map (\<lambda>(k, op). the (dict_get (ms_arrival s) k)) cs) \<and>
    mset cs = mset (filter (\<lambda>(k, op). op_state op \<in> set states) (ms_ops s)) \<and>
    claim now s states limit wid d =
      (Inr (map (\<lambda>(k, op). claimed now wid d op)
         (take (nat limit) (filter (\<lambda>(k, op). lease_free now op) cs))), s') \<and>
    (\<forall>i. i \<notin> fst ` set (take (nat limit) (filter (\<lambda>(k, op). lease_free now op) cs)) \<longrightarrow>
       get s' i = get s i)"
proof -
  obtain cs where cs: "candidates s states = Inr cs" using candidates_total [OF assms] by blast
  let ?sel = "claim_selection now limit cs"
  define ops where "ops = fold (\<lambda>(k, op) o'. dict_set o' k (claimed now wid d op)) ?sel (ms_ops s)"
  have cl: "claim now s states limit wid d =
      (Inr (map (\<lambda>(k, op). claimed now wid d op) ?sel), s\<lparr>ms_ops := ops\<rparr>)"
    using cs by (simp add: claim_def claim_loop_spec Let_def ops_def)
  have ds: "distinct (map fst ?sel)"
    using candidates_distinct [OF cs assms] by (rule claim_selection_distinct)
  have "get (s\<lparr>ms_ops := ops\<rparr>) i = get s i" if "i \<notin> fst ` set ?sel" for i
  proof -
    have "dict_get ?sel i = None" using that by (simp add: map_of_eq_None_iff)
    then show ?thesis
      using fold_dict_set_get [OF ds, where f = "claimed now wid d" and ops = "ms_ops s"]
      unfolding get_def ops_def by simp
  qed
  moreover have "sorted (map (\<lambda>(k, op). the (dict_get (ms_arrival s) k)) cs)"
    using cs candidates_sorted [OF assms] by blast
  ultimately show ?thesis
    using candidates_set [OF cs] cl unfolding claim_selection_def by blast
qed

theorem claim_is_fifo_witness:
  "\<exists>cs s'. mset cs = mset [(7, stamped 0 sample_op)] \<and>
     claim 0 sample_store CLAIMABLE 10 ''w'' 30 =
       (Inr (map (\<lambda>(k, op). claimed 0 ''w'' 30 op)
         (take 10 (filter (\<lambda>(k, op). lease_free 0 op) cs))), s')"
  using claim_is_fifo [OF sample_wf, of CLAIMABLE 0 10 "''w''" 30]
  by (auto simp: sample_store_eval sample_op_def new_operation_def)

text \<open>
  Intake is idempotent: after \<open>insert_new\<close> created a row, whatever happens to the store, a second
  \<open>insert_new\<close> with the same id creates nothing, leaves the store untouched and returns the row
  as it is then, with the intake columns of the first insert.
\<close>

theorem insert_new_once:
  assumes "store_wf s" "insert_new now at s op = ((r, True), s1)" "store_step\<^sup>*\<^sup>* s1 s2"
    and "operation_id op' = operation_id op"
  shows "\<exists>r2. insert_new now' at' s2 op' = ((r2, False), s2) \<and> get s2 (operation_id op) = Some r2 \<and>
    intake_part r2 = intake_part (stamped now op)"
proof -
  note ins = insert_new_effect [OF assms(1,2)]
  obtain r2 where "get s2 (operation_id op) = Some r2" "row_evolves r r2"
    by (rule store_run_row [OF assms(3) ins(1,3)])
  then show ?thesis
    using ins(4) assms(4) by (auto simp: insert_new_def get_def row_evolves_def)
qed

theorem insert_new_once_witness:
  "\<exists>r2. insert_new 9 9 sample_store (new_operation 7 [1] REQUESTED ''b'' ''USDT'' 6) =
     ((r2, False), sample_store) \<and> intake_part r2 = intake_part (stamped 0 sample_op)"
  using insert_new_once [OF store_wf_new sample_insert rtranclp.rtrancl_refl,
      of "new_operation 7 [1] REQUESTED ''b'' ''USDT'' 6" 9 9]
  by (auto simp: new_operation_def sample_op_def)

text \<open>
  C23. The event log is a faithful history: on every store grown from the empty one, the events of
  each row form one legal chain from intake to the row's present state - no gap, no write to a
  terminal row - and the sequence numbers are 1, 2, 3 ... without holes.
\<close>

theorem event_log_is_history:
  assumes "store_step\<^sup>*\<^sup>* new_store s"
  shows "chained None (events s i) (map_option op_state (get s i)) \<and>
    map ev_seq (ms_events s) = [1..int (length (ms_events s))]"
  using log_run [OF assms store_wf_new log_new] unfolding log_chained_def log_numbered_def by blast

theorem event_log_is_history_witness:
  "chained None (events sample_store 7) (Some REQUESTED) \<and> length (events sample_store 7) = 1"
proof -
  have "store_step new_store sample_store"
    using sample_insert by (rule st_insert)
  then show ?thesis
    using event_log_is_history [OF r_into_rtranclp, of sample_store 7]
    by (simp add: sample_store_eval get_def events_def sample_op_def new_operation_def)
qed

end
