(* ===== verification/Signer.thy ===== *)
theory Signer
  imports Tron_Types
begin

text \<open>
  \<open>sluice/tron/signer.py\<close>: the mock signer.  HMAC is the construction of RFC 2104 over the digest
  \<open>sha\<close> with its block size of 64 bytes.  \<open>hmac.compare_digest\<close> refuses strings that are not
  ASCII with a \<open>TypeError\<close>.
\<close>

unbundle bit_operations_syntax

section \<open>Definitions\<close>

definition hmac_key :: "(bytes \<Rightarrow> bytes) \<Rightarrow> bytes \<Rightarrow> bytes" where
  "hmac_key sha key =
     (let k = (if length key > 64 then sha key else key) in k @ replicate (64 - length k) 0)"

definition hmac_digest :: "(bytes \<Rightarrow> bytes) \<Rightarrow> bytes \<Rightarrow> bytes \<Rightarrow> bytes" where
  "hmac_digest sha key msg =
     sha (map (\<lambda>b. b XOR 0x5C) (hmac_key sha key) @
          sha (map (\<lambda>b. b XOR 0x36) (hmac_key sha key) @ msg))"

record mock_signer =
  key_id :: string
  secret :: bytes

definition default_signer :: mock_signer where
  "default_signer = \<lparr> key_id = ''hotwallet-1'', secret = ascii_encode ''not-a-real-key'' \<rparr>"

definition hmac_hex :: "(bytes \<Rightarrow> bytes) \<Rightarrow> mock_signer \<Rightarrow> string \<Rightarrow> string" where
  "hmac_hex sha sg tid = bytes_hex (hmac_digest sha (secret sg) (utf8_encode tid))"

definition sign :: "(bytes \<Rightarrow> bytes) \<Rightarrow> mock_signer \<Rightarrow> unsignedtx \<Rightarrow> signedtx" where
  "sign sha sg tx =
     \<lparr> st_raw_data = ut_raw_data tx, st_txid = ut_txid tx, st_expiration = ut_expiration tx,
       st_signature = key_id sg @ '':'' @ hmac_hex sha sg (ut_txid tx) \<rparr>"

definition is_ascii :: "string \<Rightarrow> bool" where
  "is_ascii s = list_all (\<lambda>c. (of_char c :: nat) < 128) s"

definition compare_digest :: "string \<Rightarrow> string \<Rightarrow> exn + bool" where
  "compare_digest a b = (if is_ascii a \<and> is_ascii b then Inr (a = b) else Inl TypeError)"

definition verify :: "(bytes \<Rightarrow> bytes) \<Rightarrow> mock_signer \<Rightarrow> signedtx \<Rightarrow> exn + bool" where
  "verify sha sg tx =
     (if CHR '':'' \<notin> set (st_signature tx) then Inr False
      else
        (let kid = takeWhile (\<lambda>c. c \<noteq> CHR '':'') (st_signature tx);
             sig = tl (dropWhile (\<lambda>c. c \<noteq> CHR '':'') (st_signature tx))
         in if kid = key_id sg then compare_digest sig (hmac_hex sha sg (st_txid tx))
            else Inr False))"

section \<open>Lemmas\<close>

lemma bytes_hex_ascii: "is_ascii (bytes_hex bs)"
proof -
  have "(of_char (hex_char n) :: nat) < 128" if "n < 16" for n
    using hex_char_of [OF that] that by simp
  moreover have "unat b div 16 < 16" for b :: "8 word"
    using unsigned_less [of b, where 'a = nat] by (simp add: less_mult_imp_div_less)
  ultimately show ?thesis
    by (auto simp: is_ascii_def list_all_iff bytes_hex_def hex_byte_def)
qed

lemma hmac_hex_ascii [simp]: "is_ascii (hmac_hex sha sg t)"
  by (simp add: hmac_hex_def bytes_hex_ascii)

lemma before_colon:
  "CHR '':'' \<in> set s \<and> takeWhile (\<lambda>c. c \<noteq> CHR '':'') s = k \<and> tl (dropWhile (\<lambda>c. c \<noteq> CHR '':'') s) = x \<longleftrightarrow>
     CHR '':'' \<notin> set k \<and> s = k @ '':'' @ x"
proof (induction s arbitrary: k)
  case (Cons c s)
  then show ?case by (cases "c = CHR '':''"; cases k) auto
qed simp

lemma verify_True_iff:
  "verify sha sg tx = Inr True \<longleftrightarrow>
     CHR '':'' \<notin> set (key_id sg) \<and>
     st_signature tx = key_id sg @ '':'' @ hmac_hex sha sg (st_txid tx)"
proof -
  let ?s = "st_signature tx"
  have "verify sha sg tx = Inr True \<longleftrightarrow> CHR '':'' \<in> set ?s \<and> takeWhile (\<lambda>c. c \<noteq> CHR '':'') ?s = key_id sg \<and>
      tl (dropWhile (\<lambda>c. c \<noteq> CHR '':'') ?s) = hmac_hex sha sg (st_txid tx)"
    by (simp add: verify_def compare_digest_def Let_def) (metis hmac_hex_ascii)
  then show ?thesis unfolding before_colon .
qed

lemma verify_Inl_iff:
  "verify sha sg tx = Inl e \<longleftrightarrow>
     e = TypeError \<and> CHR '':'' \<notin> set (key_id sg) \<and>
     (\<exists>x. st_signature tx = key_id sg @ '':'' @ x \<and> \<not> is_ascii x)"
proof -
  let ?s = "st_signature tx"
  have "verify sha sg tx = Inl e \<longleftrightarrow> e = TypeError \<and>
      (\<exists>x. (CHR '':'' \<in> set ?s \<and> takeWhile (\<lambda>c. c \<noteq> CHR '':'') ?s = key_id sg \<and>
        tl (dropWhile (\<lambda>c. c \<noteq> CHR '':'') ?s) = x) \<and> \<not> is_ascii x)"
    by (simp add: verify_def compare_digest_def Let_def eq_commute)
  then show ?thesis unfolding before_colon by blast
qed

lemma sign_fields [simp]:
  "st_raw_data (sign sha sg tx) = ut_raw_data tx"
  "st_txid (sign sha sg tx) = ut_txid tx"
  "st_expiration (sign sha sg tx) = ut_expiration tx"
  by (simp_all add: sign_def)

lemma verify_sign:
  "CHR '':'' \<notin> set (key_id sg) \<Longrightarrow> verify sha sg (sign sha sg tx) = Inr True"
  by (simp add: verify_True_iff) (simp add: sign_def)

section \<open>Properties\<close>

text \<open>C35. The node accepts a signature exactly when the signer made it: verification succeeds if
  and only if the signature is the one \<open>sign\<close> produces for a transaction with this txid, and the
  key identifier holds no colon (an identifier with a colon makes the signer's own signatures
  unverifiable).  It raises exactly when the signature is the key identifier, a colon and a rest that
  is not ASCII, and then a \<open>TypeError\<close>.\<close>

theorem verify_iff_signed:
  "(verify sha sg (sign sha sg tx\<lparr>st_signature := s\<rparr>) = Inr True \<longleftrightarrow>
     s = st_signature (sign sha sg tx) \<and> CHR '':'' \<notin> set (key_id sg)) \<and>
   (verify sha sg (sign sha sg tx\<lparr>st_signature := s\<rparr>) = Inl e \<longleftrightarrow>
     e = TypeError \<and> CHR '':'' \<notin> set (key_id sg) \<and> (\<exists>x. s = key_id sg @ '':'' @ x \<and> \<not> is_ascii x))"
  by (simp add: verify_True_iff verify_Inl_iff) (auto simp: sign_def)

end
