(* ===== verification/Money.thy ===== *)
theory Money
  imports Exceptions
begin

text \<open>
  \<open>sluice/money.py\<close>: decimal strings to integer base units and back.  The regular expression
  \<open>_AMOUNT_RE\<close> is a deterministic scan: a greedy run of digits, then the end or a dot and
  another run up to the end (\<open>$\<close> also matches before one final line feed).  \<open>int\<close> and
  \<open>str\<close> carry the interpreter's limit of 4300 digits, whose \<open>ValueError\<close> is not an
  \<open>AmountError\<close>.
\<close>

section \<open>Definitions\<close>

definition re_end :: "string \<Rightarrow> bool" where
  "re_end r \<longleftrightarrow> r = [] \<or> r = [CHR 0x0A]"

definition AMOUNT_RE :: "string \<Rightarrow> (string \<times> string option) option" where
  "AMOUNT_RE s =
     (let whole = takeWhile is_digit s; rest = dropWhile is_digit s in
      if whole = [] then None
      else if re_end rest then Some (whole, None)
      else case rest of
          [] \<Rightarrow> None
        | c # r \<Rightarrow>
            (let frac = takeWhile is_digit r in
             if c = CHR ''.'' \<and> frac \<noteq> [] \<and> re_end (dropWhile is_digit r)
             then Some (whole, Some frac) else None))"

definition py_int :: "string \<Rightarrow> exn + int" where
  "py_int s = (if length s > max_str_digits then Inl ValueError else Inr (int (digits_val s)))"

text \<open>\<open>int(s)\<close> on what \<open>str\<close> of an integer prints: an optional minus sign and digits.\<close>

definition int_of_str :: "string \<Rightarrow> exn + int" where
  "int_of_str s =
     (let neg = (s \<noteq> [] \<and> hd s = CHR ''-''); ds = (if neg then tl s else s) in
      if ds = [] \<or> \<not> list_all is_digit ds then Inl ValueError
      else ebind (py_int ds) (\<lambda>n. Inr (if neg then - n else n)))"

definition py_str :: "int \<Rightarrow> exn + string" where
  "py_str n = (if length (nat_str (nat \<bar>n\<bar>)) > max_str_digits then Inl ValueError
               else Inr (int_str n))"

definition to_units :: "json \<Rightarrow> nat \<Rightarrow> exn + int" where
  "to_units amount decimals =
     (case amount of
        JStr s \<Rightarrow>
          (case AMOUNT_RE (py_strip is_space s) of
             None \<Rightarrow> Inl (AmountError (Malformed s))
           | Some (whole, fr) \<Rightarrow>
               (let frac = (case fr of None \<Rightarrow> [] | Some f \<Rightarrow> f) in
                if length frac > decimals
                then Inl (AmountError (Too_Many_Fraction_Digits s (length frac) decimals))
                else
                  (let padded = py_ljust frac decimals CHR ''0'' in
                   ebind (py_int whole) (\<lambda>w.
                   ebind (py_int (if padded = [] then ''0'' else padded)) (\<lambda>f.
                   Inr (w * 10 ^ decimals + f))))))
      | _ \<Rightarrow> Inl (AmountError Not_A_String))"

definition to_human :: "int \<Rightarrow> nat \<Rightarrow> exn + string" where
  "to_human units decimals =
     (if units < 0 then Inl (AmountError Negative_Units)
      else
        (let whole = units div 10 ^ decimals; frac = units mod 10 ^ decimals in
         if frac = 0 then py_str whole
         else ebind (py_str whole) (\<lambda>w. ebind (py_str frac) (\<lambda>f.
              Inr (w @ ''.'' @ py_rstrip (\<lambda>c. c = CHR ''0'') (py_rjust f decimals CHR ''0''))))))"

section \<open>Lemmas\<close>

lemma dot_not_digit [simp]: "\<not> is_digit CHR ''.''"
  by (simp add: is_digit_def)

lemma zero_is_digit [simp]: "is_digit CHR ''0''"
  by (simp add: is_digit_def)

lemma digit_not_space: "is_digit c \<Longrightarrow> \<not> is_space c"
  by (auto simp: is_digit_def is_space_def Let_def)

lemma re_end_Nil [simp]: "re_end []"
  by (simp add: re_end_def)

lemma strip_no_space:
  assumes "s \<noteq> []" and "\<not> is_space (hd s)" and "\<not> is_space (last s)"
  shows "py_strip is_space s = s"
proof -
  have "dropWhile is_space s = s"
    using assms(1,2) by (cases s) auto
  moreover have "dropWhile is_space (rev s) = rev s"
    using assms(1,3) by (cases "rev s") (auto simp: hd_rev [symmetric])
  ultimately show ?thesis
    by (simp add: py_strip_def py_lstrip_def py_rstrip_def)
qed

lemma takeWhile_digits_dot:
  assumes "\<forall>c \<in> set w. is_digit c"
  shows "takeWhile is_digit (w @ CHR ''.'' # f) = w"
    and "dropWhile is_digit (w @ CHR ''.'' # f) = CHR ''.'' # f"
  using assms by (simp_all add: takeWhile_append dropWhile_append)

lemma AMOUNT_RE_whole:
  "\<forall>c \<in> set w. is_digit c \<Longrightarrow> w \<noteq> [] \<Longrightarrow> AMOUNT_RE w = Some (w, None)"
  by (simp add: AMOUNT_RE_def takeWhile_eq_all_conv [THEN iffD2] dropWhile_eq_Nil_conv [THEN iffD2])

lemma AMOUNT_RE_frac:
  assumes "\<forall>c \<in> set w. is_digit c" "w \<noteq> []" "\<forall>c \<in> set f. is_digit c" "f \<noteq> []"
  shows "AMOUNT_RE (w @ CHR ''.'' # f) = Some (w, Some f)"
proof -
  have "takeWhile is_digit f = f" "dropWhile is_digit f = []"
    using assms(3) by (auto simp: takeWhile_eq_all_conv dropWhile_eq_Nil_conv)
  then show ?thesis
    unfolding AMOUNT_RE_def Let_def takeWhile_digits_dot [OF assms(1)] list.case
    using assms(2,4) by (simp only:) (simp add: re_end_def)
qed

text \<open>The scan accepts nothing else, up to the line feed that \<open>strip\<close> has removed.\<close>

lemma AMOUNT_RE_SomeD:
  assumes "AMOUNT_RE s = Some (w, fr)"
  shows "w \<noteq> [] \<and> (\<forall>c \<in> set w. is_digit c) \<and>
    (case fr of None \<Rightarrow> s = w \<or> s = w @ [CHR 0x0A]
     | Some f \<Rightarrow> f \<noteq> [] \<and> (\<forall>c \<in> set f. is_digit c) \<and>
         (s = w @ CHR ''.'' # f \<or> s = w @ CHR ''.'' # f @ [CHR 0x0A]))"
proof -
  have split: "s = takeWhile is_digit s @ dropWhile is_digit s" for s
    by simp
  have w: "w = takeWhile is_digit s" and ne: "w \<noteq> []"
    using assms by (auto simp: AMOUNT_RE_def Let_def split: if_splits list.splits)
  have dw: "\<forall>c \<in> set w. is_digit c"
    using w by (auto dest: set_takeWhileD)
  show ?thesis
  proof (cases fr)
    case None
    then have "re_end (dropWhile is_digit s)"
      using assms by (auto simp: AMOUNT_RE_def Let_def split: if_splits list.splits)
    then have "s = w \<or> s = w @ [CHR 0x0A]"
      using split [of s] unfolding w re_end_def by (metis append_Nil2)
    with None ne dw show ?thesis by simp
  next
    case (Some f)
    then obtain r where r: "dropWhile is_digit s = CHR ''.'' # r"
      and f: "f = takeWhile is_digit r" "f \<noteq> []" "re_end (dropWhile is_digit r)"
      using assms by (auto simp: AMOUNT_RE_def Let_def split: if_splits list.splits)
    have "\<forall>c \<in> set f. is_digit c"
      using f(1) by (auto dest: set_takeWhileD)
    moreover have "r = f \<or> r = f @ [CHR 0x0A]"
      using split [of r] f(3) unfolding f(1) re_end_def by (metis append_Nil2)
    moreover have "s = w @ CHR ''.'' # r"
      using split [of s] unfolding w r .
    ultimately show ?thesis
      using Some f(2) ne dw by auto
  qed
qed

lemma py_strip_last:
  assumes "py_strip is_space s \<noteq> []"
  shows "\<not> is_space (last (py_strip is_space s))"
proof -
  let ?t = "dropWhile is_space (rev (dropWhile is_space s))"
  have "?t \<noteq> []" and "py_strip is_space s = rev ?t"
    using assms by (auto simp: py_strip_def py_lstrip_def py_rstrip_def)
  then show ?thesis
    using hd_dropWhile [of is_space "rev (dropWhile is_space s)"] by (simp add: last_rev)
qed

lemma newline_space [simp]: "is_space CHR 0x0A"
  by (simp add: is_space_def)

lemma AMOUNT_RE_strip:
  assumes "AMOUNT_RE (py_strip is_space s) = Some (w, fr)"
  shows "w \<noteq> [] \<and> (\<forall>c \<in> set w. is_digit c) \<and>
    (case fr of None \<Rightarrow> py_strip is_space s = w
     | Some f \<Rightarrow> f \<noteq> [] \<and> (\<forall>c \<in> set f. is_digit c) \<and> py_strip is_space s = w @ CHR ''.'' # f)"
proof -
  have "py_strip is_space s \<noteq> x @ [CHR 0x0A]" for x
    using py_strip_last [of s] by force
  from this [of w] this [of "w @ CHR ''.'' # the fr"] AMOUNT_RE_SomeD [OF assms] show ?thesis
    by (auto split: option.splits)
qed

text \<open>The value of a padded fraction.\<close>

lemma padded_fraction:
  assumes "length f \<le> d"
  shows "digits_val (if py_ljust f d CHR ''0'' = [] then ''0'' else py_ljust f d CHR ''0'') =
    digits_val f * 10 ^ (d - length f)"
proof -
  have zero: "digits_val ''0'' = 0"
    by (simp add: digits_val_def digit_val_def)
  show ?thesis
    using assms by (auto simp: py_ljust_def digits_val_append zero)
qed

lemma py_int_padded:
  assumes "length f \<le> d" "d \<le> max_str_digits"
  shows "py_int (if py_ljust f d CHR ''0'' = [] then ''0'' else py_ljust f d CHR ''0'') =
    Inr (int (digits_val f * 10 ^ (d - length f)))"
proof -
  have "length (if py_ljust f d CHR ''0'' = [] then ''0'' else py_ljust f d CHR ''0'')
      \<le> max_str_digits"
    using assms by (auto simp: py_ljust_def max_str_digits_def)
  then show ?thesis
    unfolding py_int_def padded_fraction [OF assms(1)] by simp
qed

lemma to_units_digits:
  assumes "AMOUNT_RE (py_strip is_space s) = Some (w, fr)"
    and "f = (case fr of None \<Rightarrow> [] | Some f \<Rightarrow> f)"
    and "length f \<le> d" "length w \<le> max_str_digits" "d \<le> max_str_digits"
  shows "to_units (JStr s) d =
    Inr (int (digits_val w * 10 ^ d + digits_val f * 10 ^ (d - length f)))"
  unfolding to_units_def Let_def assms(1) json.case option.case prod.case
    assms(2) [symmetric] py_int_padded [OF assms(3,5)]
  using assms(3,4) by (simp add: py_int_def)

lemma to_units_InrD:
  assumes "to_units (JStr s) d = Inr u"
  obtains w fr f where "AMOUNT_RE (py_strip is_space s) = Some (w, fr)"
    "f = (case fr of None \<Rightarrow> [] | Some f \<Rightarrow> f)" "length f \<le> d"
    "length w \<le> max_str_digits"
    "u = int (digits_val w * 10 ^ d + digits_val f * 10 ^ (d - length f))"
proof -
  obtain w fr where m: "AMOUNT_RE (py_strip is_space s) = Some (w, fr)"
    using assms by (auto simp: to_units_def split: option.splits)
  let ?f = "case fr of None \<Rightarrow> [] | Some f \<Rightarrow> f"
  have le: "length ?f \<le> d" and w: "length w \<le> max_str_digits"
    using assms m by (auto simp: to_units_def py_int_def Let_def split: if_splits)
  then have "u = int (digits_val w * 10 ^ d + digits_val ?f * 10 ^ (d - length ?f))"
    using assms m padded_fraction [OF le]
    by (auto simp: to_units_def py_int_def Let_def split: if_splits)
  with m le w that show thesis by blast
qed

lemma nat_str_length: "n < 10 ^ d \<Longrightarrow> 0 < d \<Longrightarrow> length (nat_str n) \<le> d"
proof (induction d arbitrary: n)
  case (Suc d)
  show ?case
  proof (cases "n < 10")
    case True
    then show ?thesis by (simp add: nat_str.simps [of n])
  next
    case False
    then have "n div 10 < 10 ^ d" and "0 < d"
      using Suc.prems by (auto simp: less_mult_imp_div_less mult.commute intro: gr0I)
    then show ?thesis
      using Suc.IH [of "n div 10"] False by (simp add: nat_str.simps [of n])
  qed
qed simp

lemma rstrip_split:
  obtains k where "s = py_rstrip (\<lambda>c. c = x) s @ replicate k x"
    and "py_rstrip (\<lambda>c. c = x) s \<noteq> [] \<Longrightarrow> last (py_rstrip (\<lambda>c. c = x) s) \<noteq> x"
proof -
  let ?z = "takeWhile (\<lambda>c. c = x) (rev s)"
  have "rev s = ?z @ dropWhile (\<lambda>c. c = x) (rev s)"
    by simp
  then have "s = rev (dropWhile (\<lambda>c. c = x) (rev s)) @ rev ?z"
    by (metis rev_append rev_rev_ident)
  moreover have "rev ?z = replicate (length ?z) x"
    by (metis (mono_tags) replicate_length_same rev_replicate set_takeWhileD)
  ultimately have "s = py_rstrip (\<lambda>c. c = x) s @ replicate (length ?z) x"
    by (simp add: py_rstrip_def)
  moreover have "last (py_rstrip (\<lambda>c. c = x) s) \<noteq> x" if "py_rstrip (\<lambda>c. c = x) s \<noteq> []"
    using that hd_dropWhile [of "\<lambda>c. c = x" "rev s"] by (simp add: py_rstrip_def last_rev)
  ultimately show thesis
    by (rule that)
qed

text \<open>The fraction \<open>to_human\<close> prints, read back as digits.\<close>

lemma human_fraction:
  assumes "0 < n" "n < 10 ^ d" "0 < d"
    and "f = py_rstrip (\<lambda>c. c = CHR ''0'') (py_rjust (nat_str n) d CHR ''0'')"
  shows "f \<noteq> [] \<and> (\<forall>c \<in> set f. is_digit c) \<and> length f \<le> d \<and>
    digits_val f * 10 ^ (d - length f) = n"
proof -
  let ?p = "py_rjust (nat_str n) d CHR ''0''"
  have len: "length ?p = d" and val: "digits_val ?p = n"
    using nat_str_length [OF assms(2,3)] by (simp_all add: py_rjust_def digits_val_append)
  have dig: "\<forall>c \<in> set ?p. is_digit c"
    by (auto simp: py_rjust_def intro: nat_str_digits)
  obtain k where k: "?p = f @ replicate k CHR ''0''"
    using rstrip_split [of ?p "CHR ''0''"] assms(4) by metis
  have "d = length f + k"
    using len k by (metis length_append length_replicate)
  moreover have "digits_val f * 10 ^ k = n"
    using val by (simp add: k digits_val_append)
  moreover from this have "f \<noteq> []"
    using assms(1) by auto
  moreover have "\<forall>c \<in> set f. is_digit c"
    using dig by (simp add: k)
  ultimately show ?thesis by auto
qed

lemma digits_strip:
  assumes "w \<noteq> []" "\<forall>c \<in> set w. is_digit c"
  shows "py_strip is_space w = w"
  using assms by (intro strip_no_space) (auto dest: digit_not_space)

lemma digits_dot_strip:
  assumes "w \<noteq> []" "\<forall>c \<in> set w. is_digit c" "f \<noteq> []" "\<forall>c \<in> set f. is_digit c"
  shows "py_strip is_space (w @ CHR ''.'' # f) = w @ CHR ''.'' # f"
  using assms by (intro strip_no_space) (auto dest: digit_not_space)

lemma to_units_whole:
  assumes "w \<noteq> []" "\<forall>c \<in> set w. is_digit c" "length w \<le> max_str_digits" "d \<le> max_str_digits"
  shows "to_units (JStr w) d = Inr (int (digits_val w * 10 ^ d))"
  using to_units_digits [of w w None "[]" d] assms
  by (simp add: digits_strip AMOUNT_RE_whole)

lemma to_units_frac:
  assumes "w \<noteq> []" "\<forall>c \<in> set w. is_digit c" "length w \<le> max_str_digits" "d \<le> max_str_digits"
    and "f \<noteq> []" "\<forall>c \<in> set f. is_digit c" "length f \<le> d"
  shows "to_units (JStr (w @ CHR ''.'' # f)) d =
    Inr (int (digits_val w * 10 ^ d + digits_val f * 10 ^ (d - length f)))"
  using to_units_digits [of "w @ CHR ''.'' # f" w "Some f" f d] assms
  by (simp add: digits_dot_strip AMOUNT_RE_frac)

lemma py_str_nat:
  "length (nat_str n) \<le> max_str_digits \<Longrightarrow> py_str (int n) = Inr (nat_str n)"
  by (simp add: py_str_def int_str_def)

lemma int_of_int_str:
  "length (nat_str (nat \<bar>i\<bar>)) \<le> max_str_digits \<Longrightarrow> int_of_str (int_str i) = Inr i"
proof -
  assume len: "length (nat_str (nat \<bar>i\<bar>)) \<le> max_str_digits"
  have dig: "list_all is_digit (nat_str n)" for n
    by (auto simp: list_all_iff intro: nat_str_digits)
  have "hd (nat_str n) \<noteq> CHR ''-''" for n
    using nat_str_digits [of "hd (nat_str n)" n] by auto
  then show ?thesis
    using len dig
    by (cases "i < 0") (simp_all add: int_of_str_def int_str_def py_int_def Let_def)
qed

lemmas money_eval = py_strip_def py_lstrip_def py_rstrip_def py_ljust_def py_rjust_def py_int_def
  is_space_def is_digit_def digit_val_def digits_val_def max_str_digits_def re_end_def
  replicate_unfold

section \<open>Properties\<close>

text \<open>C38. Amount parsing is exact: an accepted amount is, up to surrounding white space, ASCII
  digits with at most one dot between digits, has no more fractional digits than the token, and
  its units times \<open>10 ^ (number of fractional digits)\<close> is the written number times
  \<open>10 ^ decimals\<close> (no rounding anywhere).\<close>

theorem to_units_exact:
  assumes "to_units (JStr s) d = Inr u"
  shows "\<exists>w f. w \<noteq> [] \<and> (\<forall>c \<in> set (w @ f). is_digit c) \<and> length f \<le> d \<and>
    py_strip is_space s = (if f = [] then w else w @ CHR ''.'' # f) \<and>
    u * 10 ^ length f = int (digits_val (w @ f) * 10 ^ d)"
proof -
  obtain w fr f where m: "AMOUNT_RE (py_strip is_space s) = Some (w, fr)"
    and f: "f = (case fr of None \<Rightarrow> [] | Some f \<Rightarrow> f)" "length f \<le> d"
    and u: "u = int (digits_val w * 10 ^ d + digits_val f * 10 ^ (d - length f))"
    using assms by (rule to_units_InrD)
  have "(10::nat) ^ (d - length f) * 10 ^ length f = 10 ^ d"
    using f(2) by (simp flip: power_add)
  then have "(digits_val w * 10 ^ d + digits_val f * 10 ^ (d - length f)) * 10 ^ length f =
      digits_val (w @ f) * 10 ^ d"
    by (simp add: digits_val_append algebra_simps)
  then have "u * 10 ^ length f = int (digits_val (w @ f) * 10 ^ d)"
    by (metis u of_nat_mult of_nat_numeral of_nat_power)
  then show ?thesis
    using AMOUNT_RE_strip [OF m] f by (intro exI [of _ w] exI [of _ f]) (auto split: option.splits)
qed

theorem to_units_exact_witness:
  "to_units (JStr '' 12.50 '') 6 = Inr 12500000 \<and>
   (\<exists>w f. py_strip is_space '' 12.50 '' = (if f = [] then w else w @ CHR ''.'' # f) \<and>
     12500000 * 10 ^ length f = int (digits_val (w @ f) * 10 ^ 6))"
proof -
  have h: "to_units (JStr '' 12.50 '') 6 = Inr 12500000"
    by (simp add: to_units_def AMOUNT_RE_def money_eval)
  show ?thesis
    using h to_units_exact [OF h] by blast
qed

text \<open>C39. Printing and parsing round-trip: the text \<open>to_human\<close> gives for any non-negative
  number of units is accepted by \<open>to_units\<close> and gives the same number back, as long as neither the
  whole part nor the decimals exceed the digit limit of the interpreter.\<close>

theorem to_human_to_units:
  assumes "length (nat_str (u div 10 ^ d)) \<le> max_str_digits" and "d \<le> max_str_digits"
  shows "\<exists>s. to_human (int u) d = Inr s \<and> to_units (JStr s) d = Inr (int u)"
proof -
  let ?w = "u div 10 ^ d" and ?n = "u mod 10 ^ d"
  have div: "int u div 10 ^ d = int ?w" and mod: "int u mod 10 ^ d = int ?n"
    by (simp_all add: zdiv_int zmod_int)
  have w: "nat_str ?w \<noteq> []" "\<forall>c \<in> set (nat_str ?w). is_digit c"
    by (auto intro: nat_str_digits)
  show ?thesis
  proof (cases "?n = 0")
    case True
    then have "u = ?w * 10 ^ d" by (metis add.right_neutral div_mult_mod_eq)
    then show ?thesis
      using True assms to_units_whole [OF w assms]
      by (simp add: to_human_def div mod py_str_nat)
  next
    case False
    then have d: "0 < d" by (intro gr0I) simp
    have n: "0 < ?n" "?n < 10 ^ d" using False by simp_all
    define f where "f = py_rstrip (\<lambda>c. c = CHR ''0'') (py_rjust (nat_str ?n) d CHR ''0'')"
    note f = human_fraction [OF n d f_def]
    have "length (nat_str ?n) \<le> max_str_digits"
      using nat_str_length [OF n(2) d] assms(2) by simp
    then have "to_human (int u) d = Inr (nat_str ?w @ CHR ''.'' # f)"
      using False assms(1) by (simp add: to_human_def div mod py_str_nat f_def Let_def)
    moreover have "to_units (JStr (nat_str ?w @ CHR ''.'' # f)) d = Inr (int u)"
      using to_units_frac [OF w assms, of f] f div_mult_mod_eq [of u "10 ^ d"] by simp
    ultimately show ?thesis by blast
  qed
qed

theorem to_human_to_units_witness:
  "\<exists>s. to_human 1 6 = Inr s \<and> to_units (JStr s) 6 = Inr 1"
  using to_human_to_units [of 1 6] by (simp add: nat_str.simps max_str_digits_def)

text \<open>Trailing zeros carry no meaning: \<open>"w.f"\<close> and \<open>"w.f0"\<close> are the same
  instruction, as long as the longer form still fits the token's decimals.\<close>

theorem to_units_trailing_zero:
  assumes "w \<noteq> []" "f \<noteq> []" "\<forall>c \<in> set (w @ f). is_digit c" "length f < d"
    and "length w \<le> max_str_digits" "d \<le> max_str_digits"
  shows "to_units (JStr (w @ ''.'' @ f @ ''0'')) d = to_units (JStr (w @ ''.'' @ f)) d"
proof -
  have "(10::nat) ^ (d - length f) = 10 * 10 ^ (d - Suc (length f))"
    using assms(4) by (metis Suc_diff_Suc power_Suc)
  moreover have "digits_val (f @ ''0'') = digits_val f * 10"
    by (simp add: digit_val_def)
  ultimately have "digits_val (f @ ''0'') * 10 ^ (d - length (f @ ''0'')) =
      digits_val f * 10 ^ (d - length f)"
    by simp
  then show ?thesis
    using assms to_units_frac [of w d "f @ ''0''"] to_units_frac [of w d f] by simp
qed

theorem to_units_trailing_zero_witness:
  "to_units (JStr (''1'' @ ''.'' @ ''5'' @ ''0'')) 6 = to_units (JStr (''1'' @ ''.'' @ ''5'')) 6"
  using to_units_trailing_zero [of "''1''" "''5''" 6] by (simp add: is_digit_def max_str_digits_def)

text \<open>A numeral of more than 4300 digits is refused with the interpreter's plain
  \<open>ValueError\<close>, not with an \<open>AmountError\<close>: callers that catch only
  \<open>AmountError\<close> do not see it.\<close>

theorem to_units_digit_limit:
  assumes "\<forall>c \<in> set w. is_digit c" and "max_str_digits < length w"
  shows "to_units (JStr w) d = Inl ValueError"
proof -
  have "w \<noteq> []" using assms(2) by auto
  then show ?thesis
    using assms by (simp add: to_units_def digits_strip AMOUNT_RE_whole py_int_def)
qed

theorem to_units_digit_limit_witness:
  "to_units (JStr (replicate 5000 CHR ''9'')) 6 = Inl ValueError"
  using to_units_digit_limit [of "replicate 5000 CHR ''9''" 6]
  by (simp add: is_digit_def max_str_digits_def)

end
