(* ===== verification/Config.thy ===== *)
theory Config
  imports Exceptions
begin

text \<open>
  \<open>sluice/config.py\<close> (the settings, their defaults and the environment overrides, and the
  manually advanced clock) and \<open>sluice/crashpoints.py\<close> (the scripted crash switch).  The clock
  object that the settings carry in the source is part of the world the programs run in.
\<close>

section \<open>Settings\<close>

record config =
  cfg_asset :: string
  token_decimals :: nat
  min_amount_units :: int
  max_amount_units :: int
  lease_seconds :: duration
  claim_batch :: int
  poll_interval :: duration
  tx_ttl_seconds :: duration
  expiration_safety_seconds :: duration
  max_build_attempts :: int
  usdt_contract :: string

definition USDT_TRC20_CONTRACT :: string where
  "USDT_TRC20_CONTRACT = ''TR7NHqjeKQxGTCi8q8ZY4pL8otSzgjLj6t''"

definition default_config :: config where
  "default_config =
     \<lparr> cfg_asset = ''USDT-TRC20'', token_decimals = 6, min_amount_units = 1,
       max_amount_units = 1000000 * 10 ^ 6, lease_seconds = seconds 30, claim_batch = 10,
       poll_interval = milliseconds 500, tx_ttl_seconds = seconds 60,
       expiration_safety_seconds = seconds 30, max_build_attempts = 5,
       usdt_contract = USDT_TRC20_CONTRACT \<rparr>"

text \<open>
  \<open>Config.from_env\<close>: an unset or empty variable keeps the default; the readers of numbers
  (\<open>float\<close>, rounded to a duration, and \<open>int\<close>) are arguments and may raise.
\<close>

definition env_field :: "(string \<Rightarrow> string option) \<Rightarrow> string \<Rightarrow> (string \<Rightarrow> exn + 'v) \<Rightarrow>
    ('v \<Rightarrow> config \<Rightarrow> config) \<Rightarrow> config \<Rightarrow> exn + config" where
  "env_field getenv name reader upd cfg =
     (case getenv name of
        None \<Rightarrow> Inr cfg
      | Some v \<Rightarrow> if v = [] then Inr cfg else ebind (reader v) (\<lambda>x. Inr (upd x cfg)))"

definition from_env :: "(string \<Rightarrow> string option) \<Rightarrow> (string \<Rightarrow> exn + duration) \<Rightarrow>
    (string \<Rightarrow> exn + int) \<Rightarrow> exn + config" where
  "from_env getenv py_float py_int =
     ebind (env_field getenv ''SLUICE_LEASE_SECONDS'' py_float
              (\<lambda>v c. c\<lparr>lease_seconds := v\<rparr>) default_config) (\<lambda>c1.
     ebind (env_field getenv ''SLUICE_TX_TTL_SECONDS'' py_float
              (\<lambda>v c. c\<lparr>tx_ttl_seconds := v\<rparr>) c1) (\<lambda>c2.
     ebind (env_field getenv ''SLUICE_CLAIM_BATCH'' py_int
              (\<lambda>v c. c\<lparr>claim_batch := v\<rparr>) c2) (\<lambda>c3.
     env_field getenv ''SLUICE_POLL_INTERVAL'' py_float
              (\<lambda>v c. c\<lparr>poll_interval := v\<rparr>) c3)))"

section \<open>The fake clock\<close>

text \<open>Without a start the clock stands at the first moment of 2026.\<close>

definition new_fake_clock :: "time option \<Rightarrow> time" where
  "new_fake_clock start = (case start of None \<Rightarrow> seconds 1767225600 | Some t \<Rightarrow> t)"

definition advance :: "time \<Rightarrow> duration \<Rightarrow> time" where
  "advance clk d = clk + d"

section \<open>Crash points\<close>

record crash_switch =
  armed :: "(string, int) dict"
  tripped :: "string list"

definition new_crash_switch :: crash_switch where
  "new_crash_switch = \<lparr> armed = [], tripped = [] \<rparr>"

definition arm :: "crash_switch \<Rightarrow> string \<Rightarrow> int \<Rightarrow> crash_switch" where
  "arm c point n =
     c\<lparr>armed := dict_set (armed c) point
        ((case dict_get (armed c) point of None \<Rightarrow> 0 | Some k \<Rightarrow> k) + n)\<rparr>"

text \<open>\<open>here\<close>: the flag says whether \<open>SimulatedCrash\<close> is raised.\<close>

definition here :: "crash_switch \<Rightarrow> string \<Rightarrow> bool \<times> crash_switch" where
  "here c point =
     (case dict_get (armed c) point of
        None \<Rightarrow> (False, c)
      | Some n \<Rightarrow>
          if n > 0 then
            (True, c\<lparr>armed := dict_set (armed c) point (n - 1), tripped := tripped c @ [point]\<rparr>)
          else (False, c))"

definition SIGN_MID :: string where
  "SIGN_MID = ''sign.between_build_and_sign''"

definition BROADCAST_PRE_SEND :: string where
  "BROADCAST_PRE_SEND = ''broadcast.pre_send''"

definition BROADCAST_POST_SEND :: string where
  "BROADCAST_POST_SEND = ''broadcast.post_send''"

definition CONFIRM_PRE_WRITE :: string where
  "CONFIRM_PRE_WRITE = ''confirm.pre_write''"

text \<open>How often a point is still armed, and what a sequence of visits to it does.\<close>

definition armed_count :: "crash_switch \<Rightarrow> string \<Rightarrow> int" where
  "armed_count c p = (case dict_get (armed c) p of None \<Rightarrow> 0 | Some n \<Rightarrow> n)"

fun here_times :: "nat \<Rightarrow> string \<Rightarrow> crash_switch \<Rightarrow> bool list \<times> crash_switch" where
  "here_times 0 p c = ([], c)"
| "here_times (Suc n) p c =
     (let (b, c') = here c p; (bs, c'') = here_times n p c' in (b # bs, c''))"

section \<open>Lemmas\<close>

lemma here_unarmed [simp]: "dict_get (armed c) p = None \<Longrightarrow> here c p = (False, c)"
  by (simp add: here_def)

lemma armed_count_arm [simp]:
  "armed_count (arm c p n) q = armed_count c q + (if q = p then n else 0)"
  by (auto simp: armed_count_def arm_def split: option.splits)

lemma here_fires: "fst (here c p) \<longleftrightarrow> 0 < armed_count c p"
  by (auto simp: here_def armed_count_def split: option.splits)

lemma here_count:
  "armed_count (snd (here c p)) q =
     armed_count c q - (if q = p \<and> 0 < armed_count c p then 1 else 0)"
  by (auto simp: here_def armed_count_def split: option.splits)

section \<open>Properties\<close>

text \<open>An armed crash point fires exactly as often as it was armed: a point that starts unarmed
  and is armed \<open>k\<close> times lets the worker die at the first \<open>k\<close> visits and at none of the
  later ones.\<close>

theorem armed_point_fires_exactly:
  assumes "armed_count c p = 0"
  shows "fst (here_times n p (arm c p (int k))) = replicate (min n k) True @ replicate (n - k) False"
proof -
  have "fst (here_times n p d) = replicate (min n k) True @ replicate (n - k) False"
    if "armed_count d p = int k" for d
    using that
  proof (induction n arbitrary: d k)
    case (Suc n)
    have fires: "fst (here d p) \<longleftrightarrow> 0 < k"
      using Suc.prems by (simp add: here_fires)
    show ?case
    proof (cases k)
      case 0
      then have "armed_count (snd (here d p)) p = int 0"
        using Suc.prems by (simp add: here_count)
      from Suc.IH [OF this] 0 fires show ?thesis
        by (simp add: case_prod_unfold Let_def)
    next
      case (Suc k')
      then have "armed_count (snd (here d p)) p = int k'"
        using Suc.prems by (simp add: here_count)
      from Suc.IH [OF this] Suc fires show ?thesis
        by (simp add: case_prod_unfold Let_def)
    qed
  qed simp
  from this [of "arm c p (int k)"] assms show ?thesis by simp
qed

theorem armed_point_fires_exactly_witness:
  "fst (here_times 3 SIGN_MID (arm new_crash_switch SIGN_MID (int 1))) = [True, False, False]"
  using armed_point_fires_exactly [of new_crash_switch SIGN_MID 3 1]
  by (simp add: armed_count_def new_crash_switch_def numeral_2_eq_2)

end
