(* ===== verification/Mocknet.thy ===== *)
theory Mocknet
  imports Signer Money Address Config
begin

text \<open>
  \<open>sluice/tron/mocknet.py\<close>: the in-memory TRON node.  Every method runs under one lock, so each
  is one function of the node's state and of the clock value it reads; a method that raises
  returns \<open>Inl\<close>.  Heights, dictionaries in insertion order, the fault queues of the three
  channels and the forensic broadcast log are the fields of the source.
\<close>

section \<open>State\<close>

datatype fault =
    TIMEOUT_DROPPED | TIMEOUT_ACCEPTED | BUSY | UNKNOWN_CODE | REVERT_RECEIPT | QUERY_TIMEOUT

record tx_record =
  rec_tx :: signedtx
  accepted_at_block :: int
  rec_included_block :: "int option"
  receipt :: "string option"

record log_entry =
  le_txid :: string
  le_outcome :: string
  le_at_block :: int
  le_worker :: "string option"

record node =
  solidity_lag :: int
  inclusion_delay :: int
  nd_signer :: mock_signer
  nd_head :: int
  block_time :: "(int, time) dict"
  nd_txs :: "(string, tx_record) dict"
  nd_faults :: "(string, fault list) dict"
  broadcast_log :: "log_entry list"

definition new_node :: "time \<Rightarrow> int \<Rightarrow> int \<Rightarrow> mock_signer \<Rightarrow> node" where
  "new_node clk lag delay sg =
     \<lparr> solidity_lag = lag, inclusion_delay = delay, nd_signer = sg, nd_head = 1000,
       block_time = [(1000, clk)], nd_txs = [], nd_faults = [(''broadcast'', []), (''query'', [])],
       broadcast_log = [] \<rparr>"

section \<open>Faults\<close>

definition setdefault :: "(string, fault list) dict \<Rightarrow> string \<Rightarrow> (string, fault list) dict" where
  "setdefault d k = (case dict_get d k of None \<Rightarrow> dict_set d k [] | Some _ \<Rightarrow> d)"

definition script :: "node \<Rightarrow> string \<Rightarrow> fault list \<Rightarrow> node" where
  "script nd channel fs =
     (let d = setdefault (nd_faults nd) channel;
          q = (case dict_get d channel of None \<Rightarrow> [] | Some q \<Rightarrow> q)
      in nd\<lparr>nd_faults := dict_set d channel (q @ fs)\<rparr>)"

definition take_fault :: "node \<Rightarrow> string \<Rightarrow> (exn + fault option) \<times> node" where
  "take_fault nd channel =
     (case dict_get (nd_faults nd) channel of
        None \<Rightarrow> (Inl (KeyError channel), nd)
      | Some [] \<Rightarrow> (Inr None, nd)
      | Some (f # fs) \<Rightarrow>
          (Inr (Some f), nd\<lparr>nd_faults := dict_set (nd_faults nd) channel fs\<rparr>))"

section \<open>Chain geometry\<close>

definition head_block :: "node \<Rightarrow> int" where
  "head_block nd = nd_head nd"

definition solid_block :: "node \<Rightarrow> int" where
  "solid_block nd = nd_head nd - solidity_lag nd"

definition heights :: "node \<Rightarrow> int list" where
  "heights nd = map fst (block_time nd)"

definition block_hash :: "int \<Rightarrow> string" where
  "block_hash n =
     ''blk'' @ (let h = (if n = 0 then ''0'' else map hex_char (radix_digits 16 (nat \<bar>n\<bar>))) in
       if n < 0 then ''-'' @ py_rjust h 15 CHR ''0'' else py_rjust h 16 CHR ''0'')"

definition ref_block :: "node \<Rightarrow> exn + (int \<times> string)" where
  "ref_block nd =
     (if heights nd = [] then Inl ValueError
      else (let n = max (solid_block nd) (Min (set (heights nd))) in Inr (n, block_hash n)))"

definition pop_revert :: "(string, fault list) dict \<Rightarrow> bool \<times> (string, fault list) dict" where
  "pop_revert faults =
     (let d = setdefault faults ''receipt'' in
      case dict_get d ''receipt'' of
        Some (REVERT_RECEIPT # fs) \<Rightarrow> (True, dict_set d ''receipt'' fs)
      | _ \<Rightarrow> (False, d))"

text \<open>The inner loop of \<open>produce_blocks\<close> over the accepted transactions.\<close>

definition include_one :: "int \<Rightarrow> time \<Rightarrow> int \<Rightarrow> tx_record \<Rightarrow> (string, fault list) dict \<Rightarrow>
    tx_record \<times> (string, fault list) dict" where
  "include_one h t delay r faults =
     (if rec_included_block r \<noteq> None then (r, faults)
      else if st_expiration (rec_tx r) \<le> t then (r, faults)
      else if h - accepted_at_block r \<ge> delay then
        (let (reverted, f') = pop_revert faults in
         (r\<lparr>rec_included_block := Some h,
            receipt := Some (if reverted then ''REVERTED'' else ''SUCCESS'')\<rparr>, f'))
      else (r, faults))"

fun include_txs :: "int \<Rightarrow> time \<Rightarrow> int \<Rightarrow> (string, tx_record) dict \<Rightarrow> (string, fault list) dict \<Rightarrow>
    (string, tx_record) dict \<times> (string, fault list) dict" where
  "include_txs h t delay [] faults = ([], faults)"
| "include_txs h t delay ((k, r) # rs) faults =
     (let (r', faults') = include_one h t delay r faults;
          (rs', faults'') = include_txs h t delay rs faults'
      in ((k, r') # rs', faults''))"

definition next_block_time :: "time \<Rightarrow> time \<Rightarrow> time" where
  "next_block_time clk prev = (if clk \<le> prev then prev + milliseconds 1 else clk)"

definition produce_block :: "time \<Rightarrow> node \<Rightarrow> exn + node" where
  "produce_block clk nd =
     (case dict_get (block_time nd) (nd_head nd) of
        None \<Rightarrow> Inl (KeyError ''block_time'')
      | Some prev \<Rightarrow>
          (let t = next_block_time clk prev;
               h = nd_head nd + 1;
               (txs, faults) = include_txs h t (inclusion_delay nd) (nd_txs nd) (nd_faults nd)
           in Inr (nd\<lparr>nd_head := h, block_time := dict_set (block_time nd) h t,
                      nd_txs := txs, nd_faults := faults\<rparr>)))"

text \<open>The clock is read once for each block: \<open>clks k\<close> is the reading for the \<open>k\<close>-th.\<close>

fun produce_blocks :: "(nat \<Rightarrow> time) \<Rightarrow> nat \<Rightarrow> node \<Rightarrow> exn + node" where
  "produce_blocks clks 0 nd = Inr nd"
| "produce_blocks clks (Suc n) nd =
     ebind (produce_block (clks 0) nd) (produce_blocks (\<lambda>k. clks (Suc k)) n)"

definition solid_now :: "node \<Rightarrow> exn + time" where
  "solid_now nd =
     (if heights nd = [] then Inl ValueError
      else
        (let below = filter (\<lambda>h. h \<le> solid_block nd) (heights nd);
             solid = (if below = [] then Min (set (heights nd)) else Max (set below))
         in case dict_get (block_time nd) solid of
              None \<Rightarrow> Inl (KeyError ''block_time'')
            | Some t \<Rightarrow> Inr t))"

definition solidify :: "(nat \<Rightarrow> time) \<Rightarrow> node \<Rightarrow> exn + node" where
  "solidify clks nd = produce_blocks clks (nat (solidity_lag nd + inclusion_delay nd + 1)) nd"

section \<open>Node API\<close>

definition log_it :: "node \<Rightarrow> signedtx \<Rightarrow> string option \<Rightarrow> string \<Rightarrow> node" where
  "log_it nd tx wid outcome =
     nd\<lparr>broadcast_log := broadcast_log nd @
        [\<lparr> le_txid = st_txid tx, le_outcome = outcome, le_at_block = nd_head nd,
           le_worker = wid \<rparr>]\<rparr>"

definition broadcast :: "(bytes \<Rightarrow> bytes) \<Rightarrow> time \<Rightarrow> node \<Rightarrow> signedtx \<Rightarrow> string option \<Rightarrow>
    (exn + broadcast_result) \<times> node" where
  "broadcast sha clk nd0 tx wid =
     (case take_fault nd0 ''broadcast'' of
        (Inl e, nd) \<Rightarrow> (Inl e, nd)
      | (Inr fault, nd) \<Rightarrow>
          (let ans = (\<lambda>c msg. Inr \<lparr> br_code = c, br_message = msg \<rparr>) in
           if fault = Some TIMEOUT_DROPPED then
             (Inl (NodeTimeout ''broadcast: connection reset by peer''),
              log_it nd tx wid ''timeout-dropped'')
           else if fault = Some BUSY then
             (ans (code_value SERVER_BUSY) ''try later'', log_it nd tx wid ''busy'')
           else if fault = Some UNKNOWN_CODE then
             (ans ''PLEASE_INSERT_COIN'' ''novel failure mode'', log_it nd tx wid ''unknown-code'')
           else case verify sha (nd_signer nd) tx of
             Inl e \<Rightarrow> (Inl e, nd)
           | Inr ok \<Rightarrow>
             if \<not> ok then
               (ans (code_value SIGERROR) ''bad signature'', log_it nd tx wid ''rejected:SIGERROR'')
             else if st_expiration tx \<le> clk then
               (ans (code_value TRANSACTION_EXPIRATION_ERROR) ''expired'',
                log_it nd tx wid ''rejected:EXPIRED'')
             else if dict_get (nd_txs nd) (st_txid tx) \<noteq> None then
               (ans (code_value DUP_TRANSACTION) ''already known'', log_it nd tx wid ''dup'')
             else
               (let nd' = nd\<lparr>nd_txs := dict_set (nd_txs nd) (st_txid tx)
                    \<lparr> rec_tx = tx, accepted_at_block = nd_head nd, rec_included_block = None,
                      receipt = None \<rparr>\<rparr>
                in if fault = Some TIMEOUT_ACCEPTED then
                     (Inl (NodeTimeout ''broadcast: read timed out (but the node kept the tx)''),
                      log_it nd' tx wid ''timeout-accepted'')
                   else (ans (code_value SUCCESS) '''', log_it nd' tx wid ''accepted''))))"

definition find_tx :: "time \<Rightarrow> node \<Rightarrow> string \<Rightarrow> (exn + tx_status) \<times> node" where
  "find_tx clk nd0 tid =
     (case take_fault nd0 ''query'' of
        (Inl e, nd) \<Rightarrow> (Inl e, nd)
      | (Inr fault, nd) \<Rightarrow>
          if fault = Some QUERY_TIMEOUT then (Inl (NodeTimeout ''query: timed out''), nd)
          else
            (let answer = (\<lambda>q. \<lparr> ts_result = q, ts_block = None, ts_solid = False,
                                ts_receipt = None \<rparr>)
             in case dict_get (nd_txs nd) tid of
                  None \<Rightarrow> (Inr (answer UNKNOWN), nd)
                | Some r \<Rightarrow>
                    (case rec_included_block r of
                       None \<Rightarrow> (Inr (answer (if st_expiration (rec_tx r) \<le> clk
                                            then UNKNOWN else PENDING)), nd)
                     | Some b \<Rightarrow>
                         (Inr \<lparr> ts_result = INCLUDED, ts_block = Some b,
                                ts_solid = (b \<le> solid_block nd), ts_receipt = receipt r \<rparr>, nd))))"

section \<open>Forensics\<close>

definition included_txids :: "node \<Rightarrow> string set" where
  "included_txids nd = fst ` set (filter (\<lambda>(t, r). rec_included_block r \<noteq> None) (nd_txs nd))"

definition successful_txids :: "node \<Rightarrow> string set" where
  "successful_txids nd =
     fst ` set (filter (\<lambda>(t, r). rec_included_block r \<noteq> None \<and> receipt r = Some ''SUCCESS'')
                 (nd_txs nd))"

definition accepted_count :: "node \<Rightarrow> string \<Rightarrow> nat" where
  "accepted_count nd tid =
     length (filter (\<lambda>e. le_txid e = tid \<and> le_outcome e \<in> {''accepted'', ''timeout-accepted''})
              (broadcast_log nd))"

definition tx_amount :: "node \<Rightarrow> string \<Rightarrow> exn + int" where
  "tx_amount nd tid =
     (case dict_get (nd_txs nd) tid of
        None \<Rightarrow> Inl (KeyError tid)
      | Some r \<Rightarrow> int_of_str (c_amount_units (rd_contract (st_raw_data (rec_tx r)))))"

section \<open>The chain as an interface\<close>

text \<open>
  What the rebuild argument needs of a chain: the timestamp of its tip never falls, a transaction
  lands only in a block stamped before the expiration under which the node holds it, and the node
  holds no expiration nobody sent.  Under these laws a transaction whose every copy has expired
  by the tip, and which has not landed, never lands.
\<close>

locale expiring_chain =
  fixes good :: "'s \<Rightarrow> bool"
    and step :: "'s \<Rightarrow> 's \<Rightarrow> bool"
    and tip :: "'s \<Rightarrow> time"
    and landed :: "'s \<Rightarrow> 'i set"
    and held :: "'s \<Rightarrow> 'i \<Rightarrow> time option"
    and sendable :: "'i \<Rightarrow> time \<Rightarrow> bool"
  assumes good_step: "good s \<Longrightarrow> step s s' \<Longrightarrow> good s'"
    and tip_mono: "good s \<Longrightarrow> step s s' \<Longrightarrow> tip s \<le> tip s'"
    and lands_before_expiry: "good s \<Longrightarrow> step s s' \<Longrightarrow> i \<in> landed s' \<Longrightarrow> i \<notin> landed s \<Longrightarrow>
          \<exists>e. held s i = Some e \<and> tip s < e"
    and held_or_sent: "good s \<Longrightarrow> step s s' \<Longrightarrow> held s' i = Some e \<Longrightarrow>
          held s i = Some e \<or> sendable i e"
begin

definition dead :: "'s \<Rightarrow> 'i \<Rightarrow> bool" where
  "dead s i \<longleftrightarrow> i \<notin> landed s \<and> (\<forall>e. held s i = Some e \<or> sendable i e \<longrightarrow> e \<le> tip s)"

lemma dead_step:
  assumes "good s" "step s s'" "dead s i"
  shows "dead s' i"
  unfolding dead_def
proof (intro conjI allI impI)
  show "i \<notin> landed s'"
  proof
    assume "i \<in> landed s'"
    then obtain e where "held s i = Some e" "tip s < e"
      using lands_before_expiry [OF assms(1,2)] assms(3) unfolding dead_def by blast
    then show False
      using assms(3) unfolding dead_def by force
  qed
  fix e
  assume "held s' i = Some e \<or> sendable i e"
  then have "held s i = Some e \<or> sendable i e"
    using held_or_sent [OF assms(1,2)] by blast
  then have "e \<le> tip s"
    using assms(3) unfolding dead_def by blast
  also have "\<dots> \<le> tip s'"
    using tip_mono [OF assms(1,2)] .
  finally show "e \<le> tip s'" .
qed

lemma dead_forever: "step\<^sup>*\<^sup>* s s' \<Longrightarrow> good s \<Longrightarrow> dead s i \<Longrightarrow> good s' \<and> dead s' i"
  by (induction rule: rtranclp_induct) (auto intro: good_step dead_step)

end

section \<open>Well-formed nodes\<close>

definition head_time :: "node \<Rightarrow> time" where
  "head_time nd = (case dict_get (block_time nd) (nd_head nd) of None \<Rightarrow> 0 | Some t \<Rightarrow> t)"

text \<open>The blocks are consecutive up to the head and their timestamps rise strictly.\<close>

definition chain_wf :: "node \<Rightarrow> bool" where
  "chain_wf nd \<longleftrightarrow> heights nd \<noteq> [] \<and> heights nd = [hd (heights nd)..nd_head nd] \<and>
     sorted_wrt (<) (map snd (block_time nd))"

text \<open>
  An accepted transaction is filed under its txid; when it is in a block, the block exists, its
  timestamp precedes the expiration, and the receipt is one of the two texts.
\<close>

definition record_wf :: "node \<Rightarrow> string \<Rightarrow> tx_record \<Rightarrow> bool" where
  "record_wf nd k r \<longleftrightarrow> k = st_txid (rec_tx r) \<and>
     (case rec_included_block r of
        None \<Rightarrow> receipt r = None
      | Some b \<Rightarrow> receipt r \<in> {Some ''SUCCESS'', Some ''REVERTED''} \<and>
          (\<exists>t. dict_get (block_time nd) b = Some t \<and> t < st_expiration (rec_tx r)))"

definition node_wf :: "node \<Rightarrow> bool" where
  "node_wf nd \<longleftrightarrow> chain_wf nd \<and> distinct (map fst (nd_txs nd)) \<and>
     (\<forall>(k, r) \<in> set (nd_txs nd). record_wf nd k r)"

text \<open>The expiration under which the node holds a txid.\<close>

definition held_expiration :: "node \<Rightarrow> string \<Rightarrow> time option" where
  "held_expiration nd tid = map_option (\<lambda>r. st_expiration (rec_tx r)) (dict_get (nd_txs nd) tid)"

text \<open>One step of the node's life, when every broadcast is of a transaction in \<open>P\<close>: the clock
  may show anything at each call.\<close>

inductive node_step :: "(bytes \<Rightarrow> bytes) \<Rightarrow> (signedtx \<Rightarrow> bool) \<Rightarrow> node \<Rightarrow> node \<Rightarrow> bool"
  for sha P where
  ns_block: "produce_block clk nd = Inr nd' \<Longrightarrow> node_step sha P nd nd'"
| ns_broadcast: "P tx \<Longrightarrow> broadcast sha clk nd tx wid = (res, nd') \<Longrightarrow> node_step sha P nd nd'"
| ns_query: "find_tx clk nd tid = (res, nd') \<Longrightarrow> node_step sha P nd nd'"
| ns_script: "node_step sha P nd (script nd ch fs)"

text \<open>The record of a newly accepted transaction, and what a block may do to a record.\<close>

definition fresh_record :: "node \<Rightarrow> signedtx \<Rightarrow> tx_record" where
  "fresh_record nd tx = \<lparr> rec_tx = tx, accepted_at_block = nd_head nd, rec_included_block = None,
     receipt = None \<rparr>"

definition record_advances :: "int \<Rightarrow> time \<Rightarrow> tx_record \<Rightarrow> tx_record \<Rightarrow> bool" where
  "record_advances h t r r' \<longleftrightarrow> r' = r \<or>
     (rec_included_block r = None \<and> t < st_expiration (rec_tx r) \<and>
      (r' = r\<lparr>rec_included_block := Some h, receipt := Some ''SUCCESS''\<rparr> \<or>
       r' = r\<lparr>rec_included_block := Some h, receipt := Some ''REVERTED''\<rparr>))"

section \<open>Lemmas\<close>

text \<open>What each method leaves alone.\<close>

lemma take_fault_frame: "take_fault nd ch = (res, nd') \<Longrightarrow> \<exists>f. nd' = nd\<lparr>nd_faults := f\<rparr>"
  by (auto simp: take_fault_def split: option.splits list.splits
      intro: exI [of _ "nd_faults nd"])

lemma script_frame: "\<exists>f. script nd ch fs = nd\<lparr>nd_faults := f\<rparr>"
  by (auto simp: script_def Let_def)

lemma find_tx_frame: "find_tx clk nd tid = (res, nd') \<Longrightarrow> \<exists>f. nd' = nd\<lparr>nd_faults := f\<rparr>"
  by (auto simp: find_tx_def Let_def split: prod.splits sum.splits option.splits if_splits
      dest: take_fault_frame)

lemma log_same: "nd = nd\<lparr>broadcast_log := broadcast_log nd\<rparr>"
  by (cases nd) simp

text \<open>A broadcast files the transaction or leaves the chain alone.\<close>

lemma broadcast_effect:
  assumes "broadcast sha clk nd tx wid = (res, nd')"
  obtains (same) f l where "nd' = nd\<lparr>nd_faults := f, broadcast_log := l\<rparr>"
  | (filed) f l where "nd' = nd\<lparr>nd_faults := f,
        nd_txs := dict_set (nd_txs nd) (st_txid tx) (fresh_record nd tx), broadcast_log := l\<rparr>"
      "dict_get (nd_txs nd) (st_txid tx) = None" "clk < st_expiration tx"
      "verify sha (nd_signer nd) tx = Inr True"
proof -
  obtain r nd1 where tf: "take_fault nd ''broadcast'' = (r, nd1)"
    by (cases "take_fault nd ''broadcast''")
  then obtain f where nd1: "nd1 = nd\<lparr>nd_faults := f\<rparr>"
    using take_fault_frame by blast
  show thesis
  proof (cases r)
    case (Inl e)
    then have "nd' = nd1"
      using assms tf by (simp add: broadcast_def)
    then have "nd' = nd\<lparr>nd_faults := f, broadcast_log := broadcast_log nd\<rparr>"
      using nd1 by (cases nd) simp
    then show thesis by (rule same)
  next
    case (Inr fault)
    have "(\<exists>l. nd' = nd1\<lparr>broadcast_log := l\<rparr>) \<or>
      (\<exists>l. nd' = nd1\<lparr>nd_txs := dict_set (nd_txs nd1) (st_txid tx) (fresh_record nd1 tx),
             broadcast_log := l\<rparr> \<and>
          dict_get (nd_txs nd1) (st_txid tx) = None \<and> clk < st_expiration tx \<and>
          verify sha (nd_signer nd1) tx = Inr True)"
      using assms tf Inr unfolding broadcast_def log_it_def fresh_record_def
      by (auto simp: Let_def split: if_splits sum.splits intro: log_same)
    then show thesis
      using nd1 same filed by (auto simp: fresh_record_def)
  qed
qed

lemma include_one_advances:
  "include_one h t d r faults = (r', faults') \<Longrightarrow> record_advances h t r r'"
  by (auto simp: include_one_def record_advances_def split: if_splits prod.splits)

lemma include_txs_advances:
  assumes "include_txs h t d txs faults = (txs', faults')"
  shows "list_all2 (\<lambda>(k, r) (k', r'). k' = k \<and> record_advances h t r r') txs txs'"
  using assms
proof (induction txs arbitrary: faults txs')
  case (Cons x rs)
  obtain k r where x: "x = (k, r)" by (cases x)
  obtain r' f' where one: "include_one h t d r faults = (r', f')" by fastforce
  obtain rs' f'' where rest: "include_txs h t d rs f' = (rs', f'')" by fastforce
  show ?case
    using Cons.prems x one rest include_one_advances [OF one] Cons.IH [of f' rs']
    by auto
qed simp

lemma include_txs_get:
  assumes "list_all2 (\<lambda>(k, r) (k', r'). k' = k \<and> R r r') txs txs'"
  shows "rel_option R (dict_get txs i) (dict_get txs' i)"
  using assms by (induction rule: list_all2_induct) auto

lemma include_txs_keys:
  assumes "list_all2 (\<lambda>(k, r) (k', r'). k' = k \<and> R r r') txs txs'"
  shows "map fst txs' = map fst txs"
  using assms by (induction rule: list_all2_induct) auto

text \<open>The shape of a produced block.\<close>

lemma produce_block_effect:
  assumes "produce_block clk nd = Inr nd'"
  obtains prev t txs f where "dict_get (block_time nd) (nd_head nd) = Some prev" "prev < t"
    "nd' = nd\<lparr>nd_head := nd_head nd + 1, block_time := dict_set (block_time nd) (nd_head nd + 1) t,
       nd_txs := txs, nd_faults := f\<rparr>"
    "list_all2 (\<lambda>(k, r) (k', r'). k' = k \<and> record_advances (nd_head nd + 1) t r r') (nd_txs nd) txs"
    "t = next_block_time clk prev"
proof -
  obtain prev where prev: "dict_get (block_time nd) (nd_head nd) = Some prev"
    using assms by (auto simp: produce_block_def split: option.splits)
  let ?t = "next_block_time clk prev"
  have "prev < ?t"
    by (simp add: next_block_time_def milliseconds_def)
  moreover obtain txs f where
    inc: "include_txs (nd_head nd + 1) ?t (inclusion_delay nd) (nd_txs nd) (nd_faults nd) = (txs, f)"
    by fastforce
  ultimately show thesis
    using assms prev include_txs_advances [OF inc] that
    by (auto simp: produce_block_def Let_def)
qed

text \<open>The chain invariant.\<close>

lemma chain_wf_frame [simp]:
  "chain_wf (nd\<lparr>nd_faults := f\<rparr>) = chain_wf nd"
  "chain_wf (nd\<lparr>broadcast_log := l\<rparr>) = chain_wf nd"
  "chain_wf (nd\<lparr>nd_txs := x\<rparr>) = chain_wf nd"
  by (simp_all add: chain_wf_def heights_def)

lemma chain_wf_new [simp]: "chain_wf (new_node clk lag d sg)"
  by (simp add: chain_wf_def heights_def new_node_def)

lemma chain_wf_heights:
  "chain_wf nd \<Longrightarrow> set (heights nd) = {hd (heights nd)..nd_head nd} \<and> hd (heights nd) \<le> nd_head nd"
  unfolding chain_wf_def by (metis atLeastatMost_empty_iff2 set_empty set_upto)

lemma chain_wf_distinct: "chain_wf nd \<Longrightarrow> distinct (map fst (block_time nd))"
  unfolding chain_wf_def heights_def by (metis distinct_upto)

lemma chain_wf_head:
  assumes "chain_wf nd"
  obtains b where "block_time nd = b @ [(nd_head nd, head_time nd)]"
proof -
  have ne: "block_time nd \<noteq> []"
    using assms by (auto simp: chain_wf_def heights_def)
  have "last (heights nd) = nd_head nd"
    using chain_wf_heights [OF assms] assms unfolding chain_wf_def
    by (metis last_appendR last_snoc list.discI snoc_eq_iff_butlast upto_rec2)
  then have l: "last (block_time nd) = (nd_head nd, snd (last (block_time nd)))"
    using ne by (simp add: heights_def last_map prod_eq_iff)
  then have "(nd_head nd, snd (last (block_time nd))) \<in> set (block_time nd)"
    using ne by (metis last_in_set)
  then have "head_time nd = snd (last (block_time nd))"
    using chain_wf_distinct [OF assms] by (simp add: head_time_def)
  then have "block_time nd = butlast (block_time nd) @ [(nd_head nd, head_time nd)]"
    using ne l by (metis append_butlast_last_id)
  then show thesis by (rule that)
qed

lemma chain_wf_head_time:
  "chain_wf nd \<Longrightarrow> dict_get (block_time nd) (nd_head nd) = Some (head_time nd)"
  by (rule chain_wf_head) (auto simp: dict_get_distinct [symmetric] chain_wf_distinct)

lemma chain_wf_time_le:
  assumes "chain_wf nd" "dict_get (block_time nd) h = Some t"
  shows "t \<le> head_time nd"
proof -
  obtain b where b: "block_time nd = b @ [(nd_head nd, head_time nd)]"
    using assms(1) by (rule chain_wf_head)
  then have "sorted_wrt (<) (map snd b @ [head_time nd])"
    using assms(1) by (simp add: chain_wf_def)
  then have "\<forall>x \<in> set (map snd b). x < head_time nd"
    by (simp add: sorted_wrt_append)
  moreover have "(h, t) \<in> set (block_time nd)"
    using assms(2) by (rule dict_get_mem)
  ultimately show ?thesis
    using b by force
qed

text \<open>The solid block is on the chain, so its timestamp is at most that of the tip.\<close>

lemma solid_now_le_head:
  assumes "chain_wf nd" "solid_now nd = Inr s"
  shows "s \<le> head_time nd"
  using assms chain_wf_time_le
  by (auto simp: solid_now_def Let_def split: if_splits option.splits)

lemma chain_wf_extend:
  assumes "chain_wf nd" "head_time nd < t"
    and nd': "nd_head nd' = nd_head nd + 1"
      "block_time nd' = dict_set (block_time nd) (nd_head nd + 1) t"
  shows "chain_wf nd' \<and> head_time nd' = t"
proof -
  obtain b where b: "block_time nd = b @ [(nd_head nd, head_time nd)]"
    using assms(1) by (rule chain_wf_head)
  have "nd_head nd + 1 \<notin> fst ` set (block_time nd)"
    using chain_wf_heights [OF assms(1)] by (auto simp: heights_def)
  then have bt: "block_time nd' = block_time nd @ [(nd_head nd + 1, t)]"
    by (simp add: nd' dict_set_set_fresh)
  have le: "hd (heights nd) \<le> nd_head nd"
    using chain_wf_heights [OF assms(1)] by simp
  have h: "heights nd' = heights nd @ [nd_head nd + 1]"
    by (simp add: heights_def bt)
  then have "heights nd' = [hd (heights nd)..nd_head nd + 1]"
    using assms(1) le upto_rec2 [of "hd (heights nd)" "nd_head nd + 1"]
    unfolding chain_wf_def by simp
  moreover have "hd (heights nd') = hd (heights nd)"
    using h assms(1) by (simp add: chain_wf_def)
  moreover have "\<forall>x \<in> set (map snd (block_time nd)). x < t"
  proof
    fix x assume "x \<in> set (map snd (block_time nd))"
    then obtain k where "dict_get (block_time nd) k = Some x"
      using chain_wf_distinct [OF assms(1)] by (auto simp: dict_get_distinct [symmetric])
    then show "x < t"
      using chain_wf_time_le [OF assms(1)] assms(2) by fastforce
  qed
  then have "sorted_wrt (<) (map snd (block_time nd'))"
    using assms(1) by (simp add: bt sorted_wrt_append chain_wf_def)
  moreover have "heights nd' \<noteq> []"
    using h by simp
  ultimately have wf: "chain_wf nd'"
    unfolding chain_wf_def nd'(1) by metis
  then show ?thesis
    by (simp add: head_time_def nd')
qed

lemma record_wf_frame [simp]:
  "record_wf (nd\<lparr>nd_faults := f\<rparr>) k r = record_wf nd k r"
  "record_wf (nd\<lparr>broadcast_log := l\<rparr>) k r = record_wf nd k r"
  "record_wf (nd\<lparr>nd_txs := x\<rparr>) k r = record_wf nd k r"
  by (simp_all add: record_wf_def split: option.splits)

lemma node_wf_frame [simp]:
  "node_wf (nd\<lparr>nd_faults := f\<rparr>) = node_wf nd"
  "node_wf (nd\<lparr>broadcast_log := l\<rparr>) = node_wf nd"
  by (simp_all add: node_wf_def)

lemma node_wf_new [simp]: "node_wf (new_node clk lag d sg)"
  by (simp add: node_wf_def) (simp add: new_node_def)

lemma node_wf_get: "node_wf nd \<Longrightarrow> dict_get (nd_txs nd) k = Some r \<Longrightarrow> record_wf nd k r"
  unfolding node_wf_def by (auto dest: dict_get_mem)

lemma record_wf_fresh: "record_wf nd (st_txid tx) (fresh_record nd tx)"
  by (simp add: record_wf_def fresh_record_def)

lemma set_dict_set: "set (dict_set d k v) \<subseteq> insert (k, v) (set d)"
  by (induction d) auto

lemma node_wf_broadcast:
  assumes "node_wf nd" "broadcast sha clk nd tx wid = (res, nd')"
  shows "node_wf nd'"
  using assms(2)
proof (cases rule: broadcast_effect)
  case (filed f l)
  have "\<forall>(k, r) \<in> set (dict_set (nd_txs nd) (st_txid tx) (fresh_record nd tx)). record_wf nd k r"
    using assms(1) set_dict_set [of "st_txid tx" "fresh_record nd tx" "nd_txs nd"] record_wf_fresh
    unfolding node_wf_def by fastforce
  then show ?thesis
    using assms(1) filed(1) by (simp add: node_wf_def)
qed (use assms(1) in simp)

lemma head_time_produce:
  assumes "chain_wf nd" "produce_block clk nd = Inr nd'"
  shows "chain_wf nd' \<and> head_time nd < head_time nd'"
  using assms(2)
proof (rule produce_block_effect)
  fix prev t txs f
  assume p: "dict_get (block_time nd) (nd_head nd) = Some prev" "prev < t"
    "nd' = nd\<lparr>nd_head := nd_head nd + 1, block_time := dict_set (block_time nd) (nd_head nd + 1) t,
       nd_txs := txs, nd_faults := f\<rparr>"
  then have "head_time nd < t"
    using chain_wf_head_time [OF assms(1)] by simp
  with p(3) show "chain_wf nd' \<and> head_time nd < head_time nd'"
    using chain_wf_extend [OF assms(1), of t nd'] by simp
qed

lemma record_wf_advances:
  assumes "record_wf nd k r" "record_advances h t r r'"
    and "dict_get (block_time nd') h = Some t"
    and "\<forall>b x. dict_get (block_time nd) b = Some x \<longrightarrow> dict_get (block_time nd') b = Some x"
  shows "record_wf nd' k r'"
  using assms unfolding record_wf_def record_advances_def
  by (auto split: option.splits)

lemma node_wf_produce_block:
  assumes "node_wf nd" "produce_block clk nd = Inr nd'"
  shows "node_wf nd'"
  using assms(2)
proof (rule produce_block_effect)
  fix prev t txs f
  assume p: "nd' = nd\<lparr>nd_head := nd_head nd + 1,
       block_time := dict_set (block_time nd) (nd_head nd + 1) t, nd_txs := txs, nd_faults := f\<rparr>"
    and l: "list_all2 (\<lambda>(k, r) (k', r'). k' = k \<and> record_advances (nd_head nd + 1) t r r')
              (nd_txs nd) txs"
  have wf: "chain_wf nd" using assms(1) by (simp add: node_wf_def)
  have old: "\<forall>b x. dict_get (block_time nd) b = Some x \<longrightarrow> dict_get (block_time nd') b = Some x"
  proof (intro allI impI)
    fix b x assume b: "dict_get (block_time nd) b = Some x"
    then have "b \<in> set (heights nd)"
      by (force simp: heights_def dest: dict_get_mem)
    then have "b \<noteq> nd_head nd + 1"
      using chain_wf_heights [OF wf] by auto
    with b p show "dict_get (block_time nd') b = Some x" by simp
  qed
  have new: "dict_get (block_time nd') (nd_head nd + 1) = Some t"
    using p by simp
  have "record_wf nd' k r'" if "(k, r') \<in> set txs" for k r'
  proof -
    obtain r where "(k, r) \<in> set (nd_txs nd)" "record_advances (nd_head nd + 1) t r r'"
      using l \<open>(k, r') \<in> set txs\<close> by (auto simp: list_all2_conv_all_nth in_set_conv_nth) force
    with assms(1) show ?thesis
      using record_wf_advances [OF _ _ new old] unfolding node_wf_def by blast
  qed
  then show "node_wf nd'"
    using assms(1) include_txs_keys [OF l] head_time_produce [OF wf assms(2)] p
    by (auto simp: node_wf_def)
qed

lemma node_wf_step:
  assumes "node_step sha P nd nd'" "node_wf nd"
  shows "node_wf nd'"
  using assms
proof (cases rule: node_step.cases)
  case (ns_block clk)
  with assms(2) show ?thesis by (auto intro: node_wf_produce_block)
next
  case (ns_broadcast tx clk wid res)
  with assms(2) show ?thesis by (auto intro: node_wf_broadcast)
next
  case (ns_query clk tid res)
  with assms(2) show ?thesis by (auto dest: find_tx_frame)
next
  case (ns_script ch fs)
  with assms(2) show ?thesis using script_frame [of nd ch fs] by auto
qed

text \<open>What is on the chain, read off the records.\<close>

lemma included_iff:
  "node_wf nd \<Longrightarrow> t \<in> included_txids nd \<longleftrightarrow>
     (\<exists>r. dict_get (nd_txs nd) t = Some r \<and> rec_included_block r \<noteq> None)"
  unfolding node_wf_def included_txids_def
  by (force simp flip: dict_get_distinct)

lemma successful_iff:
  "node_wf nd \<Longrightarrow> t \<in> successful_txids nd \<longleftrightarrow>
     (\<exists>r. dict_get (nd_txs nd) t = Some r \<and> rec_included_block r \<noteq> None \<and>
          receipt r = Some ''SUCCESS'')"
  unfolding node_wf_def successful_txids_def
  by (force simp flip: dict_get_distinct)

text \<open>One step of the node, seen through the interface.\<close>

lemma produce_block_get:
  assumes "produce_block clk nd = Inr nd'" "chain_wf nd"
  shows "rel_option (record_advances (nd_head nd + 1) (head_time nd'))
    (dict_get (nd_txs nd) i) (dict_get (nd_txs nd') i)"
  using assms(1)
proof (rule produce_block_effect)
  fix prev t txs f
  assume p: "dict_get (block_time nd) (nd_head nd) = Some prev" "prev < t"
    "nd' = nd\<lparr>nd_head := nd_head nd + 1, block_time := dict_set (block_time nd) (nd_head nd + 1) t,
       nd_txs := txs, nd_faults := f\<rparr>"
    "list_all2 (\<lambda>(k, r) (k', r'). k' = k \<and> record_advances (nd_head nd + 1) t r r') (nd_txs nd) txs"
  have "head_time nd' = t"
    by (simp add: head_time_def p(3))
  then show ?thesis
    using include_txs_get [OF p(4), of i] p(3) by simp
qed

lemma node_step_get:
  assumes "node_step sha P nd nd'" "node_wf nd"
  shows "(\<exists>h. rel_option (record_advances h (head_time nd'))
      (dict_get (nd_txs nd) i) (dict_get (nd_txs nd') i) \<and> head_time nd < head_time nd') \<or>
    (dict_get (nd_txs nd') i = dict_get (nd_txs nd) i \<and> head_time nd' = head_time nd) \<or>
    (\<exists>tx. P tx \<and> st_txid tx = i \<and> dict_get (nd_txs nd) i = None \<and>
      dict_get (nd_txs nd') i = Some (fresh_record nd tx) \<and> head_time nd' = head_time nd)"
  using assms(1)
proof (cases rule: node_step.cases)
  case (ns_block clk)
  have "chain_wf nd" using assms(2) by (simp add: node_wf_def)
  with produce_block_get [OF ns_block] head_time_produce [OF _ ns_block] show ?thesis
    by blast
next
  case (ns_broadcast tx clk wid res)
  from ns_broadcast(2) show ?thesis
    by (cases rule: broadcast_effect) (use ns_broadcast(1) in \<open>auto simp: head_time_def\<close>)
next
  case (ns_query clk tid res)
  then show ?thesis by (auto dest!: find_tx_frame simp: head_time_def)
next
  case (ns_script ch fs)
  then show ?thesis using script_frame [of nd ch fs] by (auto simp: head_time_def)
qed

lemma node_step_lands:
  assumes "node_step sha P nd nd'" "node_wf nd" "i \<in> included_txids nd'" "i \<notin> included_txids nd"
  shows "\<exists>e. held_expiration nd i = Some e \<and> head_time nd < e"
proof -
  obtain r' where r': "dict_get (nd_txs nd') i = Some r'" "rec_included_block r' \<noteq> None"
    using assms included_iff node_wf_step by blast
  have old: "rec_included_block r = None" if "dict_get (nd_txs nd) i = Some r" for r
    using assms(2,4) included_iff that by blast
  show ?thesis
    using node_step_get [OF assms(1,2), of i] r' old
    by (auto simp: record_advances_def held_expiration_def fresh_record_def option_rel_Some2)
qed

lemma node_step_held:
  assumes "node_step sha P nd nd'" "node_wf nd" "held_expiration nd' i = Some e"
  shows "held_expiration nd i = Some e \<or> (\<exists>tx. P tx \<and> st_txid tx = i \<and> st_expiration tx = e)"
  using node_step_get [OF assms(1,2), of i] assms(3)
  unfolding record_advances_def held_expiration_def fresh_record_def
  by (elim disjE exE conjE; cases "dict_get (nd_txs nd) i") auto

lemma node_step_head_time:
  assumes "node_step sha P nd nd'" "node_wf nd"
  shows "head_time nd \<le> head_time nd'"
  using node_step_get [OF assms] by fastforce

interpretation mock: expiring_chain node_wf "node_step sha P" head_time included_txids
  held_expiration "\<lambda>i e. \<exists>tx. P tx \<and> st_txid tx = i \<and> st_expiration tx = e" for sha P
  by unfold_locales
    (auto intro: node_wf_step node_step_head_time node_step_lands dest: node_step_held)

text \<open>Once accepted, a transaction keeps its bytes and, once included, its block and receipt.\<close>

lemma node_step_keeps:
  assumes "node_step sha P nd nd'" "node_wf nd" "dict_get (nd_txs nd) i = Some r"
  obtains r' where "dict_get (nd_txs nd') i = Some r'" "rec_tx r' = rec_tx r"
    "rec_included_block r \<noteq> None \<Longrightarrow> r' = r"
  using node_step_get [OF assms(1,2), of i] assms(3)
  by (auto simp: record_advances_def option_rel_Some1)

lemma node_run_keeps:
  assumes "(node_step sha P)\<^sup>*\<^sup>* nd nd'" "node_wf nd" "dict_get (nd_txs nd) i = Some r"
  shows "node_wf nd' \<and> (\<exists>r'. dict_get (nd_txs nd') i = Some r' \<and> rec_tx r' = rec_tx r \<and>
    (rec_included_block r \<noteq> None \<longrightarrow> r' = r))"
  using assms
proof (induction rule: rtranclp_induct)
  case (step y z)
  then obtain r1 where r1: "node_wf y" "dict_get (nd_txs y) i = Some r1" "rec_tx r1 = rec_tx r"
    "rec_included_block r \<noteq> None \<longrightarrow> r1 = r" by blast
  then obtain r2 where "dict_get (nd_txs z) i = Some r2" "rec_tx r2 = rec_tx r1"
    "rec_included_block r1 \<noteq> None \<Longrightarrow> r2 = r1"
    using step.hyps(2) by (blast elim: node_step_keeps)
  with r1 step.hyps(2) show ?case by (auto intro: node_wf_step)
qed auto

text \<open>The log counts one acceptance for each transaction held.\<close>

definition log_wf :: "node \<Rightarrow> bool" where
  "log_wf nd \<longleftrightarrow> (\<forall>i. accepted_count nd i = (if dict_get (nd_txs nd) i = None then 0 else 1))"

lemma accepted_count_log_it [simp]:
  "accepted_count (log_it nd tx wid out) i = accepted_count nd i +
     (if st_txid tx = i \<and> out \<in> {''accepted'', ''timeout-accepted''} then 1 else 0)"
  by (simp add: accepted_count_def log_it_def)

lemma accepted_count_frame [simp]:
  "accepted_count (nd\<lparr>nd_txs := x\<rparr>) i = accepted_count nd i"
  "accepted_count (nd\<lparr>nd_faults := f\<rparr>) i = accepted_count nd i"
  by (simp_all add: accepted_count_def)

lemma log_it_txs [simp]: "nd_txs (log_it nd tx wid out) = nd_txs nd"
  by (simp add: log_it_def)

lemma log_wf_broadcast:
  assumes "log_wf nd" "broadcast sha clk nd tx wid = (res, nd')"
  shows "log_wf nd'"
proof -
  obtain r nd1 where tf: "take_fault nd ''broadcast'' = (r, nd1)"
    by (cases "take_fault nd ''broadcast''")
  then obtain f where nd1: "nd1 = nd\<lparr>nd_faults := f\<rparr>"
    using take_fault_frame by blast
  have "accepted_count nd' i = (if dict_get (nd_txs nd') i = None then 0 else 1)" for i
  proof -
    have "accepted_count nd1 i = (if dict_get (nd_txs nd1) i = None then 0 else 1)"
      using assms(1) nd1 by (simp add: log_wf_def)
    then show ?thesis
      using assms(2) tf
      by (simp add: broadcast_def Let_def split: sum.splits if_splits) (auto split: if_splits)
  qed
  then show ?thesis by (simp add: log_wf_def)
qed

lemma log_wf_step:
  assumes "node_step sha P nd nd'" "node_wf nd" "log_wf nd"
  shows "log_wf nd'"
  using assms(1)
proof (cases rule: node_step.cases)
  case (ns_block clk)
  have "chain_wf nd" using assms(2) by (simp add: node_wf_def)
  then have "dict_get (nd_txs nd') i = None \<longleftrightarrow> dict_get (nd_txs nd) i = None" for i
    using produce_block_get [OF ns_block, of i]
    by (cases "dict_get (nd_txs nd) i"; cases "dict_get (nd_txs nd') i") auto
  moreover have "broadcast_log nd' = broadcast_log nd"
    using ns_block by (auto elim: produce_block_effect)
  ultimately show ?thesis
    using assms(3) unfolding log_wf_def by (simp add: accepted_count_def)
next
  case (ns_broadcast tx clk wid res)
  with assms(3) show ?thesis by (auto intro: log_wf_broadcast)
next
  case (ns_query clk tid res)
  with assms(3) show ?thesis by (fastforce dest!: find_tx_frame simp: log_wf_def)
next
  case (ns_script ch fs)
  with assms(3) show ?thesis
    using script_frame [of nd ch fs] by (fastforce simp: log_wf_def)
qed

lemma log_wf_run:
  "(node_step sha P)\<^sup>*\<^sup>* nd nd' \<Longrightarrow> node_wf nd \<Longrightarrow> log_wf nd \<Longrightarrow> node_wf nd' \<and> log_wf nd'"
  by (induction rule: rtranclp_induct) (auto intro: node_wf_step log_wf_step)

lemma log_wf_new: "log_wf (new_node clk lag d sg)"
  by (simp add: log_wf_def accepted_count_def new_node_def)

text \<open>Blocks and the solid timestamp are always there on a well-formed node.\<close>

lemma produce_block_total: "chain_wf nd \<Longrightarrow> \<exists>nd'. produce_block clk nd = Inr nd'"
  using chain_wf_head_time [of nd] by (simp add: produce_block_def Let_def split: prod.splits)

lemma produce_blocks_total:
  "node_wf nd \<Longrightarrow> \<exists>nd'. produce_blocks clks n nd = Inr nd' \<and> node_wf nd' \<and>
     nd_head nd' = nd_head nd + int n \<and> (\<forall>k < n. clks k \<le> head_time nd') \<and>
     head_time nd \<le> head_time nd'"
proof (induction n arbitrary: nd clks)
  case (Suc n)
  have wf: "chain_wf nd" using Suc.prems by (simp add: node_wf_def)
  then obtain nd1 where b: "produce_block (clks 0) nd = Inr nd1"
    using produce_block_total by blast
  have wf1: "node_wf nd1" using node_wf_produce_block [OF Suc.prems b] .
  from b have h: "nd_head nd1 = nd_head nd + 1 \<and> clks 0 \<le> head_time nd1"
    by (rule produce_block_effect) (auto simp: head_time_def next_block_time_def milliseconds_def)
  from Suc.IH [OF wf1, of "\<lambda>k. clks (Suc k)"] obtain nd2 where
    n2: "produce_blocks (\<lambda>k. clks (Suc k)) n nd1 = Inr nd2" "node_wf nd2"
      "nd_head nd2 = nd_head nd1 + int n" "\<forall>k < n. clks (Suc k) \<le> head_time nd2"
      "head_time nd1 \<le> head_time nd2" by blast
  have "clks k \<le> head_time nd2" if "k < Suc n" for k
    using that n2(4,5) h by (cases k) auto
  then show ?case
    using b h n2 head_time_produce [OF wf b] by auto
qed simp

lemma solid_now_total:
  assumes "chain_wf nd"
  shows "\<exists>s. solid_now nd = Inr s"
proof -
  have ne: "heights nd \<noteq> []" using assms by (simp add: chain_wf_def)
  let ?below = "filter (\<lambda>h. h \<le> solid_block nd) (heights nd)"
  let ?h = "if ?below = [] then Min (set (heights nd)) else Max (set ?below)"
  have "?below \<noteq> [] \<Longrightarrow> Max (set ?below) \<in> set ?below"
    using Max_in [of "set ?below"] by (metis List.finite_set set_empty)
  then have "?h \<in> set (heights nd)" using ne by auto
  then obtain t where "(?h, t) \<in> set (block_time nd)" by (auto simp: heights_def)
  then have "dict_get (block_time nd) ?h = Some t"
    using chain_wf_distinct [OF assms] by simp
  then show ?thesis using ne by (auto simp: solid_now_def Let_def)
qed

section \<open>Sample nodes for the concrete instances\<close>

definition sample_tx :: signedtx where
  "sample_tx =
     \<lparr> st_raw_data = \<lparr> rd_contract = \<lparr> c_type = [], contract_address = [], c_call = [], c_to = [],
          c_amount_units = ''5'' \<rparr>, ref_block_num = 1000, ref_block_hash = [],
          rd_timestamp_ms = 0, rd_expiration_ms = 0 \<rparr>,
       st_txid = ''t'', st_expiration = 40, st_signature = ''hotwallet-1:'' \<rparr>"

definition sample_record :: tx_record where
  "sample_record = \<lparr> rec_tx = sample_tx, accepted_at_block = 1000, rec_included_block = None,
     receipt = None \<rparr>"

definition sample_node :: "time \<Rightarrow> node" where
  "sample_node t = (new_node 0 0 1 default_signer)\<lparr>nd_head := (if t = 50 then 1001 else 1002),
     block_time := (if t = 50 then [(1000, 0), (1001, 50)] else [(1000, 0), (1001, 50), (1002, t)]),
     nd_txs := [(''t'', sample_record)]\<rparr>"

definition landed_record :: tx_record where
  "landed_record = sample_record\<lparr>rec_included_block := Some 1001, receipt := Some ''SUCCESS''\<rparr>"

definition landed_node :: node where
  "landed_node = (new_node 0 0 1 default_signer)\<lparr>nd_head := 1001,
     block_time := [(1000, 0), (1001, 30)], nd_txs := [(''t'', landed_record)]\<rparr>"

definition sent_twice :: node where
  "sent_twice =
     snd (broadcast (\<lambda>_. []) 5
       (snd (broadcast (\<lambda>_. []) 5 (new_node 0 2 1 default_signer) sample_tx None)) sample_tx None)"

lemmas sample_defs = sample_node_def sample_record_def sample_tx_def landed_record_def
  landed_node_def new_node_def

lemma sample_verify: "verify (\<lambda>_. []) default_signer sample_tx = Inr True"
  by (simp add: sample_tx_def verify_def default_signer_def compare_digest_def hmac_hex_def
      hmac_digest_def bytes_hex_def is_ascii_def)

lemma sent_twice_held: "dict_get (nd_txs sent_twice) ''t'' \<noteq> None"
  using sample_verify
  by (simp add: sent_twice_def broadcast_def take_fault_def log_it_def new_node_def sample_tx_def)

section \<open>Properties\<close>

text \<open>
  C11. The rebuild theorem (\<open>README.md\<close>).  Take a node on which a txid is not in any block, and read
  its solidified timestamp.  If every copy of the transaction - the one the node holds and every
  one anybody can still send - has expired by that timestamp, then the txid is never included,
  whatever blocks, broadcasts, queries and faults follow and whatever the clocks show.
\<close>

theorem rebuild_theorem:
  assumes "node_wf nd" "i \<notin> included_txids nd" "solid_now nd = Inr s"
    and "\<forall>e. held_expiration nd i = Some e \<longrightarrow> e \<le> s"
    and "\<forall>tx. P tx \<and> st_txid tx = i \<longrightarrow> st_expiration tx \<le> s"
    and "(node_step sha P)\<^sup>*\<^sup>* nd nd'"
  shows "i \<notin> included_txids nd'"
proof -
  have "s \<le> head_time nd"
    using assms(1,3) solid_now_le_head by (simp add: node_wf_def)
  then have "mock.dead P nd i"
    using assms(2,4,5) unfolding mock.dead_def by fastforce
  then have "mock.dead P nd' i"
    using mock.dead_forever [OF assms(6,1)] by blast
  then show ?thesis
    by (simp add: mock.dead_def)
qed

theorem rebuild_theorem_witness:
  "''t'' \<notin> included_txids (sample_node 70)"
proof -
  have "node_step (\<lambda>_. []) (\<lambda>tx. tx = sample_tx) (sample_node 50) (sample_node 70)"
    by (rule ns_block [of 70]) (simp add: sample_defs produce_block_def include_one_def next_block_time_def)
  moreover have "node_wf (sample_node 50)"
    by (simp add: sample_defs node_wf_def chain_wf_def heights_def record_wf_def upto_rec1)
  moreover have "''t'' \<notin> included_txids (sample_node 50)" "solid_now (sample_node 50) = Inr 50"
    by (simp_all add: sample_defs included_txids_def solid_now_def heights_def solid_block_def)
  moreover have "held_expiration (sample_node 50) ''t'' = Some 40" "st_expiration sample_tx = 40"
    by (simp_all add: sample_defs held_expiration_def)
  ultimately show ?thesis
    using rebuild_theorem [of "sample_node 50" "''t''" 50 "\<lambda>tx. tx = sample_tx" "\<lambda>_. []"
        "sample_node 70"]
    by auto
qed

text \<open>
  Idempotent broadcast: however often and by whomever the same transaction is sent to a fresh
  node, the log records at most one acceptance of its txid, and exactly one when the node holds it.
\<close>

theorem accepted_once:
  assumes "(node_step sha P)\<^sup>*\<^sup>* (new_node clk lag d sg) nd"
  shows "accepted_count nd i = (if dict_get (nd_txs nd) i = None then 0 else 1)"
  using log_wf_run [OF assms node_wf_new log_wf_new] unfolding log_wf_def by blast

theorem accepted_once_witness:
  "accepted_count (sent_twice) ''t'' = 1"
proof -
  have "(node_step (\<lambda>_. []) (\<lambda>_. True))\<^sup>*\<^sup>* (new_node 0 2 1 default_signer) sent_twice"
    unfolding sent_twice_def
    by (rule rtranclp.rtrancl_into_rtrancl [OF r_into_rtranclp])
      (rule ns_broadcast [OF TrueI, where res = "fst _"], rule prod.collapse [symmetric])+
  then show ?thesis
    using accepted_once [of "\<lambda>_. []" "\<lambda>_. True" 0 2 1 default_signer sent_twice "''t''"]
    by (simp add: sent_twice_held)
qed

text \<open>
  C32. An inclusion is final and was legitimate: whatever blocks, broadcasts, queries and scripted faults a
  fresh node has seen, at whatever clock readings, a transaction that is then in a block stays in it with the
  same receipt under every later step, the receipt is one of the two texts, and the timestamp of that block
  precedes the expiration of the transaction.
\<close>

theorem inclusion_final:
  assumes "(node_step sha P)\<^sup>*\<^sup>* (new_node clk lag d sg) nd"
    and "dict_get (nd_txs nd) i = Some r" "rec_included_block r = Some b"
    and "(node_step sha P)\<^sup>*\<^sup>* nd nd'"
  shows "dict_get (nd_txs nd') i = Some r \<and> st_txid (rec_tx r) = i \<and>
    receipt r \<in> {Some ''SUCCESS'', Some ''REVERTED''} \<and>
    (\<exists>t. dict_get (block_time nd') b = Some t \<and> t < st_expiration (rec_tx r))"
proof -
  have "node_wf nd" using log_wf_run [OF assms(1) node_wf_new log_wf_new] by blast
  then have "node_wf nd'" "dict_get (nd_txs nd') i = Some r"
    using node_run_keeps [OF assms(4) _ assms(2)] assms(3) by auto
  then show ?thesis
    using node_wf_get [of nd' i r] assms(3) by (auto simp: record_wf_def)
qed

theorem inclusion_final_witness:
  "\<exists>nd r. (node_step (\<lambda>_. []) (\<lambda>_. True))\<^sup>*\<^sup>* (new_node 0 0 1 default_signer) nd \<and>
     dict_get (nd_txs nd) ''t'' = Some r \<and> rec_included_block r = Some 1001 \<and> receipt r = Some ''SUCCESS'' \<and>
     (\<exists>t. dict_get (block_time nd) 1001 = Some t \<and> t < st_expiration (rec_tx r))"
proof -
  let ?nd0 = "new_node 0 0 1 default_signer"
  let ?nd1 = "snd (broadcast (\<lambda>_. []) 5 ?nd0 sample_tx None)"
  obtain nd where b: "produce_block 30 ?nd1 = Inr nd"
    and nd: "dict_get (nd_txs nd) ''t'' = Some landed_record"
    using sample_verify
    by (simp add: broadcast_def take_fault_def log_it_def produce_block_def include_one_def pop_revert_def
        next_block_time_def setdefault_def sample_defs)
  have "node_step (\<lambda>_. []) (\<lambda>_. True) ?nd0 ?nd1"
    by (rule ns_broadcast [OF TrueI, where res = "fst _"]) (rule prod.collapse [symmetric])
  then have run: "(node_step (\<lambda>_. []) (\<lambda>_. True))\<^sup>*\<^sup>* ?nd0 nd"
    using ns_block [OF b] by (auto intro: rtranclp.rtrancl_into_rtrancl)
  have "rec_included_block landed_record = Some 1001" "receipt landed_record = Some ''SUCCESS''"
    by (simp_all add: landed_record_def)
  then show ?thesis
    using inclusion_final [OF run nd _ rtranclp.rtrancl_refl, of 1001] run nd by blast
qed

text \<open>
  C33. The answers of \<open>find_tx\<close>: on a well-formed node an \<open>INCLUDED\<close> answer is true and carries the
  block and its receipt, its \<open>solid\<close> flag says that the block is at or below the solid height, and
  \<open>UNKNOWN\<close> or \<open>PENDING\<close> means the txid is in no block; \<open>PENDING\<close> means the node holds an
  unexpired copy.
\<close>

theorem find_tx_truth:
  assumes "node_wf nd" "find_tx clk nd i = (Inr st, nd')"
  shows "(ts_result st = INCLUDED \<longleftrightarrow> i \<in> included_txids nd) \<and>
    (ts_result st = INCLUDED \<longrightarrow> (\<exists>r b. dict_get (nd_txs nd) i = Some r \<and>
        rec_included_block r = Some b \<and> ts_block st = Some b \<and> ts_receipt st = receipt r \<and>
        ts_solid st = (b \<le> nd_head nd - solidity_lag nd))) \<and>
    (ts_result st = PENDING \<longleftrightarrow> i \<notin> included_txids nd \<and>
        (\<exists>e. held_expiration nd i = Some e \<and> clk < e))"
proof -
  obtain r0 nd0 where tf: "take_fault nd ''query'' = (r0, nd0)" by fastforce
  then obtain f where "nd0 = nd\<lparr>nd_faults := f\<rparr>" using take_fault_frame by blast
  then have nd0: "nd_txs nd0 = nd_txs nd" "solid_block nd0 = solid_block nd"
    by (simp_all add: solid_block_def)
  from assms(2) tf nd0 show ?thesis
    unfolding included_iff [OF assms(1)] held_expiration_def find_tx_def solid_block_def
    by (auto simp: Let_def split: sum.splits if_splits option.splits)
qed

theorem find_tx_truth_witness:
  "''t'' \<in> included_txids landed_node \<and>
   fst (find_tx 0 landed_node ''t'') =
     Inr \<lparr> ts_result = INCLUDED, ts_block = Some 1001, ts_solid = True, ts_receipt = Some ''SUCCESS'' \<rparr>"
  using find_tx_truth [of landed_node 0 "''t''"
      "\<lparr> ts_result = INCLUDED, ts_block = Some 1001, ts_solid = True, ts_receipt = Some ''SUCCESS'' \<rparr>"
      landed_node]
  by (simp add: sample_defs node_wf_def chain_wf_def heights_def record_wf_def upto_rec1
      find_tx_def take_fault_def solid_block_def)

text \<open>
  Producing blocks never fails on a well-formed node: \<open>produce_blocks(n)\<close> raises the head by
  \<open>n\<close>, keeps the chain invariant (consecutive heights, strictly rising timestamps), stamps the
  new head no earlier than any clock reading, and afterwards \<open>solid_now\<close> and \<open>ref_block\<close> answer.
\<close>

theorem produce_blocks_ok:
  assumes "node_wf nd"
  shows "\<exists>nd'. produce_blocks clks n nd = Inr nd' \<and> node_wf nd' \<and>
    nd_head nd' = nd_head nd + int n \<and> (\<forall>k < n. clks k \<le> head_time nd') \<and>
    (\<exists>s. solid_now nd' = Inr s \<and> s \<le> head_time nd') \<and> (\<exists>rb. ref_block nd' = Inr rb)"
proof -
  obtain nd' where nd': "produce_blocks clks n nd = Inr nd'" "node_wf nd'"
    "nd_head nd' = nd_head nd + int n" "\<forall>k < n. clks k \<le> head_time nd'"
    using produce_blocks_total [OF assms] by blast
  then have wf: "chain_wf nd'" by (simp add: node_wf_def)
  then obtain s where "solid_now nd' = Inr s" using solid_now_total by blast
  moreover have "\<exists>rb. ref_block nd' = Inr rb"
    using wf by (simp add: ref_block_def chain_wf_def Let_def)
  ultimately show ?thesis
    using nd' solid_now_le_head [OF wf] by blast
qed

theorem produce_blocks_ok_witness:
  "\<exists>nd'. produce_blocks (\<lambda>_. 7) 5 (new_node 0 2 1 default_signer) = Inr nd' \<and> nd_head nd' = 1005 \<and>
     7 \<le> head_time nd'"
proof -
  obtain nd' where "produce_blocks (\<lambda>_. 7) 5 (new_node 0 2 1 default_signer) = Inr nd'"
    "nd_head nd' = nd_head (new_node 0 2 1 default_signer) + int 5" "\<forall>k < (5 :: nat). 7 \<le> head_time nd'"
    using produce_blocks_ok [OF node_wf_new, of "\<lambda>_. 7" 5 0 2 1 default_signer] by blast
  moreover from this(3) have "7 \<le> head_time nd'" by (rule allE [of _ 0]) simp
  ultimately show ?thesis by (auto simp: new_node_def)
qed

end
