(* ===== verification/Effects.thy ===== *)
theory Effects
  imports Memory_Store Mocknet
begin

text \<open>
  The pipeline and the worker run beside other workers, and every call to the store, the node, the
  clock or the crash switch is a point where another worker may run.  A piece of their code is a
  value of type \<open>'a prog\<close>: what it returns or raises, or the next outside call with the code that
  continues from its answer.  An answer is an exception or a value, so that \<open>try ... except\<close> is the
  function \<open>catch\<close>.  \<open>step1\<close> performs one call on the world; \<open>run\<close> performs a whole program with
  nobody else running.  Within one call of the store the clock stands still: the time \<open>cas\<close> puts into a
  row and the time of its event are one reading.
\<close>

section \<open>Programs\<close>

datatype 'a prog =
    Return 'a
  | Raise exn
  | Clock_Now "time \<Rightarrow> 'a prog"
  | Store_Claim "op_state list" int string duration "exn + operation list \<Rightarrow> 'a prog"
  | Store_Cas uuid int op_state op_state "field_set list" "(string, pyval) dict" "duration option"
      "string option" "exn + operation option \<Rightarrow> 'a prog"
  | Store_Release uuid int "unit \<Rightarrow> 'a prog"
  | Node_Ref_Block "exn + (int \<times> string) \<Rightarrow> 'a prog"
  | Node_Broadcast signedtx "string option" "exn + broadcast_result \<Rightarrow> 'a prog"
  | Node_Find_Tx string "exn + tx_status \<Rightarrow> 'a prog"
  | Node_Solid_Now "exn + time \<Rightarrow> 'a prog"
  | Node_Solid_Block "int \<Rightarrow> 'a prog"
  | Crash_Here string "bool \<Rightarrow> 'a prog"

primrec pbind :: "'a prog \<Rightarrow> ('a \<Rightarrow> 'b prog) \<Rightarrow> 'b prog" where
  "pbind (Return x) f = f x"
| "pbind (Raise e) f = Raise e"
| "pbind (Clock_Now k) f = Clock_Now (\<lambda>t. pbind (k t) f)"
| "pbind (Store_Claim ss n w d k) f = Store_Claim ss n w d (\<lambda>r. pbind (k r) f)"
| "pbind (Store_Cas i tok src dst sets det renew who k) f =
     Store_Cas i tok src dst sets det renew who (\<lambda>r. pbind (k r) f)"
| "pbind (Store_Release i tok k) f = Store_Release i tok (\<lambda>r. pbind (k r) f)"
| "pbind (Node_Ref_Block k) f = Node_Ref_Block (\<lambda>r. pbind (k r) f)"
| "pbind (Node_Broadcast g w k) f = Node_Broadcast g w (\<lambda>r. pbind (k r) f)"
| "pbind (Node_Find_Tx t k) f = Node_Find_Tx t (\<lambda>r. pbind (k r) f)"
| "pbind (Node_Solid_Now k) f = Node_Solid_Now (\<lambda>r. pbind (k r) f)"
| "pbind (Node_Solid_Block k) f = Node_Solid_Block (\<lambda>r. pbind (k r) f)"
| "pbind (Crash_Here p k) f = Crash_Here p (\<lambda>r. pbind (k r) f)"

text \<open>\<open>try: p except: h\<close>, where the handler decides which exceptions it takes; the value of the
  \<open>try\<close> block is not under the handler.\<close>

primrec catch :: "'a prog \<Rightarrow> (exn \<Rightarrow> 'b prog) \<Rightarrow> ('a \<Rightarrow> 'b prog) \<Rightarrow> 'b prog" where
  "catch (Return x) h f = f x"
| "catch (Raise e) h f = h e"
| "catch (Clock_Now k) h f = Clock_Now (\<lambda>t. catch (k t) h f)"
| "catch (Store_Claim ss n w d k) h f = Store_Claim ss n w d (\<lambda>r. catch (k r) h f)"
| "catch (Store_Cas i tok src dst sets det renew who k) h f =
     Store_Cas i tok src dst sets det renew who (\<lambda>r. catch (k r) h f)"
| "catch (Store_Release i tok k) h f = Store_Release i tok (\<lambda>r. catch (k r) h f)"
| "catch (Node_Ref_Block k) h f = Node_Ref_Block (\<lambda>r. catch (k r) h f)"
| "catch (Node_Broadcast g w k) h f = Node_Broadcast g w (\<lambda>r. catch (k r) h f)"
| "catch (Node_Find_Tx t k) h f = Node_Find_Tx t (\<lambda>r. catch (k r) h f)"
| "catch (Node_Solid_Now k) h f = Node_Solid_Now (\<lambda>r. catch (k r) h f)"
| "catch (Node_Solid_Block k) h f = Node_Solid_Block (\<lambda>r. catch (k r) h f)"
| "catch (Crash_Here p k) h f = Crash_Here p (\<lambda>r. catch (k r) h f)"

definition lift_exn :: "exn + 'a \<Rightarrow> 'a prog" where
  "lift_exn r = (case r of Inl e \<Rightarrow> Raise e | Inr x \<Rightarrow> Return x)"

text \<open>The calls, one by one.\<close>

definition clock_now :: "time prog" where
  "clock_now = Clock_Now Return"

definition store_claim :: "op_state list \<Rightarrow> int \<Rightarrow> string \<Rightarrow> duration \<Rightarrow> operation list prog" where
  "store_claim states limit wid lease = Store_Claim states limit wid lease lift_exn"

definition store_cas :: "uuid \<Rightarrow> int \<Rightarrow> op_state \<Rightarrow> op_state \<Rightarrow> field_set list \<Rightarrow>
    (string, pyval) dict \<Rightarrow> duration option \<Rightarrow> string option \<Rightarrow> operation option prog" where
  "store_cas i tok src dst sets detail renew who =
     Store_Cas i tok src dst sets detail renew who lift_exn"

definition store_release :: "uuid \<Rightarrow> int \<Rightarrow> unit prog" where
  "store_release i tok = Store_Release i tok Return"

definition node_ref_block :: "(int \<times> string) prog" where
  "node_ref_block = Node_Ref_Block lift_exn"

definition node_broadcast :: "signedtx \<Rightarrow> string option \<Rightarrow> broadcast_result prog" where
  "node_broadcast g wid = Node_Broadcast g wid lift_exn"

definition node_find_tx :: "string \<Rightarrow> tx_status prog" where
  "node_find_tx t = Node_Find_Tx t lift_exn"

definition node_solid_now :: "time prog" where
  "node_solid_now = Node_Solid_Now lift_exn"

definition node_solid_block :: "int prog" where
  "node_solid_block = Node_Solid_Block Return"

definition crash_here :: "string \<Rightarrow> unit prog" where
  "crash_here p = Crash_Here p (\<lambda>b. if b then Raise (SimulatedCrash p) else Return ())"

lemmas call_defs = clock_now_def store_claim_def store_cas_def store_release_def
  node_ref_block_def node_broadcast_def node_find_tx_def node_solid_now_def node_solid_block_def
  crash_here_def

section \<open>The world\<close>

record world =
  w_clock :: time
  w_store :: mstore
  w_node :: node
  w_crash :: crash_switch

definition step1 :: "(bytes \<Rightarrow> bytes) \<Rightarrow> 'a prog \<Rightarrow> world \<Rightarrow> ('a prog \<times> world) option" where
  "step1 sha p w =
     (case p of
        Return x \<Rightarrow> None
      | Raise e \<Rightarrow> None
      | Clock_Now k \<Rightarrow> Some (k (w_clock w), w)
      | Store_Claim states limit wid lease k \<Rightarrow>
          (let (r, st) = claim (w_clock w) (w_store w) states limit wid lease
           in Some (k r, w\<lparr>w_store := st\<rparr>))
      | Store_Cas i tok src dst sets detail renew who k \<Rightarrow>
          (let (r, st) = cas (w_clock w) (w_clock w) (w_store w) i tok src dst sets detail renew who
           in Some (k r, w\<lparr>w_store := st\<rparr>))
      | Store_Release i tok k \<Rightarrow>
          Some (k (), w\<lparr>w_store := release (w_clock w) (w_store w) i tok\<rparr>)
      | Node_Ref_Block k \<Rightarrow> Some (k (ref_block (w_node w)), w)
      | Node_Broadcast g who k \<Rightarrow>
          (let (r, nd) = broadcast sha (w_clock w) (w_node w) g who
           in Some (k r, w\<lparr>w_node := nd\<rparr>))
      | Node_Find_Tx t k \<Rightarrow>
          (let (r, nd) = find_tx (w_clock w) (w_node w) t in Some (k r, w\<lparr>w_node := nd\<rparr>))
      | Node_Solid_Now k \<Rightarrow> Some (k (solid_now (w_node w)), w)
      | Node_Solid_Block k \<Rightarrow> Some (k (solid_block (w_node w)), w)
      | Crash_Here p k \<Rightarrow> (let (b, c) = here (w_crash w) p in Some (k b, w\<lparr>w_crash := c\<rparr>)))"

text \<open>A whole program, with nobody else running.\<close>

primrec run :: "(bytes \<Rightarrow> bytes) \<Rightarrow> 'a prog \<Rightarrow> world \<Rightarrow> (exn + 'a) \<times> world" where
  "run sha (Return x) = (\<lambda>w. (Inr x, w))"
| "run sha (Raise e) = (\<lambda>w. (Inl e, w))"
| "run sha (Clock_Now k) = (\<lambda>w. run sha (k (w_clock w)) w)"
| "run sha (Store_Claim states limit wid lease k) = (\<lambda>w.
     let (r, st) = claim (w_clock w) (w_store w) states limit wid lease
     in run sha (k r) (w\<lparr>w_store := st\<rparr>))"
| "run sha (Store_Cas i tok src dst sets detail renew who k) = (\<lambda>w.
     let (r, st) = cas (w_clock w) (w_clock w) (w_store w) i tok src dst sets detail renew who
     in run sha (k r) (w\<lparr>w_store := st\<rparr>))"
| "run sha (Store_Release i tok k) = (\<lambda>w.
     run sha (k ()) (w\<lparr>w_store := release (w_clock w) (w_store w) i tok\<rparr>))"
| "run sha (Node_Ref_Block k) = (\<lambda>w. run sha (k (ref_block (w_node w))) w)"
| "run sha (Node_Broadcast g who k) = (\<lambda>w.
     let (r, nd) = broadcast sha (w_clock w) (w_node w) g who in run sha (k r) (w\<lparr>w_node := nd\<rparr>))"
| "run sha (Node_Find_Tx t k) = (\<lambda>w.
     let (r, nd) = find_tx (w_clock w) (w_node w) t in run sha (k r) (w\<lparr>w_node := nd\<rparr>))"
| "run sha (Node_Solid_Now k) = (\<lambda>w. run sha (k (solid_now (w_node w))) w)"
| "run sha (Node_Solid_Block k) = (\<lambda>w. run sha (k (solid_block (w_node w))) w)"
| "run sha (Crash_Here p k) = (\<lambda>w.
     let (b, c) = here (w_crash w) p in run sha (k b) (w\<lparr>w_crash := c\<rparr>))"

section \<open>Lemmas\<close>

lemma catch_Raise: "catch p Raise f = pbind p f"
  by (induction p) simp_all

lemma pbind_Return [simp]: "pbind p Return = p"
  by (induction p) simp_all

lemma pbind_assoc: "pbind (pbind p f) g = pbind p (\<lambda>x. pbind (f x) g)"
  by (induction p) simp_all

text \<open>\<open>run\<close> is the iteration of \<open>step1\<close>, and it distributes over sequencing and handlers.\<close>

lemma run_pbind:
  "run sha (pbind p f) w =
     (case run sha p w of (Inl e, w') \<Rightarrow> (Inl e, w') | (Inr x, w') \<Rightarrow> run sha (f x) w')"
  by (induction p arbitrary: w) (auto simp: Let_def split: prod.splits)

lemma run_catch:
  "run sha (catch p h f) w =
     (case run sha p w of (Inl e, w') \<Rightarrow> run sha (h e) w' | (Inr x, w') \<Rightarrow> run sha (f x) w')"
  by (induction p arbitrary: w) (auto simp: Let_def split: prod.splits)

lemma run_step1: "step1 sha p w = Some (p', w') \<Longrightarrow> run sha p w = run sha p' w'"
  by (cases p) (auto simp: step1_def Let_def split: prod.splits)

lemma step1_None_iff: "step1 sha p w = None \<longleftrightarrow> (\<exists>x. p = Return x) \<or> (\<exists>e. p = Raise e)"
  by (cases p) (auto simp: step1_def Let_def split: prod.splits)

end
