(* ===== verification/Pipeline.thy ===== *)
theory Pipeline
  imports Effects
begin

text \<open>
  \<open>sluice/pipeline.py\<close>: the handlers that move an operation, one program for each method.  Their
  parameters are the digest, the settings and the signer the source keeps in the \<open>Pipeline\<close> object;
  the store, the node, the clock and the crash switch are reached through the calls of the program.
  Log lines have no effect on the state and are left out.
\<close>

section \<open>Plumbing\<close>

definition p_cas :: "config \<Rightarrow> operation \<Rightarrow> op_state \<Rightarrow> string \<Rightarrow> field_set list \<Rightarrow>
    (string, pyval) dict \<Rightarrow> operation prog" where
  "p_cas cfg op to_state wid sets detail =
     pbind (store_cas (operation_id op) (fencing_token op) (op_state op) to_state sets detail
              (Some (lease_seconds cfg)) (Some wid))
       (\<lambda>updated. case updated of
          None \<Rightarrow> Raise (LostClaim (operation_id op) (op_state op) to_state)
        | Some op' \<Rightarrow> Return op')"

text \<open>\<open>SignedTx.from_json(op.signed_tx)\<close>: subscripting \<open>None\<close> is a \<open>TypeError\<close>.\<close>

definition load_signed :: "operation \<Rightarrow> signedtx prog" where
  "load_signed op = (case signed_tx op of None \<Rightarrow> Raise TypeError | Some d \<Rightarrow> lift_exn (from_json d))"

text \<open>\<open>except NodeTimeout: return op\<close> and nothing else caught.\<close>

definition on_timeout :: "operation \<Rightarrow> exn \<Rightarrow> operation prog" where
  "on_timeout op e = (case e of NodeTimeout _ \<Rightarrow> Return op | _ \<Rightarrow> Raise e)"

section \<open>Handlers\<close>

definition p_validate :: "(bytes \<Rightarrow> bytes) \<Rightarrow> config \<Rightarrow> operation \<Rightarrow> string \<Rightarrow> operation prog" where
  "p_validate sha cfg op wid =
     (if \<not> is_valid sha (to_address op) then
        p_cas cfg op REJECTED wid [Set_failure_reason (Some ''invalid destination address'')] []
      else if asset op \<noteq> cfg_asset cfg then
        p_cas cfg op REJECTED wid [Set_failure_reason (Some (''unsupported asset '' @ asset op))] []
      else if \<not> (min_amount_units cfg \<le> amount_units op \<and> amount_units op \<le> max_amount_units cfg)
        then p_cas cfg op REJECTED wid [Set_failure_reason (Some ''amount out of bounds'')] []
      else p_cas cfg op VALIDATED wid [] [])"

definition build_envelope :: "config \<Rightarrow> operation \<Rightarrow> string \<Rightarrow> int \<times> string \<Rightarrow> time \<Rightarrow> time \<Rightarrow>
    raw_data" where
  "build_envelope cfg op units ref now expiration =
     \<lparr> rd_contract =
         \<lparr> c_type = ''TriggerSmartContract'', contract_address = usdt_contract cfg,
           c_call = ''transfer(address,uint256)'', c_to = to_address op, c_amount_units = units \<rparr>,
       ref_block_num = fst ref, ref_block_hash = snd ref,
       rd_timestamp_ms = timestamp_ms now, rd_expiration_ms = timestamp_ms expiration \<rparr>"

text \<open>The envelope: TaPoS reference, timestamp and expiration.\<close>

definition unsigned_envelope :: "(bytes \<Rightarrow> bytes) \<Rightarrow> config \<Rightarrow> operation \<Rightarrow> string \<Rightarrow> int \<times> string \<Rightarrow>
    time \<Rightarrow> unsignedtx" where
  "unsigned_envelope sha cfg op units ref now =
     (let expiration = now + tx_ttl_seconds cfg;
          raw = build_envelope cfg op units ref now expiration
      in \<lparr> ut_raw_data = raw, ut_txid = compute_txid sha raw, ut_expiration = expiration \<rparr>)"

text \<open>The second half of \<open>_build_and_sign\<close>: the intent is durable before a signature exists.\<close>

definition persist_and_sign :: "(bytes \<Rightarrow> bytes) \<Rightarrow> config \<Rightarrow> mock_signer \<Rightarrow> operation \<Rightarrow> string \<Rightarrow>
    unsignedtx \<Rightarrow> operation prog" where
  "persist_and_sign sha cfg sg op wid unsig =
     pbind (p_cas cfg op SIGNING wid
              [Set_unsigned_tx (Some (ut_raw_data unsig)), Set_txid (Some (ut_txid unsig)),
               Set_tx_expiration (Some (ut_expiration unsig)), Set_signed_tx None]
              [(''txid'', PStr (ut_txid unsig)), (''reason'', PStr ''envelope built'')]) (\<lambda>op1.
     pbind (crash_here SIGN_MID) (\<lambda>_.
     p_cas cfg op1 SIGNED wid [Set_signed_tx (Some (to_json (sign sha sg unsig)))] []))"

definition build_fresh :: "(bytes \<Rightarrow> bytes) \<Rightarrow> config \<Rightarrow> mock_signer \<Rightarrow> operation \<Rightarrow> string \<Rightarrow>
    operation prog" where
  "build_fresh sha cfg sg op wid =
     (if attempts op \<ge> max_build_attempts cfg then
        p_cas cfg op FAILED wid [Set_failure_reason
          (Some (''gave up after '' @ int_str (attempts op) @ '' build attempts''))] []
      else
        pbind node_ref_block (\<lambda>ref.
        pbind clock_now (\<lambda>now.
        pbind (lift_exn (py_str (amount_units op))) (\<lambda>units.
        persist_and_sign sha cfg sg op wid (unsigned_envelope sha cfg op units ref now)))))"

definition build_and_sign :: "(bytes \<Rightarrow> bytes) \<Rightarrow> config \<Rightarrow> mock_signer \<Rightarrow> operation \<Rightarrow> string \<Rightarrow>
    operation prog" where
  "build_and_sign sha cfg sg op0 wid =
     pbind (if op_state op0 = VALIDATED then p_cas cfg op0 SIGNING wid [] [] else Return op0) (\<lambda>op.
     build_fresh sha cfg sg op wid)"

definition rebuild :: "config \<Rightarrow> operation \<Rightarrow> string \<Rightarrow> string \<Rightarrow> (string, pyval) dict \<Rightarrow> operation prog"
  where
  "rebuild cfg op wid why evidence =
     p_cas cfg op SIGNING wid
       [Set_attempts (attempts op + 1), Set_last_error (Some why), Set_signed_tx None,
        Set_unsigned_tx None, Set_txid None, Set_tx_expiration None]
       [(''retired_txid'', opt_str (op_txid op)), (''reason'', PStr why),
        (''expiry_evidence'', PDict evidence)]"

definition settle_broadcast_result :: "config \<Rightarrow> operation \<Rightarrow> string \<Rightarrow> signedtx \<Rightarrow> broadcast_result \<Rightarrow>
    operation prog" where
  "settle_broadcast_result cfg op wid stx result =
     (let code = br_code result in
      if code \<in> set ACCEPTED then
        pbind clock_now (\<lambda>now.
        p_cas cfg op BROADCAST wid [Set_broadcast_at (Some now)]
          [(''txid'', PStr (st_txid stx)), (''code'', PStr code)])
      else if code \<in> set HARD_REJECT then
        p_cas cfg op FAILED wid [Set_failure_reason (Some (''node rejected: '' @ code))]
          [(''txid'', PStr (st_txid stx)), (''code'', PStr code)]
      else if code \<in> set STALE_ENVELOPE then
        p_cas cfg op BROADCASTING wid
          [Set_last_error (Some (''node says '' @ code @ ''; awaiting proof''))]
          [(''txid'', PStr (st_txid stx)), (''code'', PStr code)]
      else if code \<in> set RETRY_SAME_BYTES then Return op
      else
        p_cas cfg op BROADCASTING wid
          [Set_last_error (Some (''unclassified node response: '' @ code))]
          [(''txid'', PStr (st_txid stx)), (''code'', PStr code),
           (''classified'', PStr ''ambiguous'')])"

definition first_send :: "config \<Rightarrow> operation \<Rightarrow> string \<Rightarrow> signedtx \<Rightarrow> operation prog" where
  "first_send cfg op wid stx =
     pbind (crash_here BROADCAST_PRE_SEND) (\<lambda>_.
     catch (node_broadcast stx (Some wid)) (on_timeout op) (\<lambda>result.
     pbind (crash_here BROADCAST_POST_SEND) (\<lambda>_.
     settle_broadcast_result cfg op wid stx result)))"

definition p_broadcast :: "config \<Rightarrow> operation \<Rightarrow> string \<Rightarrow> operation prog" where
  "p_broadcast cfg op0 wid =
     pbind (load_signed op0) (\<lambda>stx.
     pbind clock_now (\<lambda>now.
     if now \<ge> st_expiration stx then
       rebuild cfg op0 wid ''expired before first send''
         [(''rule'', PStr ''never-broadcast envelope; local expiry check'')]
     else
       pbind (p_cas cfg op0 BROADCASTING wid []
                [(''txid'', PStr (st_txid stx)), (''reason'', PStr ''write-ahead'')]) (\<lambda>op.
       first_send cfg op wid stx)))"

definition proof_of_death :: "config \<Rightarrow> signedtx \<Rightarrow> (bool \<times> (string, pyval) dict) prog" where
  "proof_of_death cfg stx =
     pbind node_solid_now (\<lambda>solid_time.
     let deadline = st_expiration stx + expiration_safety_seconds cfg in
     pbind node_solid_block (\<lambda>sb.
     let evidence =
       [(''solid_chain_time'', PIso solid_time), (''solid_block'', PInt sb),
        (''tx_expiration'', PIso (st_expiration stx)),
        (''safety_margin_s'', PDur (expiration_safety_seconds cfg)),
        (''node_lookup'', PStr ''unknown'')]
     in Return (solid_time \<ge> deadline, evidence)))"

text \<open>The three outcomes of a lookup, as the bodies of the branches of the two callers.\<close>

definition mark_found :: "config \<Rightarrow> operation \<Rightarrow> string \<Rightarrow> signedtx \<Rightarrow> tx_status \<Rightarrow> operation prog" where
  "mark_found cfg op wid stx status =
     pbind (case broadcast_at op of Some t \<Rightarrow> Return t | None \<Rightarrow> clock_now) (\<lambda>at.
     p_cas cfg op BROADCAST wid [Set_broadcast_at (Some at)]
       [(''txid'', PStr (st_txid stx)), (''via'', PStr ''reconcile''),
        (''found'', PStr (query_value (ts_result status)))])"

definition resend :: "config \<Rightarrow> operation \<Rightarrow> string \<Rightarrow> signedtx \<Rightarrow> operation prog" where
  "resend cfg op wid stx =
     catch (node_broadcast stx (Some wid)) (on_timeout op) (\<lambda>result.
     settle_broadcast_result cfg op wid stx result)"

definition settle_inclusion :: "config \<Rightarrow> operation \<Rightarrow> string \<Rightarrow> signedtx \<Rightarrow> tx_status \<Rightarrow> operation prog"
  where
  "settle_inclusion cfg op wid stx status =
     pbind (crash_here CONFIRM_PRE_WRITE) (\<lambda>_.
     if ts_receipt status = Some ''SUCCESS'' then
       pbind clock_now (\<lambda>now.
       p_cas cfg op CONFIRMED wid
         [Set_included_block (ts_block status), Set_confirmed_at (Some now)]
         [(''txid'', PStr (st_txid stx)), (''block'', opt_int (ts_block status))])
     else
       p_cas cfg op FAILED wid
         [Set_included_block (ts_block status),
          Set_failure_reason (Some ''transaction reverted on chain'')]
         [(''txid'', PStr (st_txid stx)), (''receipt'', opt_str (ts_receipt status))])"

definition reconcile_broadcast :: "config \<Rightarrow> operation \<Rightarrow> string \<Rightarrow> operation prog" where
  "reconcile_broadcast cfg op wid =
     pbind (load_signed op) (\<lambda>stx.
     catch (node_find_tx (st_txid stx)) (on_timeout op) (\<lambda>status.
     if ts_result status \<in> {INCLUDED, PENDING} then mark_found cfg op wid stx status
     else
       pbind (proof_of_death cfg stx) (\<lambda>(dead, evidence).
       if \<not> dead then resend cfg op wid stx
       else rebuild cfg op wid ''expired unseen; provably dead'' evidence)))"

definition await_confirmation :: "config \<Rightarrow> operation \<Rightarrow> string \<Rightarrow> operation prog" where
  "await_confirmation cfg op wid =
     pbind (load_signed op) (\<lambda>stx.
     catch (node_find_tx (st_txid stx)) (on_timeout op) (\<lambda>status.
     if ts_result status = INCLUDED then
       if \<not> ts_solid status then Return op else settle_inclusion cfg op wid stx status
     else if ts_result status = PENDING then Return op
     else
       pbind (proof_of_death cfg stx) (\<lambda>(dead, evidence).
       if dead then rebuild cfg op wid ''accepted but never mined; expired'' evidence
       else Return op)))"

text \<open>\<open>step\<close>: the dispatch table has no entry for a terminal state.\<close>

definition pipeline_step :: "(bytes \<Rightarrow> bytes) \<Rightarrow> config \<Rightarrow> mock_signer \<Rightarrow> operation \<Rightarrow> string \<Rightarrow>
    operation prog" where
  "pipeline_step sha cfg sg op wid =
     (case op_state op of
        REQUESTED \<Rightarrow> p_validate sha cfg op wid
      | VALIDATED \<Rightarrow> build_and_sign sha cfg sg op wid
      | SIGNING \<Rightarrow> build_and_sign sha cfg sg op wid
      | SIGNED \<Rightarrow> p_broadcast cfg op wid
      | BROADCASTING \<Rightarrow> reconcile_broadcast cfg op wid
      | BROADCAST \<Rightarrow> await_confirmation cfg op wid
      | s \<Rightarrow> Raise (KeyError (state_value s)))"

end
