(* ===== verification/Worker.thy ===== *)
theory Worker
  imports Pipeline
begin

text \<open>
  \<open>sluice/worker.py\<close>: one pass of a worker, its loop and the \<open>drain\<close> helper.  The body of \<open>_drive\<close> is a loop
  in a \<open>try\<close> statement; the loop is \<open>drive_loop\<close>, whose value says how the statement was left, with
  the operation and the flag that the code after it reads.  \<open>SimulatedCrash\<close> is not an
  \<open>Exception\<close> and passes through.
\<close>

definition MAX_STEPS_PER_CLAIM :: nat where
  "MAX_STEPS_PER_CLAIM = 8"

datatype drive_exit =
    Finished
  | Left_Loop operation int
  | Lost_Claim int
  | Handler_Error operation int

primrec drive_loop :: "(bytes \<Rightarrow> bytes) \<Rightarrow> config \<Rightarrow> mock_signer \<Rightarrow> string \<Rightarrow> nat \<Rightarrow> operation \<Rightarrow> int \<Rightarrow>
    drive_exit prog" where
  "drive_loop sha cfg sg wid 0 op advanced = Return (Left_Loop op advanced)"
| "drive_loop sha cfg sg wid (Suc n) op advanced =
     catch (pipeline_step sha cfg sg op wid)
       (\<lambda>e. case e of
          LostClaim _ _ _ \<Rightarrow> Return (Lost_Claim advanced)
        | _ \<Rightarrow> if is_Exception e then Return (Handler_Error op advanced) else Raise e)
       (\<lambda>op'.
          let advanced' = (if op_state op' \<noteq> op_state op then 1 else advanced) in
          if op_state op' \<in> set TERMINAL then Return Finished
          else if op_state op' = op_state op then Return (Left_Loop op' advanced')
          else drive_loop sha cfg sg wid n op' advanced')"

definition drive :: "(bytes \<Rightarrow> bytes) \<Rightarrow> config \<Rightarrow> mock_signer \<Rightarrow> string \<Rightarrow> operation \<Rightarrow> int prog" where
  "drive sha cfg sg wid op0 =
     pbind (drive_loop sha cfg sg wid MAX_STEPS_PER_CLAIM op0 0) (\<lambda>exit. case exit of
        Finished \<Rightarrow> Return 1
      | Lost_Claim advanced \<Rightarrow> Return advanced
      | Left_Loop op advanced \<Rightarrow>
          pbind (store_release (operation_id op) (fencing_token op)) (\<lambda>_. Return advanced)
      | Handler_Error op advanced \<Rightarrow>
          pbind (store_cas (operation_id op) (fencing_token op) (op_state op) (op_state op)
                   [Set_last_error (Some ''handler exception (see logs)'')] [] None (Some wid)) (\<lambda>_.
          pbind (store_release (operation_id op) (fencing_token op)) (\<lambda>_. Return advanced)))"

primrec drive_all :: "(bytes \<Rightarrow> bytes) \<Rightarrow> config \<Rightarrow> mock_signer \<Rightarrow> string \<Rightarrow> operation list \<Rightarrow> int \<Rightarrow>
    int prog" where
  "drive_all sha cfg sg wid [] acc = Return acc"
| "drive_all sha cfg sg wid (op # ops) acc =
     pbind (drive sha cfg sg wid op) (\<lambda>n. drive_all sha cfg sg wid ops (acc + n))"

definition run_once :: "(bytes \<Rightarrow> bytes) \<Rightarrow> config \<Rightarrow> mock_signer \<Rightarrow> string \<Rightarrow> int prog" where
  "run_once sha cfg sg wid =
     pbind (store_claim CLAIMABLE (claim_batch cfg) wid (lease_seconds cfg)) (\<lambda>ops.
     drive_all sha cfg sg wid ops 0)"

text \<open>
  The loop until \<open>stop()\<close>; the first argument counts how often \<open>_stop.is_set()\<close> is still false.  The
  pause after an idle pass is left out: it calls nothing outside, and others may run between any two
  calls.
\<close>

primrec run_forever :: "(bytes \<Rightarrow> bytes) \<Rightarrow> config \<Rightarrow> mock_signer \<Rightarrow> string \<Rightarrow> nat \<Rightarrow> unit prog" where
  "run_forever sha cfg sg wid 0 = Return ()"
| "run_forever sha cfg sg wid (Suc n) =
     catch (run_once sha cfg sg wid)
       (\<lambda>e. if is_Exception e then run_forever sha cfg sg wid n else Raise e)
       (\<lambda>touched. run_forever sha cfg sg wid n)"

primrec drain_loop :: "(bytes \<Rightarrow> bytes) \<Rightarrow> config \<Rightarrow> mock_signer \<Rightarrow> string \<Rightarrow> nat \<Rightarrow> unit prog" where
  "drain_loop sha cfg sg wid 0 =
     Raise (RuntimeError ''drain did not settle in 1000 cycles - livelock?'')"
| "drain_loop sha cfg sg wid (Suc n) =
     pbind (run_once sha cfg sg wid) (\<lambda>k. if k = 0 then Return () else drain_loop sha cfg sg wid n)"

definition drain :: "(bytes \<Rightarrow> bytes) \<Rightarrow> config \<Rightarrow> mock_signer \<Rightarrow> string \<Rightarrow> unit prog" where
  "drain sha cfg sg wid = drain_loop sha cfg sg wid 1000"

end
