(* ===== verification/World_Invariant.thy ===== *)
theory World_Invariant
  imports Worker
begin

text \<open>
  What keeps a withdrawal from being paid twice, as an invariant of the world (store and node) and
  a relation that every atomic call of a worker and every event of the environment respects.

  The history of an operation is every txid the event log ever gave it.  An envelope may be sent
  if its txid is in a history and it either has expired by the tip of the chain or is the signed
  envelope of a row in a sent state.  The invariant says that everything the node holds may be
  sent, that a txid of an operation that is on the chain is the one its row carries in a sent
  state, and that a confirmed row carries a txid that succeeded.  It is stated for stores in which
  no txid belongs to two operations (\<open>unshared\<close>, the unique index of the database schema).
\<close>

section \<open>The history of an operation and what may still be sent\<close>

definition history :: "mstore \<Rightarrow> uuid \<Rightarrow> string set" where
  "history ms i = {t. PStr t \<in> all_txids ms i}"

definition sent_states :: "op_state list" where
  "sent_states = [BROADCASTING, BROADCAST, CONFIRMED, FAILED]"

definition carries :: "mstore \<Rightarrow> uuid \<Rightarrow> signedtx \<Rightarrow> bool" where
  "carries ms i g \<longleftrightarrow> (\<exists>r. get ms i = Some r \<and> signed_tx r = Some (to_json g) \<and>
     op_state r \<in> set sent_states)"

definition sendable :: "world \<Rightarrow> signedtx \<Rightarrow> bool" where
  "sendable w g \<longleftrightarrow> (\<exists>i. st_txid g \<in> history (w_store w) i) \<and>
     (st_expiration g \<le> head_time (w_node w) \<or> (\<exists>i. carries (w_store w) i g))"

definition unshared :: "mstore \<Rightarrow> bool" where
  "unshared ms \<longleftrightarrow> (\<forall>i j t. t \<in> history ms i \<and> t \<in> history ms j \<longrightarrow> i = j)"

section \<open>The invariant of the world\<close>

definition rows_ok :: "mstore \<Rightarrow> bool" where
  "rows_ok ms \<longleftrightarrow> (\<forall>i r d. get ms i = Some r \<and> signed_tx r = Some d \<longrightarrow>
     (\<exists>g. d = to_json g \<and> st_txid g \<in> history ms i \<and> op_txid r = Some (st_txid g)))"

definition history_filed :: "mstore \<Rightarrow> bool" where
  "history_filed ms \<longleftrightarrow> (\<forall>i. history ms i \<noteq> {} \<longrightarrow> get ms i \<noteq> None)"

definition held_ok :: "world \<Rightarrow> bool" where
  "held_ok w \<longleftrightarrow> (\<forall>t q. dict_get (nd_txs (w_node w)) t = Some q \<longrightarrow>
     (\<exists>i. t \<in> history (w_store w) i) \<and> (rec_included_block q = None \<longrightarrow> sendable w (rec_tx q)))"

definition landed_ok :: "world \<Rightarrow> bool" where
  "landed_ok w \<longleftrightarrow> (\<forall>i t. t \<in> history (w_store w) i \<and> t \<in> included_txids (w_node w) \<longrightarrow>
     (\<exists>g. carries (w_store w) i g \<and> st_txid g = t))"

definition confirmed_ok :: "world \<Rightarrow> bool" where
  "confirmed_ok w \<longleftrightarrow> (\<forall>i r. get (w_store w) i = Some r \<and> op_state r = CONFIRMED \<longrightarrow>
     (\<exists>g. signed_tx r = Some (to_json g) \<and> st_txid g \<in> successful_txids (w_node w)))"

definition world_inv :: "world \<Rightarrow> bool" where
  "world_inv w \<longleftrightarrow> node_wf (w_node w) \<and> store_wf (w_store w) \<and> unshared (w_store w) \<and>
     rows_ok (w_store w) \<and> history_filed (w_store w) \<and> held_ok w \<and> landed_ok w \<and> confirmed_ok w"

section \<open>How the world may move\<close>

definition rows_evolve :: "(uuid \<times> int) set \<Rightarrow> mstore \<Rightarrow> mstore \<Rightarrow> bool" where
  "rows_evolve own ms ms' \<longleftrightarrow> (\<forall>i r. get ms i = Some r \<longrightarrow>
     (\<exists>r'. get ms' i = Some r' \<and> fencing_token r \<le> fencing_token r' \<and>
       (lifecycle_part r' = lifecycle_part r \<or>
        ((i, fencing_token r) \<in> own \<and> fencing_token r' = fencing_token r))))"

definition lands_current :: "world \<Rightarrow> world \<Rightarrow> bool" where
  "lands_current w w' \<longleftrightarrow> (\<forall>t. t \<in> included_txids (w_node w') \<and> t \<notin> included_txids (w_node w) \<longrightarrow>
     (\<exists>i g. carries (w_store w) i g \<and> st_txid g = t \<and> head_time (w_node w) < st_expiration g))"

definition evolves :: "(uuid \<times> int) set \<Rightarrow> world \<Rightarrow> world \<Rightarrow> bool" where
  "evolves own w w' \<longleftrightarrow> rows_evolve own (w_store w) (w_store w') \<and>
     head_time (w_node w) \<le> head_time (w_node w') \<and>
     (\<forall>i. history (w_store w) i \<subseteq> history (w_store w') i) \<and>
     (\<forall>g. sendable w g \<longrightarrow> sendable w' g) \<and>
     lands_current w w' \<and> successful_txids (w_node w) \<subseteq> successful_txids (w_node w')"

definition rely :: "(uuid \<times> int) set \<Rightarrow> world \<Rightarrow> world \<Rightarrow> bool" where
  "rely own w w' \<longleftrightarrow> world_inv w \<and> world_inv w' \<and> (\<exists>other. own \<inter> other = {} \<and> evolves other w w')"

abbreviation later :: "(uuid \<times> int) set \<Rightarrow> world \<Rightarrow> world \<Rightarrow> bool" where
  "later own w w' \<equiv> (rely own)\<^sup>*\<^sup>* w w' \<and> world_inv w'"

definition fair_step :: "(uuid \<times> int) set \<Rightarrow> world \<Rightarrow> world \<Rightarrow> bool" where
  "fair_step own w w' \<longleftrightarrow> world_inv w' \<and> evolves own w w'"

definition claimed_tokens :: "exn + operation list \<Rightarrow> (uuid \<times> int) set" where
  "claimed_tokens r = (case r of Inl e \<Rightarrow> {}
     | Inr ops \<Rightarrow> (\<lambda>op. (operation_id op, fencing_token op)) ` set ops)"

section \<open>Moves of the world\<close>

lemma lifecycle_fields:
  assumes "lifecycle_part r = lifecycle_part r'"
  shows "signed_tx r = signed_tx r'" "op_state r = op_state r'" "attempts r = attempts r'"
    "operation_id r = operation_id r'" "op_txid r = op_txid r'"
proof -
  show "signed_tx r = signed_tx r'" using arg_cong [OF assms, of signed_tx] by (simp add: lifecycle_part_def)
  show "op_state r = op_state r'" using arg_cong [OF assms, of op_state] by (simp add: lifecycle_part_def)
  show "attempts r = attempts r'" using arg_cong [OF assms, of attempts] by (simp add: lifecycle_part_def)
  show "operation_id r = operation_id r'"
    using arg_cong [OF assms, of operation_id] by (simp add: lifecycle_part_def)
  show "op_txid r = op_txid r'" using arg_cong [OF assms, of op_txid] by (simp add: lifecycle_part_def)
qed

lemma history_cong: "ms_events ms' = ms_events ms \<Longrightarrow> history ms' = history ms"
  by (rule ext) (simp add: history_def all_txids_def)

lemma rows_evolve_refl [simp]: "rows_evolve own ms ms"
  by (auto simp: rows_evolve_def)

lemma world_frame [simp]:
  "sendable (w\<lparr>w_crash := c\<rparr>) = sendable w" "sendable (w\<lparr>w_clock := t\<rparr>) = sendable w"
  by (auto simp: sendable_def fun_eq_iff)

lemma included_frame [simp]:
  "included_txids (nd\<lparr>nd_faults := f\<rparr>) = included_txids nd"
  "included_txids (nd\<lparr>broadcast_log := b\<rparr>) = included_txids nd"
  "successful_txids (nd\<lparr>nd_faults := f\<rparr>) = successful_txids nd"
  "successful_txids (nd\<lparr>broadcast_log := b\<rparr>) = successful_txids nd"
  "head_time (nd\<lparr>nd_faults := f\<rparr>) = head_time nd"
  "head_time (nd\<lparr>broadcast_log := b\<rparr>) = head_time nd"
  "head_time (nd\<lparr>nd_txs := x\<rparr>) = head_time nd"
  by (simp_all add: included_txids_def successful_txids_def head_time_def)

lemma fair_refl: "world_inv w \<Longrightarrow> fair_step own w w"
  by (simp add: fair_step_def evolves_def lands_current_def)

lemma ok_frame [simp]:
  "held_ok (w\<lparr>w_crash := c\<rparr>) = held_ok w" "held_ok (w\<lparr>w_clock := t\<rparr>) = held_ok w"
  "landed_ok (w\<lparr>w_crash := c\<rparr>) = landed_ok w" "landed_ok (w\<lparr>w_clock := t\<rparr>) = landed_ok w"
  "confirmed_ok (w\<lparr>w_crash := c\<rparr>) = confirmed_ok w"
  "confirmed_ok (w\<lparr>w_clock := t\<rparr>) = confirmed_ok w"
  by (simp_all add: held_ok_def landed_ok_def confirmed_ok_def)

lemma fair_crash: "world_inv w \<Longrightarrow> fair_step own w (w\<lparr>w_crash := c\<rparr>)"
  by (simp add: fair_step_def evolves_def lands_current_def world_inv_def)

lemma fair_clock: "world_inv w \<Longrightarrow> fair_step own w (w\<lparr>w_clock := t\<rparr>)"
  by (simp add: fair_step_def evolves_def lands_current_def world_inv_def)

lemma sendable_node:
  "head_time nd = head_time (w_node w) \<Longrightarrow> sendable (w\<lparr>w_node := nd\<rparr>) = sendable w"
  by (auto simp: sendable_def fun_eq_iff)

lemma fair_same_txs:
  assumes "world_inv w" "node_wf nd" "nd_txs nd = nd_txs (w_node w)"
    "head_time nd = head_time (w_node w)"
  shows "fair_step own w (w\<lparr>w_node := nd\<rparr>)"
proof -
  have inc: "included_txids nd = included_txids (w_node w)"
      "successful_txids nd = successful_txids (w_node w)"
    by (simp_all add: included_txids_def successful_txids_def assms(3))
  then have "landed_ok (w\<lparr>w_node := nd\<rparr>) = landed_ok w"
      "confirmed_ok (w\<lparr>w_node := nd\<rparr>) = confirmed_ok w"
      "held_ok (w\<lparr>w_node := nd\<rparr>) = held_ok w"
    by (simp_all add: landed_ok_def confirmed_ok_def held_ok_def assms(3) sendable_node [OF assms(4)])
  with inc assms show ?thesis
    by (simp add: fair_step_def evolves_def lands_current_def world_inv_def sendable_node [OF assms(4)])
qed

lemma fair_faults: "world_inv w \<Longrightarrow> fair_step own w (w\<lparr>w_node := (w_node w)\<lparr>nd_faults := f\<rparr>\<rparr>)"
  by (rule fair_same_txs) (simp_all add: world_inv_def)

lemma fair_find_tx:
  assumes "world_inv w" "find_tx clk (w_node w) t = (r, nd)"
  shows "fair_step own w (w\<lparr>w_node := nd\<rparr>)"
  using find_tx_frame [OF assms(2)] fair_faults [OF assms(1)] by auto

text \<open>A broadcast of an envelope that may be sent.\<close>

lemma included_dict_set:
  assumes "dict_get (nd_txs nd) t = None" "rec_included_block q = None"
  shows "included_txids (nd\<lparr>nd_txs := dict_set (nd_txs nd) t q\<rparr>) = included_txids nd"
    "successful_txids (nd\<lparr>nd_txs := dict_set (nd_txs nd) t q\<rparr>) = successful_txids nd"
proof -
  have "t \<notin> fst ` set (nd_txs nd)" using assms(1) by (simp add: map_of_eq_None_iff)
  then show "included_txids (nd\<lparr>nd_txs := dict_set (nd_txs nd) t q\<rparr>) = included_txids nd"
    "successful_txids (nd\<lparr>nd_txs := dict_set (nd_txs nd) t q\<rparr>) = successful_txids nd"
    using assms(2) by (simp_all add: included_txids_def successful_txids_def dict_set_set_fresh)
qed

lemma fair_broadcast:
  assumes inv: "world_inv w" and b: "broadcast sha clk (w_node w) g who = (r, nd)"
    and s: "sendable w g"
  shows "fair_step own w (w\<lparr>w_node := nd\<rparr>)"
  using b
proof (cases rule: broadcast_effect)
  case (same f l)
  show ?thesis
    using inv node_wf_broadcast [OF _ b]
    by (intro fair_same_txs) (simp_all add: world_inv_def same)
next
  case (filed f l)
  have inc: "included_txids nd = included_txids (w_node w)"
      "successful_txids nd = successful_txids (w_node w)"
    using included_dict_set [OF filed(2), of "fresh_record (w_node w) g"] filed(1)
    by (simp_all add: fresh_record_def included_txids_def successful_txids_def)
  have h: "head_time nd = head_time (w_node w)"
    using filed(1) by (simp add: head_time_def)
  have wf: "node_wf nd" using node_wf_broadcast [OF _ b] inv by (simp add: world_inv_def)
  have snd: "sendable (w\<lparr>w_node := nd\<rparr>) = sendable w"
    using h by (rule sendable_node)
  have "held_ok (w\<lparr>w_node := nd\<rparr>)"
    unfolding held_ok_def snd
  proof (intro allI impI)
    fix t q
    assume "dict_get (nd_txs (w_node (w\<lparr>w_node := nd\<rparr>))) t = Some q"
    then have "(if t = st_txid g then Some (fresh_record (w_node w) g)
        else dict_get (nd_txs (w_node w)) t) = Some q"
      by (simp add: filed(1))
    then consider "t = st_txid g" "q = fresh_record (w_node w) g"
      | "dict_get (nd_txs (w_node w)) t = Some q"
      by (cases "t = st_txid g") simp_all
    then show "(\<exists>i. t \<in> history (w_store (w\<lparr>w_node := nd\<rparr>)) i) \<and>
        (rec_included_block q = None \<longrightarrow> sendable w (rec_tx q))"
    proof cases
      case 1
      then show ?thesis using s by (simp add: fresh_record_def sendable_def)
    next
      case 2
      then show ?thesis using inv by (simp add: world_inv_def held_ok_def)
    qed
  qed
  moreover have "landed_ok (w\<lparr>w_node := nd\<rparr>) = landed_ok w"
      "confirmed_ok (w\<lparr>w_node := nd\<rparr>) = confirmed_ok w"
    by (simp_all add: landed_ok_def confirmed_ok_def inc)
  moreover have "lands_current w (w\<lparr>w_node := nd\<rparr>)"
    using inc by (simp add: lands_current_def)
  ultimately show ?thesis
    using inv inc h wf snd by (simp add: fair_step_def evolves_def world_inv_def)
qed

text \<open>A block: what it includes was held, so it was the live envelope of an operation.\<close>

lemma to_json_inject [simp]: "to_json t = to_json t' \<longleftrightarrow> t = t'"
  using from_to_json by (metis sum.inject(2))

lemma carries_unique: "carries ms i g \<Longrightarrow> carries ms i g' \<Longrightarrow> g = g'"
  by (auto simp: carries_def)

lemma carries_history: "rows_ok ms \<Longrightarrow> carries ms i g \<Longrightarrow> st_txid g \<in> history ms i"
  unfolding rows_ok_def carries_def by (metis to_json_inject)

lemma sendable_mono:
  assumes "sendable w g" "head_time (w_node w) \<le> head_time (w_node w')"
    "\<And>i. history (w_store w) i \<subseteq> history (w_store w') i"
    "\<And>i. carries (w_store w) i g \<Longrightarrow> carries (w_store w') i g \<or> st_expiration g \<le> head_time (w_node w')"
  shows "sendable w' g"
  using assms unfolding sendable_def by (meson order_trans subsetD)

text \<open>What a new block does to the parts of the invariant.\<close>

lemma block_held:
  assumes b: "produce_block clk (w_node w) = Inr nd" and wf: "chain_wf (w_node w)" and ok: "held_ok w"
    and snd: "\<And>g. sendable w g \<Longrightarrow> sendable (w\<lparr>w_node := nd\<rparr>) g"
  shows "held_ok (w\<lparr>w_node := nd\<rparr>)"
  unfolding held_ok_def
proof (intro allI impI)
  fix t q'
  assume q': "dict_get (nd_txs (w_node (w\<lparr>w_node := nd\<rparr>))) t = Some q'"
  then obtain q where q: "dict_get (nd_txs (w_node w)) t = Some q"
      "record_advances (nd_head (w_node w) + 1) (head_time nd) q q'"
    using produce_block_get [OF b wf, of t] by (auto simp: option_rel_Some2)
  have "(\<exists>i. t \<in> history (w_store w) i) \<and> (rec_included_block q = None \<longrightarrow> sendable w (rec_tx q))"
    using ok q(1) unfolding held_ok_def by blast
  then show "(\<exists>i. t \<in> history (w_store (w\<lparr>w_node := nd\<rparr>)) i) \<and>
      (rec_included_block q' = None \<longrightarrow> sendable (w\<lparr>w_node := nd\<rparr>) (rec_tx q'))"
    using q(2) snd by (auto simp: record_advances_def)
qed

lemma block_lands_current:
  assumes b: "produce_block clk (w_node w) = Inr nd" and wf: "node_wf (w_node w)" and ok: "held_ok w"
  shows "lands_current w (w\<lparr>w_node := nd\<rparr>)"
  unfolding lands_current_def
proof (intro allI impI)
  fix t assume t: "t \<in> included_txids (w_node (w\<lparr>w_node := nd\<rparr>)) \<and> t \<notin> included_txids (w_node w)"
  have st: "node_step (\<lambda>_. []) (\<lambda>_. True) (w_node w) nd" using b by (rule ns_block)
  obtain q where q: "dict_get (nd_txs (w_node w)) t = Some q"
      "head_time (w_node w) < st_expiration (rec_tx q)"
    using node_step_lands [OF st wf, of t] t by (auto simp: held_expiration_def)
  have "rec_included_block q = None" using t q(1) included_iff [OF wf] by blast
  then have "sendable w (rec_tx q)" using ok q(1) unfolding held_ok_def by blast
  moreover have "st_txid (rec_tx q) = t"
    using node_wf_get [OF wf q(1)] by (simp add: record_wf_def)
  ultimately show "\<exists>i g. carries (w_store w) i g \<and> st_txid g = t \<and> head_time (w_node w) < st_expiration g"
    using q(2) unfolding sendable_def by force
qed

lemma lands_current_landed:
  assumes "lands_current w (w\<lparr>w_node := nd\<rparr>)" and ok: "landed_ok w" "rows_ok (w_store w)" "unshared (w_store w)"
  shows "landed_ok (w\<lparr>w_node := nd\<rparr>)"
  unfolding landed_ok_def
proof (intro allI impI)
  fix i t
  assume t: "t \<in> history (w_store (w\<lparr>w_node := nd\<rparr>)) i \<and> t \<in> included_txids (w_node (w\<lparr>w_node := nd\<rparr>))"
  show "\<exists>g. carries (w_store (w\<lparr>w_node := nd\<rparr>)) i g \<and> st_txid g = t"
  proof (cases "t \<in> included_txids (w_node w)")
    case True
    then show ?thesis using ok(1) t by (simp add: landed_ok_def)
  next
    case False
    then obtain j g where g: "carries (w_store w) j g" "st_txid g = t"
      using assms(1) t unfolding lands_current_def by blast
    then have "j = i"
      using carries_history [OF ok(2) g(1)] ok(3) t unfolding unshared_def by auto
    with g show ?thesis by auto
  qed
qed

lemma block_successful:
  assumes st: "node_step send ok nd nd'" and wf: "node_wf nd"
  shows "successful_txids nd \<subseteq> successful_txids nd'"
proof
  fix t assume "t \<in> successful_txids nd"
  then obtain q where q: "dict_get (nd_txs nd) t = Some q" "rec_included_block q \<noteq> None"
      "receipt q = Some ''SUCCESS''"
    using successful_iff [OF wf] by blast
  obtain q' where "dict_get (nd_txs nd') t = Some q'" "rec_included_block q \<noteq> None \<Longrightarrow> q' = q"
    using node_step_keeps [OF st wf q(1)] by blast
  with q show "t \<in> successful_txids nd'" using successful_iff [OF node_wf_step [OF st wf]] by auto
qed

lemma fair_block:
  assumes inv: "world_inv w" and b: "produce_block clk (w_node w) = Inr nd"
  shows "fair_step own w (w\<lparr>w_node := nd\<rparr>)"
proof -
  let ?w = "w\<lparr>w_node := nd\<rparr>"
  have wf: "node_wf (w_node w)" "chain_wf (w_node w)" and ok: "held_ok w" "landed_ok w"
      "rows_ok (w_store w)" "unshared (w_store w)"
    using inv by (auto simp: world_inv_def node_wf_def)
  have st: "node_step (\<lambda>_. []) (\<lambda>_. True) (w_node w) nd" using b by (rule ns_block)
  have h: "head_time (w_node w) < head_time nd" using head_time_produce [OF wf(2) b] by simp
  have snd: "sendable w g \<Longrightarrow> sendable ?w g" for g
    using h by (auto intro: sendable_mono)
  have lands: "lands_current w ?w" using block_lands_current [OF b wf(1) ok(1)] .
  have succ: "successful_txids (w_node w) \<subseteq> successful_txids nd" using block_successful [OF st wf(1)] .
  have "confirmed_ok ?w"
    using inv succ unfolding world_inv_def confirmed_ok_def by fastforce
  then have "world_inv ?w"
    using inv node_wf_step [OF st wf(1)] block_held [OF b wf(2) ok(1) snd] lands_current_landed [OF lands ok(2-4)]
    by (simp add: world_inv_def)
  then show ?thesis
    using lands h snd succ by (simp add: fair_step_def evolves_def)
qed

text \<open>Claims and releases touch no lifecycle column and no event.\<close>

lemma carries_lifecycle:
  assumes "get ms i = Some r" "get ms' i = Some r'" "lifecycle_part r' = lifecycle_part r"
  shows "carries ms' i g = carries ms i g"
  using assms lifecycle_fields [OF assms(3)] by (simp add: carries_def)

definition same_lifecycle :: "mstore \<Rightarrow> mstore \<Rightarrow> bool" where
  "same_lifecycle ms ms' \<longleftrightarrow> (\<forall>i. rel_option (\<lambda>r r'. fencing_token r \<le> fencing_token r' \<and>
     lifecycle_part r' = lifecycle_part r) (get ms i) (get ms' i))"

text \<open>A change of the store that moves no row in its life and adds at most requested rows.\<close>

lemma fair_quiet_store:
  assumes inv: "world_inv w" and wf: "store_wf ms" and hist: "history ms = history (w_store w)"
    and old: "\<And>i r. get (w_store w) i = Some r \<Longrightarrow>
      \<exists>r'. get ms i = Some r' \<and> fencing_token r \<le> fencing_token r' \<and> lifecycle_part r' = lifecycle_part r"
    and new: "\<And>i r'. get ms i = Some r' \<Longrightarrow> (\<exists>r. get (w_store w) i = Some r \<and> lifecycle_part r' = lifecycle_part r) \<or>
      signed_tx r' = None \<and> op_state r' = REQUESTED"
  shows "fair_step own w (w\<lparr>w_store := ms\<rparr>)"
proof -
  let ?w = "w\<lparr>w_store := ms\<rparr>"
  have signed: "\<exists>r. get (w_store w) i = Some r \<and> signed_tx r = signed_tx r' \<and> op_state r = op_state r' \<and> op_txid r = op_txid r'"
    if "get ms i = Some r'" "signed_tx r' \<noteq> None \<or> op_state r' \<noteq> REQUESTED" for i r'
    using new [OF that(1)] that(2) by (metis lifecycle_fields(1,2,5))
  have car: "carries ms i g = carries (w_store w) i g" for i g
  proof
    show "carries ms i g \<Longrightarrow> carries (w_store w) i g" using signed [of i] by (fastforce simp: carries_def)
    show "carries (w_store w) i g \<Longrightarrow> carries ms i g"
      using old [of i] carries_lifecycle [of "w_store w" i _ ms] by (fastforce simp: carries_def [of "w_store w"])
  qed
  have snd: "sendable ?w = sendable w" by (rule ext) (simp add: sendable_def hist car)
  have parts: "rows_ok (w_store w)" "confirmed_ok w" "history_filed (w_store w)" "held_ok w" "landed_ok w"
      "unshared (w_store w)" "node_wf (w_node w)" using inv by (simp_all add: world_inv_def)
  have "rows_ok ms" using parts(1) signed unfolding rows_ok_def hist by (metis option.distinct(1))
  moreover have "confirmed_ok ?w" using parts(2) signed unfolding confirmed_ok_def by simp (metis op_state.distinct(11))
  moreover have "history_filed ms" using parts(3) old unfolding history_filed_def hist by (metis not_Some_eq)
  moreover have "held_ok ?w" "landed_ok ?w" "unshared ms"
    using parts(4-6) snd unfolding held_ok_def landed_ok_def unshared_def by (simp_all add: hist car)
  ultimately have "world_inv ?w" using parts(7) wf by (simp add: world_inv_def)
  moreover have "rows_evolve own (w_store w) ms" using old unfolding rows_evolve_def by blast
  ultimately show ?thesis using snd by (simp add: fair_step_def evolves_def hist lands_current_def)
qed

lemma fair_same_lifecycle:
  assumes inv: "world_inv w" and wf: "store_wf ms" and ev: "ms_events ms = ms_events (w_store w)"
    and same: "same_lifecycle (w_store w) ms"
  shows "fair_step own w (w\<lparr>w_store := ms\<rparr>)"
proof (rule fair_quiet_store [OF inv wf history_cong [OF ev]])
  have rel: "rel_option (\<lambda>r r'. fencing_token r \<le> fencing_token r' \<and>
      lifecycle_part r' = lifecycle_part r) (get (w_store w) i) (get ms i)" for i
    using same unfolding same_lifecycle_def by blast
  show "\<exists>r'. get ms i = Some r' \<and> fencing_token r \<le> fencing_token r' \<and> lifecycle_part r' = lifecycle_part r"
    if "get (w_store w) i = Some r" for i r
    using rel [of i] unfolding that option_rel_Some1 by blast
  show "(\<exists>r. get (w_store w) i = Some r \<and> lifecycle_part r' = lifecycle_part r) \<or> signed_tx r' = None \<and> op_state r' = REQUESTED"
    if "get ms i = Some r'" for i r'
    using rel [of i] unfolding that option_rel_Some2 by blast
qed

lemma fair_claim:
  assumes inv: "world_inv w" and cl: "claim now (w_store w) states limit wid d = (res, ms)"
  shows "fair_step own w (w\<lparr>w_store := ms\<rparr>)"
proof -
  have wf: "store_wf (w_store w)" using inv by (simp add: world_inv_def)
  obtain sel ops where sel: "ms = (w_store w)\<lparr>ms_ops := ops\<rparr>"
    "\<And>k r. (k, r) \<in> set sel \<Longrightarrow> get (w_store w) k = Some r"
    "\<And>i. get ms i = (case dict_get sel i of None \<Rightarrow> get (w_store w) i
        | Some r \<Rightarrow> Some (claimed now wid d r))"
    using claim_effect [OF wf cl] by metis
  have "lifecycle_part (claimed now wid d r) = lifecycle_part r" for r
    by (simp add: lifecycle_part_def claimed_def)
  then have "same_lifecycle (w_store w) ms"
    unfolding same_lifecycle_def
  proof (intro allI)
    fix i
    show "rel_option (\<lambda>r r'. fencing_token r \<le> fencing_token r' \<and> lifecycle_part r' = lifecycle_part r)
        (get (w_store w) i) (get ms i)"
      using sel(2) [of i] sel(3) [of i] \<open>\<And>r. lifecycle_part (claimed now wid d r) = lifecycle_part r\<close>
      by (cases "dict_get sel i"; cases "get (w_store w) i") (auto dest: dict_get_mem)
  qed
  then show ?thesis
    using inv claim_wf [OF wf cl] sel(1) by (intro fair_same_lifecycle) simp_all
qed

lemma fair_release:
  assumes inv: "world_inv w"
  shows "fair_step own w (w\<lparr>w_store := release now (w_store w) i tok\<rparr>)"
proof -
  have wf: "store_wf (w_store w)" using inv by (simp add: world_inv_def)
  have "same_lifecycle (w_store w) (release now (w_store w) i tok)"
    unfolding same_lifecycle_def
    by (rule release_cases [of now "w_store w" i tok])
       (auto simp: lifecycle_part_def released_def option.rel_refl)
  moreover have "ms_events (release now (w_store w) i tok) = ms_events (w_store w)"
    by (rule release_cases [of now "w_store w" i tok]) simp_all
  ultimately show ?thesis
    using inv release_wf [OF wf] by (intro fair_same_lifecycle)
qed

text \<open>A write: what makes it safe for the invariant.\<close>

definition detail_txids :: "(string, pyval) dict \<Rightarrow> string set" where
  "detail_txids d = {t. dict_get d ''txid'' = Some (PStr t)}"

definition safe_write :: "world \<Rightarrow> uuid \<Rightarrow> operation \<Rightarrow> operation \<Rightarrow> (string, pyval) dict \<Rightarrow> bool" where
  "safe_write w i r r' detail \<longleftrightarrow>
     (\<forall>d. signed_tx r' = Some d \<longrightarrow>
        (\<exists>g. d = to_json g \<and> st_txid g \<in> history (w_store w) i \<union> detail_txids detail \<and>
           op_txid r' = Some (st_txid g))) \<and>
     (op_state r \<in> set sent_states \<longrightarrow>
        (op_state r' \<in> set sent_states \<and> signed_tx r' = signed_tx r) \<or>
        (\<forall>g. signed_tx r = Some (to_json g) \<longrightarrow>
           st_expiration g \<le> head_time (w_node w) \<and> st_txid g \<notin> included_txids (w_node w))) \<and>
     (op_state r' = CONFIRMED \<longrightarrow>
        (\<exists>g. signed_tx r' = Some (to_json g) \<and> st_txid g \<in> successful_txids (w_node w)))"

lemma history_append_event:
  "history (append_event at ms op f t who tok detail) i =
     history ms i \<union> (if operation_id op = i then detail_txids detail else {})"
  by (auto simp: history_def all_txids_def append_event_def detail_txids_def map_filter_def
      split: if_splits)

lemma history_ops [simp]: "history (ms\<lparr>ms_ops := x\<rparr>) = history ms"
  by (rule history_cong) simp

text \<open>Under a safe write a transaction on the chain stays the one its row carries.\<close>

lemma write_carries:
  assumes "get (w_store w) i = Some r" "safe_write w i r r' detail" "get ms = (get (w_store w))(i \<mapsto> r')"
    and g: "carries (w_store w) j g"
  shows "carries ms j g \<or> st_expiration g \<le> head_time (w_node w) \<and> st_txid g \<notin> included_txids (w_node w)"
  using assms by (cases "j = i") (auto simp: carries_def safe_write_def)

lemma write_landed:
  assumes ok: "node_wf (w_node w)" "held_ok w" "landed_ok w" and uns: "unshared ms"
    and sub: "\<And>j. history (w_store w) j \<subseteq> history ms j"
    and car: "\<And>j g. carries (w_store w) j g \<Longrightarrow> st_txid g \<in> included_txids (w_node w) \<Longrightarrow> carries ms j g"
  shows "landed_ok (w\<lparr>w_store := ms\<rparr>)"
  unfolding landed_ok_def
proof (intro allI impI)
  fix j t assume t: "t \<in> history (w_store (w\<lparr>w_store := ms\<rparr>)) j \<and> t \<in> included_txids (w_node (w\<lparr>w_store := ms\<rparr>))"
  then obtain q where "dict_get (nd_txs (w_node w)) t = Some q" using included_iff [OF ok(1)] by auto
  then obtain k where k: "t \<in> history (w_store w) k" using ok(2) unfolding held_ok_def by blast
  then have "t \<in> history ms k" using sub by blast
  with t uns have "k = j" unfolding unshared_def by auto
  with k t obtain g where "carries (w_store w) j g" "st_txid g = t" using ok(3) unfolding landed_ok_def by auto
  then show "\<exists>g. carries (w_store (w\<lparr>w_store := ms\<rparr>)) j g \<and> st_txid g = t" using car t by auto
qed

lemma fair_write:
  assumes inv: "world_inv w" and r: "get (w_store w) i = Some r" "(i, fencing_token r) \<in> own"
    and r': "operation_id r' = i" "fencing_token r' = fencing_token r"
    and ms: "ms = append_event at ((w_store w)\<lparr>ms_ops := dict_set (ms_ops (w_store w)) i r'\<rparr>) r'
        f t who tok detail"
    and uns: "unshared ms" and safe: "safe_write w i r r' detail"
  shows "fair_step own w (w\<lparr>w_store := ms\<rparr>)"
proof -
  let ?w = "w\<lparr>w_store := ms\<rparr>"
  have get': "get ms = (get (w_store w))(i \<mapsto> r')" using ms by simp
  have hist: "history ms j = history (w_store w) j \<union> (if j = i then detail_txids detail else {})" for j
    using ms r'(1) by (auto simp: history_append_event)
  have sub: "history (w_store w) j \<subseteq> history ms j" for j by (simp add: hist)
  have parts: "store_wf (w_store w)" "rows_ok (w_store w)" "history_filed (w_store w)" "held_ok w"
      "landed_ok w" "confirmed_ok w" "node_wf (w_node w)"
    using inv by (simp_all add: world_inv_def)
  note car = write_carries [OF r(1) safe get']
  have snd: "sendable ?w g" if "sendable w g" for g
    by (rule sendable_mono [OF that]) (use sub car in auto)
  have "store_wf ms" using store_wf_dict_set [OF parts(1) r(1) r'(1)] ms by simp
  moreover have "rows_ok ms"
    using parts(2) safe unfolding rows_ok_def safe_write_def get' hist by (auto split: if_splits)
  moreover have "history_filed ms"
    using parts(3) unfolding history_filed_def get' hist by (auto split: if_splits)
  moreover have "held_ok ?w"
    using parts(4) snd sub unfolding held_ok_def by (simp add: subset_iff) blast
  moreover have "landed_ok ?w"
    by (rule write_landed [OF parts(7,4,5) uns sub]) (use car in blast)
  moreover have "confirmed_ok ?w"
    using parts(6) safe unfolding confirmed_ok_def safe_write_def by (auto simp: get')
  ultimately have "world_inv ?w" using uns parts(7) by (simp add: world_inv_def)
  moreover have "rows_evolve own (w_store w) ms"
    unfolding rows_evolve_def get' using r r'(2) by auto
  ultimately show ?thesis
    using snd sub by (simp add: fair_step_def evolves_def lands_current_def)
qed

text \<open>Intake files a fresh row.\<close>

lemma history_insert:
  assumes "insert_new now at ms op = (res, ms')"
  shows "history ms' i = history ms i"
proof -
  have "detail_txids [(''intake'', PBool True)] = {}" by (simp add: detail_txids_def)
  moreover have "history (ms\<lparr>ms_ops := x, ms_arrival := y, ms_order := z\<rparr>) = history ms" for x y z
    by (rule history_cong) simp
  ultimately show ?thesis
    using assms by (auto simp: insert_new_def Let_def history_append_event
        split: option.splits if_splits)
qed

lemma fair_insert:
  assumes inv: "world_inv w" and ins: "insert_new now at (w_store w) op = (res, ms)"
    and op: "signed_tx op = None" "op_state op = REQUESTED"
  shows "fair_step own w (w\<lparr>w_store := ms\<rparr>)"
proof -
  obtain r c where res: "res = (r, c)" by (cases res)
  have wf: "store_wf (w_store w)" using inv by (simp add: world_inv_def)
  note eff = insert_new_effect [OF wf ins [unfolded res]]
  have new: "get ms i = get (w_store w) i \<or> (get (w_store w) i = None \<and> get ms i = Some (stamped now op))" for i
    using eff(2-5) by (cases "i = operation_id op"; cases "get (w_store w) i") auto
  have st: "signed_tx (stamped now op) = None" "op_state (stamped now op) = REQUESTED"
    using op by (simp_all add: stamped_def)
  have hist: "history ms = history (w_store w)" using history_insert [OF ins] by auto
  show ?thesis
  proof (rule fair_quiet_store [OF inv eff(1) hist])
    show "\<exists>r'. get ms i = Some r' \<and> fencing_token q \<le> fencing_token r' \<and> lifecycle_part r' = lifecycle_part q"
      if "get (w_store w) i = Some q" for i q using new [of i] that by auto
    show "(\<exists>r. get (w_store w) i = Some r \<and> lifecycle_part r' = lifecycle_part r) \<or> signed_tx r' = None \<and> op_state r' = REQUESTED"
      if "get ms i = Some r'" for i r' using new [of i] that st by (metis option.inject)
  qed
qed

lemma find_tx_answers:
  assumes "node_wf nd" "find_tx clk nd i = (Inr st, nd')"
  shows "ts_result st = INCLUDED \<longleftrightarrow> i \<in> included_txids nd"
    "ts_result st = INCLUDED \<Longrightarrow> ts_receipt st = Some ''SUCCESS'' \<Longrightarrow> i \<in> successful_txids nd"
proof -
  obtain r0 nd0 where tf: "take_fault nd ''query'' = (r0, nd0)" by fastforce
  then obtain f where "nd0 = nd\<lparr>nd_faults := f\<rparr>" using take_fault_frame by blast
  then have nd0: "nd_txs nd0 = nd_txs nd" by simp
  show "ts_result st = INCLUDED \<longleftrightarrow> i \<in> included_txids nd"
    "ts_result st = INCLUDED \<Longrightarrow> ts_receipt st = Some ''SUCCESS'' \<Longrightarrow> i \<in> successful_txids nd"
    using assms(2) tf nd0 unfolding included_iff [OF assms(1)] successful_iff [OF assms(1)] find_tx_def
    by (auto simp: Let_def split: sum.splits if_splits option.splits)
qed

end
