(* ===== verification/Interference.thy ===== *)
theory Interference
  imports World_Invariant
begin

text \<open>
  Reasoning about a program that runs beside others.  \<open>wp\<close> is the weakest precondition of a
  program under interference: before each of its calls the world may take any number of steps that
  respect the tokens the worker owns (\<open>rely\<close>), and each call of its own must be a step that
  others may see (\<open>fair_step\<close>).  The ghost arguments are the tokens the worker was handed and the
  timestamp of the tip at its last lookup.  The call \<open>Node_Solid_Now\<close> is entered under the
  assumption that the tip has moved by at most the margin \<open>m\<close> since that lookup.
\<close>

section \<open>Programs under interference\<close>

type_synonym 'a post = "'a \<Rightarrow> (uuid \<times> int) set \<Rightarrow> time \<Rightarrow> world \<Rightarrow> bool"

primrec wp :: "(bytes \<Rightarrow> bytes) \<Rightarrow> duration \<Rightarrow> 'a prog \<Rightarrow> 'a post \<Rightarrow> exn post \<Rightarrow> (uuid \<times> int) set \<Rightarrow>
    time \<Rightarrow> world \<Rightarrow> bool" where
  "wp sha m (Return x) = (\<lambda>Q E own l w. Q x own l w)"
| "wp sha m (Raise e) = (\<lambda>Q E own l w. E e own l w)"
| "wp sha m (Clock_Now k) = (\<lambda>Q E own l w. \<forall>w'. later own w w' \<longrightarrow>
     wp sha m (k (w_clock w')) Q E own l w')"
| "wp sha m (Store_Claim states limit wid lease k) = (\<lambda>Q E own l w. \<forall>w' r st. later own w w' \<longrightarrow>
     claim (w_clock w') (w_store w') states limit wid lease = (r, st) \<longrightarrow> unshared st \<longrightarrow>
     fair_step own w' (w'\<lparr>w_store := st\<rparr>) \<and>
     wp sha m (k r) Q E (own \<union> claimed_tokens r) l (w'\<lparr>w_store := st\<rparr>))"
| "wp sha m (Store_Cas i tok src dst sets detail renew who k) = (\<lambda>Q E own l w. \<forall>w' r st.
     later own w w' \<longrightarrow>
     cas (w_clock w') (w_clock w') (w_store w') i tok src dst sets detail renew who = (r, st) \<longrightarrow>
     unshared st \<longrightarrow>
     fair_step own w' (w'\<lparr>w_store := st\<rparr>) \<and> wp sha m (k r) Q E own l (w'\<lparr>w_store := st\<rparr>))"
| "wp sha m (Store_Release i tok k) = (\<lambda>Q E own l w. \<forall>w' st. later own w w' \<longrightarrow>
     st = release (w_clock w') (w_store w') i tok \<longrightarrow>
     fair_step own w' (w'\<lparr>w_store := st\<rparr>) \<and> wp sha m (k ()) Q E own l (w'\<lparr>w_store := st\<rparr>))"
| "wp sha m (Node_Ref_Block k) = (\<lambda>Q E own l w. \<forall>w'. later own w w' \<longrightarrow>
     wp sha m (k (ref_block (w_node w'))) Q E own l w')"
| "wp sha m (Node_Broadcast g who k) = (\<lambda>Q E own l w. \<forall>w' r nd. later own w w' \<longrightarrow>
     broadcast sha (w_clock w') (w_node w') g who = (r, nd) \<longrightarrow>
     fair_step own w' (w'\<lparr>w_node := nd\<rparr>) \<and> wp sha m (k r) Q E own l (w'\<lparr>w_node := nd\<rparr>))"
| "wp sha m (Node_Find_Tx t k) = (\<lambda>Q E own l w. \<forall>w' r nd. later own w w' \<longrightarrow>
     find_tx (w_clock w') (w_node w') t = (r, nd) \<longrightarrow>
     fair_step own w' (w'\<lparr>w_node := nd\<rparr>) \<and>
     wp sha m (k r) Q E own (head_time (w_node w')) (w'\<lparr>w_node := nd\<rparr>))"
| "wp sha m (Node_Solid_Now k) = (\<lambda>Q E own l w. \<forall>w'. later own w w' \<longrightarrow>
     head_time (w_node w') \<le> l + m \<longrightarrow> wp sha m (k (solid_now (w_node w'))) Q E own l w')"
| "wp sha m (Node_Solid_Block k) = (\<lambda>Q E own l w. \<forall>w'. later own w w' \<longrightarrow>
     wp sha m (k (solid_block (w_node w'))) Q E own l w')"
| "wp sha m (Crash_Here p k) = (\<lambda>Q E own l w. \<forall>w' b c. later own w w' \<longrightarrow>
     here (w_crash w') p = (b, c) \<longrightarrow>
     fair_step own w' (w'\<lparr>w_crash := c\<rparr>) \<and> wp sha m (k b) Q E own l (w'\<lparr>w_crash := c\<rparr>))"

section \<open>Laws of wp\<close>

lemma wp_pbind:
  "wp sha m (pbind p f) Q E own l w = wp sha m p (\<lambda>x. wp sha m (f x) Q E) E own l w"
  by (induction p arbitrary: own l w) simp_all

lemma wp_catch:
  "wp sha m (catch p h f) Q E own l w =
     wp sha m p (\<lambda>x. wp sha m (f x) Q E) (\<lambda>e. wp sha m (h e) Q E) own l w"
  by (induction p arbitrary: own l w) simp_all

lemma wp_lift_exn [simp]:
  "wp sha m (lift_exn r) Q E own l w = (case r of Inl e \<Rightarrow> E e own l w | Inr x \<Rightarrow> Q x own l w)"
  by (cases r) (simp_all add: lift_exn_def)

lemma wp_mono:
  assumes "wp sha m p Q E own l w"
    and "\<And>x own l w. Q x own l w \<Longrightarrow> Q' x own l w" "\<And>e own l w. E e own l w \<Longrightarrow> E' e own l w"
  shows "wp sha m p Q' E' own l w"
  using assms(1)
  by (induction p arbitrary: own l w) (simp_all add: assms(2,3) del: split_paired_All)

lemma rely_trans: "(rely own)\<^sup>*\<^sup>* w w' \<Longrightarrow> later own w' w'' \<Longrightarrow> later own w w''"
  by auto

abbreviation any :: "'a \<Rightarrow> (uuid \<times> int) set \<Rightarrow> time \<Rightarrow> world \<Rightarrow> bool" where
  "any x own l w \<equiv> True"

lemma wp_stable:
  assumes "wp sha m p any any own l w" "(rely own)\<^sup>*\<^sup>* w w'"
  shows "wp sha m p any any own l w'"
  using assms by (cases p) (simp_all, (meson rtranclp_trans)+)

section \<open>What a worker knows\<close>

definition owns :: "(uuid \<times> int) set \<Rightarrow> operation \<Rightarrow> world \<Rightarrow> bool" where
  "owns own op w \<longleftrightarrow> (operation_id op, fencing_token op) \<in> own \<and>
     (\<exists>r. get (w_store w) (operation_id op) = Some r \<and> fencing_token op \<le> fencing_token r)"

definition snapshot :: "(uuid \<times> int) set \<Rightarrow> operation \<Rightarrow> world \<Rightarrow> bool" where
  "snapshot own op w \<longleftrightarrow> owns own op w \<and>
     (\<forall>r. get (w_store w) (operation_id op) = Some r \<and> fencing_token r = fencing_token op \<longrightarrow>
        lifecycle_part r = lifecycle_part op) \<and>
     (\<forall>d. signed_tx op = Some d \<longrightarrow> (\<exists>g. d = to_json g \<and>
        st_txid g \<in> history (w_store w) (operation_id op) \<and> op_txid op = Some (st_txid g) \<and>
        (op_state op \<in> set sent_states \<longrightarrow> sendable w g)))"

text \<open>A row read from the store by its owner.\<close>

lemma snapshot_row:
  assumes inv: "world_inv w" and row: "get (w_store w) (operation_id op) = Some op"
    and own: "(operation_id op, fencing_token op) \<in> own"
  shows "snapshot own op w"
proof -
  have "\<exists>g. d = to_json g \<and> st_txid g \<in> history (w_store w) (operation_id op) \<and> op_txid op = Some (st_txid g) \<and>
      (op_state op \<in> set sent_states \<longrightarrow> sendable w g)" if d: "signed_tx op = Some d" for d
  proof -
    have "rows_ok (w_store w)" using inv by (simp add: world_inv_def)
    then obtain g where "d = to_json g" "st_txid g \<in> history (w_store w) (operation_id op)" "op_txid op = Some (st_txid g)"
      using row d unfolding rows_ok_def by blast
    then show ?thesis using row d unfolding sendable_def carries_def by auto
  qed
  then show ?thesis using row own by (simp add: snapshot_def owns_def)
qed

lemma owns_evolves:
  assumes "evolves other w w'" "owns own op w"
  shows "owns own op w'"
  using assms unfolding owns_def evolves_def rows_evolve_def by (meson order_trans)

lemma snapshot_evolves:
  assumes ev: "evolves other w w'" and "own \<inter> other = {}" "snapshot own op w"
  shows "snapshot own op w'"
proof -
  let ?i = "operation_id op"
  have own: "owns own op w" using assms(3) by (simp add: snapshot_def)
  then obtain r where r: "get (w_store w) ?i = Some r" "fencing_token op \<le> fencing_token r"
      "(?i, fencing_token op) \<in> own"
    by (auto simp: owns_def)
  from ev r(1) obtain r' where r': "get (w_store w') ?i = Some r'" "fencing_token r \<le> fencing_token r'"
      "lifecycle_part r' = lifecycle_part r \<or>
       ((?i, fencing_token r) \<in> other \<and> fencing_token r' = fencing_token r)"
    unfolding evolves_def rows_evolve_def by blast
  have "lifecycle_part r' = lifecycle_part op" if "fencing_token r' = fencing_token op"
  proof -
    have t: "fencing_token r = fencing_token op" using that r(2) r'(2) by simp
    then have "lifecycle_part r = lifecycle_part op"
      using assms(3) r(1) by (simp add: snapshot_def)
    moreover have "(?i, fencing_token r) \<notin> other" using t r(3) assms(2) by auto
    ultimately show ?thesis using r'(3) by simp
  qed
  moreover have "\<exists>g. d = to_json g \<and> st_txid g \<in> history (w_store w') ?i \<and> op_txid op = Some (st_txid g) \<and>
      (op_state op \<in> set sent_states \<longrightarrow> sendable w' g)" if "signed_tx op = Some d" for d
    using assms(3) that ev unfolding snapshot_def evolves_def by blast
  ultimately show ?thesis
    using owns_evolves [OF ev own] r'(1) by (simp add: snapshot_def)
qed

lemma later_induct:
  assumes "later own w w'" "P w" "\<And>u v. rely own u v \<Longrightarrow> P u \<Longrightarrow> P v"
  shows "P w'"
proof -
  have "(rely own)\<^sup>*\<^sup>* w w'" using assms(1) by simp
  then show ?thesis by (induction rule: rtranclp_induct) (use assms(2,3) in auto)
qed

lemma snapshot_later: "later own w w' \<Longrightarrow> snapshot own op w \<Longrightarrow> snapshot own op w'"
  by (erule later_induct) (auto simp: rely_def intro: snapshot_evolves)

lemma owns_later: "later own w w' \<Longrightarrow> owns own op w \<Longrightarrow> owns own op w'"
  by (erule later_induct) (auto simp: rely_def intro: owns_evolves)

lemma history_later: "later own w w' \<Longrightarrow> t \<in> history (w_store w) i \<Longrightarrow> t \<in> history (w_store w') i"
  by (erule later_induct) (auto simp: rely_def evolves_def)

lemma sendable_later: "later own w w' \<Longrightarrow> sendable w g \<Longrightarrow> sendable w' g"
  by (erule later_induct) (auto simp: rely_def evolves_def)

lemma successful_later:
  "later own w w' \<Longrightarrow> t \<in> successful_txids (w_node w) \<Longrightarrow> t \<in> successful_txids (w_node w')"
  by (erule later_induct) (auto simp: rely_def evolves_def)

lemma head_time_later: "later own w w' \<Longrightarrow> l \<le> head_time (w_node w) \<Longrightarrow> l \<le> head_time (w_node w')"
  by (erule later_induct) (auto simp: rely_def evolves_def)

text \<open>
  The knowledge a lookup gives: if the envelope had expired by the tip at the time of the lookup,
  then it is not on the chain, for as long as the claim holds.
\<close>

definition dead_if :: "operation \<Rightarrow> signedtx \<Rightarrow> time \<Rightarrow> world \<Rightarrow> bool" where
  "dead_if op g l w \<longleftrightarrow> l \<le> head_time (w_node w) \<and>
     (\<forall>r. get (w_store w) (operation_id op) = Some r \<and> fencing_token r = fencing_token op \<and>
        st_expiration g \<le> l \<longrightarrow> st_txid g \<notin> included_txids (w_node w))"

lemma dead_if_step:
  assumes rel: "rely own u v" and snap: "snapshot own op u" "signed_tx op = Some (to_json g)"
    and dead: "dead_if op g l u"
  shows "dead_if op g l v"
proof -
  let ?i = "operation_id op"
  obtain other where ev: "evolves other u v" and inv: "world_inv u" using rel by (auto simp: rely_def)
  have l: "l \<le> head_time (w_node v)" using dead ev by (auto simp: dead_if_def evolves_def)
  have "st_txid g \<notin> included_txids (w_node v)"
    if rv: "get (w_store v) ?i = Some rv" "fencing_token rv = fencing_token op" "st_expiration g \<le> l" for rv
  proof
    assume t: "st_txid g \<in> included_txids (w_node v)"
    obtain ru where ru: "get (w_store u) ?i = Some ru" "fencing_token op \<le> fencing_token ru"
      using snap(1) by (auto simp: snapshot_def owns_def)
    moreover have "fencing_token ru \<le> fencing_token rv"
      using ev ru(1) rv(1) unfolding evolves_def rows_evolve_def by force
    ultimately have tok: "fencing_token ru = fencing_token op" using rv(2) by simp
    then have "st_txid g \<notin> included_txids (w_node u)"
      using dead ru(1) rv(3) unfolding dead_if_def by blast
    then obtain j g' where g': "carries (w_store u) j g'" "st_txid g' = st_txid g"
        "head_time (w_node u) < st_expiration g'"
      using ev t unfolding evolves_def lands_current_def by blast
    have "st_txid g \<in> history (w_store u) ?i" using snap by (auto simp: snapshot_def)
    moreover have "st_txid g \<in> history (w_store u) j"
      using carries_history [OF _ g'(1)] g'(2) inv by (simp add: world_inv_def)
    ultimately have "j = ?i" using inv unfolding world_inv_def unshared_def by blast
    moreover have "lifecycle_part ru = lifecycle_part op"
      using snap(1) ru(1) tok by (simp add: snapshot_def)
    ultimately have "g' = g"
      using g'(1) ru(1) snap(2) lifecycle_fields(1) [of ru op] by (auto simp: carries_def)
    then show False using g'(3) rv(3) dead by (simp add: dead_if_def)
  qed
  with l show ?thesis by (auto simp: dead_if_def)
qed

lemma dead_if_later:
  assumes "later own w w'" "snapshot own op w" "signed_tx op = Some (to_json g)" "dead_if op g l w"
  shows "dead_if op g l w'"
proof -
  have "snapshot own op w' \<and> dead_if op g l w'"
    using assms(1)
  proof (rule later_induct)
    show "snapshot own op w \<and> dead_if op g l w" using assms by simp
    show "snapshot own op v \<and> dead_if op g l v"
      if "rely own u v" "snapshot own op u \<and> dead_if op g l u" for u v
      using that dead_if_step [OF that(1) _ assms(3)] snapshot_evolves
      unfolding rely_def by blast
  qed
  then show ?thesis by simp
qed

section \<open>The rules for the calls\<close>

lemma later_refl: "world_inv w \<Longrightarrow> later own w w"
  by simp

lemma wp_clock_now:
  assumes "\<And>t w'. later own w w' \<Longrightarrow> Q t own l w'"
  shows "wp sha m clock_now Q E own l w"
  using assms by (simp add: clock_now_def)

lemma wp_ref_block:
  assumes "\<And>x w'. later own w w' \<Longrightarrow> Q x own l w'" "\<And>e w'. later own w w' \<Longrightarrow> E e own l w'"
  shows "wp sha m node_ref_block Q E own l w"
  using assms by (auto simp: node_ref_block_def split: sum.split)

lemma wp_solid_block:
  assumes "\<And>x w'. later own w w' \<Longrightarrow> Q x own l w'"
  shows "wp sha m node_solid_block Q E own l w"
  using assms by (simp add: node_solid_block_def)

lemma wp_solid_now:
  assumes "\<And>x w'. later own w w' \<Longrightarrow> head_time (w_node w') \<le> l + m \<Longrightarrow> solid_now (w_node w') = Inr x \<Longrightarrow>
      Q x own l w'" "\<And>e w'. later own w w' \<Longrightarrow> E e own l w'"
  shows "wp sha m node_solid_now Q E own l w"
  using assms by (auto simp: node_solid_now_def split: sum.split)

text \<open>After a step of its own, a worker is again at a point that others may change: \<open>fair_later\<close>
  is used with the empty write set when the step touched no row.\<close>

lemma fair_evolves: "fair_step own w w' \<Longrightarrow> world_inv w' \<and> evolves own w w'"
  by (simp add: fair_step_def)

lemma fair_later: "world_inv w \<Longrightarrow> fair_step {} w w' \<Longrightarrow> later own w w'"
  unfolding fair_step_def rely_def by (auto intro!: r_into_rtranclp exI [of _ "{}"])

lemma later_trans: "later own w w' \<Longrightarrow> later own w' w'' \<Longrightarrow> later own w w''"
  by auto

lemma wp_crash_here:
  assumes "\<And>x w'. later own w w' \<Longrightarrow> Q x own l w'" "\<And>e w'. later own w w' \<Longrightarrow> E e own l w'"
  shows "wp sha m (crash_here p) Q E own l w"
  unfolding crash_here_def wp.simps
proof (intro allI impI conjI)
  fix w' b c
  assume a: "later own w w'" "here (w_crash w') p = (b, c)"
  then have inv: "world_inv w'" by simp
  show "fair_step own w' (w'\<lparr>w_crash := c\<rparr>)" using inv by (rule fair_crash)
  have "later own w (w'\<lparr>w_crash := c\<rparr>)"
    using later_trans [OF a(1) fair_later [OF inv fair_crash [OF inv]]] .
  then show "wp sha m (if b then Raise (SimulatedCrash p) else Return ()) Q E own l (w'\<lparr>w_crash := c\<rparr>)"
    using assms by simp
qed

lemma wp_find_tx:
  assumes "\<And>st w'. later own w w' \<Longrightarrow>
      (ts_result st = INCLUDED \<longleftrightarrow> t \<in> included_txids (w_node w')) \<Longrightarrow>
      (ts_receipt st = Some ''SUCCESS'' \<Longrightarrow> ts_result st = INCLUDED \<Longrightarrow> t \<in> successful_txids (w_node w')) \<Longrightarrow>
      Q st own (head_time (w_node w')) w'"
    and "\<And>e l' w'. later own w w' \<Longrightarrow> E e own l' w'"
  shows "wp sha m (node_find_tx t) Q E own l w"
  unfolding node_find_tx_def wp.simps
proof (intro allI impI conjI)
  fix w' r nd
  assume a: "later own w w'" and f: "find_tx (w_clock w') (w_node w') t = (r, nd)"
  then have inv: "world_inv w'" by simp
  then have wf: "node_wf (w_node w')" by (simp add: world_inv_def)
  show "fair_step own w' (w'\<lparr>w_node := nd\<rparr>)" using inv f by (rule fair_find_tx)
  have lt: "later own w (w'\<lparr>w_node := nd\<rparr>)"
    using later_trans [OF a fair_later [OF inv fair_find_tx [OF inv f]]] .
  obtain fs where nd: "nd = (w_node w')\<lparr>nd_faults := fs\<rparr>" using find_tx_frame [OF f] by blast
  show "wp sha m (lift_exn r) Q E own (head_time (w_node w')) (w'\<lparr>w_node := nd\<rparr>)"
  proof (cases r)
    case (Inl e)
    then show ?thesis using assms(2) [OF lt] by simp
  next
    case (Inr st)
    note truth = find_tx_answers [OF wf f [unfolded Inr]]
    have "ts_result st = INCLUDED \<longleftrightarrow> t \<in> included_txids nd"
      using truth(1) nd by simp
    moreover have "t \<in> successful_txids nd"
      if "ts_receipt st = Some ''SUCCESS''" "ts_result st = INCLUDED"
      using truth(2) that nd by simp
    ultimately show ?thesis
      using assms(1) [OF lt, of st] Inr nd by simp
  qed
qed

lemma wp_broadcast:
  assumes "sendable w g"
    and "\<And>r w'. later own w w' \<Longrightarrow> Q r own l w'" "\<And>e w'. later own w w' \<Longrightarrow> E e own l w'"
  shows "wp sha m (node_broadcast g who) Q E own l w"
  unfolding node_broadcast_def wp.simps
proof (intro allI impI conjI)
  fix w' r nd
  assume a: "later own w w'" and b: "broadcast sha (w_clock w') (w_node w') g who = (r, nd)"
  then have inv: "world_inv w'" by simp
  have s: "sendable w' g" using sendable_later [OF a assms(1)] .
  show "fair_step own w' (w'\<lparr>w_node := nd\<rparr>)" using inv b s by (rule fair_broadcast)
  have "later own w (w'\<lparr>w_node := nd\<rparr>)"
    using later_trans [OF a fair_later [OF inv fair_broadcast [OF inv b s]]] .
  then show "wp sha m (lift_exn r) Q E own l (w'\<lparr>w_node := nd\<rparr>)"
    using assms(2,3) by (simp split: sum.split)
qed

lemma wp_release:
  assumes "\<And>w'. later own w w' \<Longrightarrow> Q () own l w'"
  shows "wp sha m (store_release i tok) Q E own l w"
  unfolding store_release_def wp.simps
proof (intro allI impI conjI)
  fix w' st
  assume a: "later own w w'" and st: "st = release (w_clock w') (w_store w') i tok"
  then have inv: "world_inv w'" by simp
  show "fair_step own w' (w'\<lparr>w_store := st\<rparr>)" unfolding st using inv by (rule fair_release)
  show "Q () own l (w'\<lparr>w_store := st\<rparr>)"
    using assms later_trans [OF a fair_later [OF inv fair_release [OF inv]]] unfolding st by blast
qed

text \<open>The compare-and-set, for a worker that owns the token it passes.\<close>

lemma wp_store_cas:
  assumes own: "(i, tok) \<in> own"
    and legal: "mutable_sets sets" "can_transition src dst"
    and safe: "\<And>w' r. later own w w' \<Longrightarrow> get (w_store w') i = Some r \<Longrightarrow> fencing_token r = tok \<Longrightarrow>
      op_state r = src \<Longrightarrow> safe_write w' i r (written (w_clock w') dst sets renew r) detail"
    and wrote: "\<And>w' w'' r. later own w w' \<Longrightarrow> get (w_store w') i = Some r \<Longrightarrow> fencing_token r = tok \<Longrightarrow>
      op_state r = src \<Longrightarrow> world_inv w'' \<Longrightarrow> evolves own w' w'' \<Longrightarrow> w_node w'' = w_node w' \<Longrightarrow>
      get (w_store w'') = (get (w_store w'))(i \<mapsto> written (w_clock w') dst sets renew r) \<Longrightarrow>
      (\<And>j. history (w_store w'') j = history (w_store w') j \<union> (if j = i then detail_txids detail else {})) \<Longrightarrow>
      Q (Some (written (w_clock w') dst sets renew r)) own l w''"
    and refused: "\<And>w'. later own w w' \<Longrightarrow> Q None own l w'"
  shows "wp sha m (store_cas i tok src dst sets detail renew who) Q E own l w"
  unfolding store_cas_def wp.simps
proof (intro allI impI)
  fix w' res st
  assume a: "later own w w'" and uns: "unshared st"
    and c: "cas (w_clock w') (w_clock w') (w_store w') i tok src dst sets detail renew who = (res, st)"
  then have inv: "world_inv w'" by simp
  show "fair_step own w' (w'\<lparr>w_store := st\<rparr>) \<and> wp sha m (lift_exn res) Q E own l (w'\<lparr>w_store := st\<rparr>)"
    using c
  proof (cases rule: cas_cases)
    case refused': refused
    have "res \<noteq> Inl e" for e
      using c legal by (auto simp: cas_def mutable_sets_def Let_def split: option.splits if_splits)
    then have "res = Inr None" using refused'(2) by (cases res) auto
    then show ?thesis
      using refused' refused [OF a] fair_refl [OF inv] by simp
  next
    case wrote': (wrote r)
    let ?r = "written (w_clock w') dst sets renew r"
    have id: "operation_id ?r = i"
      using written_keeps(1) [OF wrote'(6), of "w_clock w'" dst renew r] inv
        store_wf_row [OF _ wrote'(1)]
      by (simp add: intake_part_def world_inv_def)
    have fs: "fair_step own w' (w'\<lparr>w_store := st\<rparr>)"
      using fair_write [OF inv wrote'(1) _ id _ wrote'(8) uns safe [OF a wrote'(1,2,3)]]
        own wrote'(2) written_keeps(3) [OF wrote'(6)] by simp
    moreover have "get (w_store (w'\<lparr>w_store := st\<rparr>)) = (get (w_store w'))(i \<mapsto> ?r)"
      using wrote'(8) by simp
    moreover have "history (w_store (w'\<lparr>w_store := st\<rparr>)) j =
        history (w_store w') j \<union> (if j = i then detail_txids detail else {})" for j
      using wrote'(8) id by (auto simp: history_append_event)
    ultimately have "Q (Some ?r) own l (w'\<lparr>w_store := st\<rparr>)"
      using wrote [OF a wrote'(1,2,3), of "w'\<lparr>w_store := st\<rparr>"] fair_evolves [OF fs] by simp
    then show ?thesis using fs wrote'(7) by simp
  qed
qed

text \<open>The pipeline's write: on a snapshot, with the lost claim as an exception.\<close>

lemma apply_set_lifecycle:
  "field_name f \<in> set MUTABLE_FIELDS \<Longrightarrow> lifecycle_part (apply_set f r) = apply_set f (lifecycle_part r)"
  by (cases f) (simp_all add: MUTABLE_FIELDS_def lifecycle_part_def)

lemma fold_sets_lifecycle:
  "mutable_sets sets \<Longrightarrow> lifecycle_part (fold apply_set sets r) = fold apply_set sets (lifecycle_part r)"
  by (induction sets arbitrary: r) (simp_all add: mutable_sets_def apply_set_lifecycle)

lemma written_fields:
  assumes "mutable_sets sets" "lifecycle_part r = lifecycle_part op"
  shows "signed_tx (written now dst sets renew r) = signed_tx (fold apply_set sets op)"
    "operation_id (written now dst sets renew r) = operation_id op"
    "op_txid (written now dst sets renew r) = op_txid (fold apply_set sets op)"
proof -
  have "lifecycle_part (fold apply_set sets r) = lifecycle_part (fold apply_set sets op)"
    by (simp add: fold_sets_lifecycle assms)
  then have "signed_tx (fold apply_set sets r) = signed_tx (fold apply_set sets op)"
      "op_txid (fold apply_set sets r) = op_txid (fold apply_set sets op)"
    by (rule lifecycle_fields)+
  then show "op_txid (written now dst sets renew r) = op_txid (fold apply_set sets op)"
    "signed_tx (written now dst sets renew r) = signed_tx (fold apply_set sets op)"
    by (simp_all add: written_def Let_def split: option.split)
  show "operation_id (written now dst sets renew r) = operation_id op"
    using written_keeps(1) [OF assms(1), of now dst renew r] lifecycle_fields(4) [OF assms(2)]
    by (simp add: intake_part_def)
qed

text \<open>When the write is safe, read off the snapshot.\<close>

definition safe_cas :: "operation \<Rightarrow> op_state \<Rightarrow> field_set list \<Rightarrow> (string, pyval) dict \<Rightarrow> world \<Rightarrow> bool" where
  "safe_cas op dst sets detail w \<longleftrightarrow>
     (let s' = signed_tx (fold apply_set sets op) in
     (\<forall>d. s' = Some d \<longrightarrow> (\<exists>g. d = to_json g \<and>
        st_txid g \<in> history (w_store w) (operation_id op) \<union> detail_txids detail \<and>
        op_txid (fold apply_set sets op) = Some (st_txid g))) \<and>
     (op_state op \<in> set sent_states \<longrightarrow> (dst \<in> set sent_states \<and> s' = signed_tx op) \<or>
        (\<forall>g. signed_tx op = Some (to_json g) \<longrightarrow>
           st_expiration g \<le> head_time (w_node w) \<and> st_txid g \<notin> included_txids (w_node w))) \<and>
     (dst = CONFIRMED \<longrightarrow> (\<exists>g. s' = Some (to_json g) \<and> st_txid g \<in> successful_txids (w_node w))))"

lemma wp_p_cas:
  assumes snap: "snapshot own op w"
    and legal: "mutable_sets sets" "can_transition (op_state op) dst"
    and safe: "\<And>w' r. later own w w' \<Longrightarrow> snapshot own op w' \<Longrightarrow>
      get (w_store w') (operation_id op) = Some r \<Longrightarrow> fencing_token r = fencing_token op \<Longrightarrow>
      safe_cas op dst sets detail w'"
    and post: "\<And>w' op'. world_inv w' \<Longrightarrow> snapshot own op' w' \<Longrightarrow> op_state op' = dst \<Longrightarrow>
      operation_id op' = operation_id op \<Longrightarrow> fencing_token op' = fencing_token op \<Longrightarrow>
      signed_tx op' = signed_tx (fold apply_set sets op) \<Longrightarrow>
      op_txid op' = op_txid (fold apply_set sets op) \<Longrightarrow>
      detail_txids detail \<subseteq> history (w_store w') (operation_id op) \<Longrightarrow> Q op' own l w'"
    and lost: "\<And>e w'. owns own op w' \<Longrightarrow> E e own l w'"
  shows "wp sha m (p_cas cfg op dst wid sets detail) Q E own l w"
  unfolding p_cas_def wp_pbind
proof (rule wp_store_cas)
  show "(operation_id op, fencing_token op) \<in> own"
    using snap by (simp add: snapshot_def owns_def)
  show "mutable_sets sets" "can_transition (op_state op) dst" by fact+
next
  fix w' r
  assume a: "later own w w'" "get (w_store w') (operation_id op) = Some r"
    "fencing_token r = fencing_token op" "op_state r = op_state op"
  have s: "snapshot own op w'" using snapshot_later [OF a(1) snap] .
  then have lp: "lifecycle_part r = lifecycle_part op" using a(2,3) by (simp add: snapshot_def)
  show "safe_write w' (operation_id op) r
      (written (w_clock w') dst sets (Some (lease_seconds cfg)) r) detail"
    using safe [OF a(1) s a(2,3)] lifecycle_fields [OF lp] written_fields(1,3) [OF legal(1) lp]
      written_keeps(2) [OF legal(1)]
    by (simp add: safe_write_def safe_cas_def Let_def)
next
  fix w' w'' :: world and r :: operation
  let ?r = "written (w_clock w') dst sets (Some (lease_seconds cfg)) r"
  assume a: "later own w w'" "get (w_store w') (operation_id op) = Some r"
    "fencing_token r = fencing_token op" "op_state r = op_state op" and inv: "world_inv w''"
    and ev: "evolves own w' w''" and nd: "w_node w'' = w_node w'"
    and g: "get (w_store w'') = (get (w_store w'))(operation_id op \<mapsto> ?r)"
    and h: "\<And>j. history (w_store w'') j =
      history (w_store w') j \<union> (if j = operation_id op then detail_txids detail else {})"
  have s: "snapshot own op w'" using snapshot_later [OF a(1) snap] .
  then have lp: "lifecycle_part r = lifecycle_part op" using a(2,3) by (simp add: snapshot_def)
  note f = written_fields [OF legal(1) lp, of "w_clock w'" dst "Some (lease_seconds cfg)"]
    written_keeps(2,3) [OF legal(1), of "w_clock w'" dst "Some (lease_seconds cfg)" r]
  have "snapshot own ?r w''"
    by (rule snapshot_row [OF inv]) (use s g f a(3) in \<open>simp_all add: snapshot_def owns_def\<close>)
  then show "wp sha m (case Some ?r of None \<Rightarrow> Raise (LostClaim (operation_id op) (op_state op) dst)
      | Some op' \<Rightarrow> Return op') Q E own l w''"
    using post [OF inv, of ?r] f a(3) h by simp
next
  fix w' assume a: "later own w w'"
  have "owns own op w'" using owns_later [OF a] snap by (simp add: snapshot_def)
  then show "wp sha m (case None of None \<Rightarrow> Raise (LostClaim (operation_id op) (op_state op) dst)
      | Some op' \<Rightarrow> Return op') Q E own l w'"
    using lost by simp
qed

section \<open>Framing\<close>

text \<open>Everything but the claim itself works on tokens it already owns.\<close>

primrec no_claim :: "'a prog \<Rightarrow> bool" where
  "no_claim (Return x) = True"
| "no_claim (Raise e) = True"
| "no_claim (Clock_Now k) = (\<forall>t. no_claim (k t))"
| "no_claim (Store_Claim states limit wid lease k) = False"
| "no_claim (Store_Cas i tok src dst sets detail renew who k) = (\<forall>r. no_claim (k r))"
| "no_claim (Store_Release i tok k) = (\<forall>r. no_claim (k r))"
| "no_claim (Node_Ref_Block k) = (\<forall>r. no_claim (k r))"
| "no_claim (Node_Broadcast g who k) = (\<forall>r. no_claim (k r))"
| "no_claim (Node_Find_Tx t k) = (\<forall>r. no_claim (k r))"
| "no_claim (Node_Solid_Now k) = (\<forall>r. no_claim (k r))"
| "no_claim (Node_Solid_Block k) = (\<forall>r. no_claim (k r))"
| "no_claim (Crash_Here p k) = (\<forall>r. no_claim (k r))"

lemma no_claim_pbind: "no_claim p \<Longrightarrow> (\<And>x. no_claim (f x)) \<Longrightarrow> no_claim (pbind p f)"
  by (induction p) simp_all

lemma no_claim_catch:
  "no_claim p \<Longrightarrow> (\<And>e. no_claim (h e)) \<Longrightarrow> (\<And>x. no_claim (f x)) \<Longrightarrow> no_claim (catch p h f)"
  by (induction p) simp_all

lemma no_claim_lift [simp]: "no_claim (lift_exn r)"
  by (cases r) (simp_all add: lift_exn_def)

lemma rely_antimono: "rely own u v \<Longrightarrow> own' \<subseteq> own \<Longrightarrow> rely own' u v"
  unfolding rely_def by blast

lemma later_antimono: "later own u v \<Longrightarrow> own' \<subseteq> own \<Longrightarrow> later own' u v"
  using rtranclp_mono [of "rely own" "rely own'"] rely_antimono by blast

lemma fair_step_mono: "fair_step own u v \<Longrightarrow> own \<subseteq> own' \<Longrightarrow> fair_step own' u v"
  unfolding fair_step_def evolves_def rows_evolve_def by (meson subsetD)

lemma fair_step_later:
  "world_inv u \<Longrightarrow> fair_step own u v \<Longrightarrow> own \<inter> own' = {} \<Longrightarrow> later own' u v"
  unfolding fair_step_def rely_def by (auto intro!: r_into_rtranclp exI [of _ own])

text \<open>A program that keeps to its own tokens may be handed others, and a fact that only their owner could
  disturb holds through it.  \<open>framed\<close> is what that asks of one call.\<close>

definition framed :: "(uuid \<times> int) set \<Rightarrow> (uuid \<times> int) set \<Rightarrow> (world \<Rightarrow> bool) \<Rightarrow> bool" where
  "framed own rest R \<longleftrightarrow> own \<inter> rest = {} \<and> (\<forall>u v. later rest u v \<longrightarrow> R u \<longrightarrow> R v)"

lemma framed_env:
  assumes "framed own rest R" "later (own \<union> rest) u v" "R u"
  shows "later own u v" "R v"
  using assms later_antimono [of "own \<union> rest" u v own] later_antimono [of "own \<union> rest" u v rest]
  unfolding framed_def by blast+

lemma framed_self:
  assumes "framed own rest R" "world_inv u" "R u" "fair_step own u v \<and> A" "A \<Longrightarrow> R v \<Longrightarrow> B"
  shows "fair_step (own \<union> rest) u v \<and> B"
  using assms fair_step_mono [of own u v "own \<union> rest"] fair_step_later [of u own v rest]
  unfolding framed_def by blast

lemma wp_frame:
  assumes "wp sha m p Q E own l w" "no_claim p" "R w" "own \<inter> rest = {}"
    and stable: "\<And>u v. later rest u v \<Longrightarrow> R u \<Longrightarrow> R v"
  shows "wp sha m p (\<lambda>x own' l w. own' = own \<union> rest \<and> R w \<and> Q x own l w)
    (\<lambda>e own' l w. own' = own \<union> rest \<and> R w \<and> E e own l w) (own \<union> rest) l w"
proof -
  have fr: "framed own rest R" using assms(4) stable by (auto simp: framed_def)
  note env = framed_env [OF fr]
  note acts = framed_self [OF fr, where B = "wp sha m q (\<lambda>x own' l w. own' = own \<union> rest \<and> R w \<and> Q x own l w)
    (\<lambda>e own' l w. own' = own \<union> rest \<and> R w \<and> E e own l w) (own \<union> rest) l' v" and
    A = "wp sha m q Q E own l' v" for q l' v]
  show ?thesis
    using assms(1-3)
  proof (induction p arbitrary: l w)
    case (Clock_Now k)
    note prems = Clock_Now.prems [unfolded wp.simps no_claim.simps]
    show ?case
      unfolding wp.simps
      by (intro allI impI Clock_Now.IH [OF rangeI]; use prems env [OF _ prems(3)] in blast)
  next
    case (Store_Cas i tok src dst sets detail renew who k)
    note prems = Store_Cas.prems [unfolded wp.simps no_claim.simps]
    show ?case
      unfolding wp.simps
      by (intro allI impI, rule acts; use prems Store_Cas.IH [OF rangeI] env [OF _ prems(3)] in blast)
  next
    case (Store_Release i tok k)
    note prems = Store_Release.prems [unfolded wp.simps no_claim.simps]
    show ?case
      unfolding wp.simps
      by (intro allI impI, rule acts; use prems Store_Release.IH [OF rangeI] env [OF _ prems(3)] in blast)
  next
    case (Node_Ref_Block k)
    note prems = Node_Ref_Block.prems [unfolded wp.simps no_claim.simps]
    show ?case
      unfolding wp.simps
      by (intro allI impI Node_Ref_Block.IH [OF rangeI]; use prems env [OF _ prems(3)] in blast)
  next
    case (Node_Broadcast g who k)
    note prems = Node_Broadcast.prems [unfolded wp.simps no_claim.simps]
    show ?case
      unfolding wp.simps
      by (intro allI impI, rule acts; use prems Node_Broadcast.IH [OF rangeI] env [OF _ prems(3)] in blast)
  next
    case (Node_Find_Tx t k)
    note prems = Node_Find_Tx.prems [unfolded wp.simps no_claim.simps]
    show ?case
      unfolding wp.simps
      by (intro allI impI, rule acts; use prems Node_Find_Tx.IH [OF rangeI] env [OF _ prems(3)] in blast)
  next
    case (Node_Solid_Now k)
    note prems = Node_Solid_Now.prems [unfolded wp.simps no_claim.simps]
    show ?case
      unfolding wp.simps
      by (intro allI impI Node_Solid_Now.IH [OF rangeI]; use prems env [OF _ prems(3)] in blast)
  next
    case (Node_Solid_Block k)
    note prems = Node_Solid_Block.prems [unfolded wp.simps no_claim.simps]
    show ?case
      unfolding wp.simps
      by (intro allI impI Node_Solid_Block.IH [OF rangeI]; use prems env [OF _ prems(3)] in blast)
  next
    case (Crash_Here p k)
    note prems = Crash_Here.prems [unfolded wp.simps no_claim.simps]
    show ?case
      unfolding wp.simps
      by (intro allI impI, rule acts; use prems Crash_Here.IH [OF rangeI] env [OF _ prems(3)] in blast)
  qed simp_all
qed

end
