(* ===== verification/Handlers_Safe.thy ===== *)
theory Handlers_Safe
  imports Interference
begin

text \<open>
  Every handler of the pipeline, and the worker's loop around them, keeps the invariant whatever
  other workers do in between: from a snapshot of a row it owns, a handler ends with a snapshot
  of the row it wrote, or with an exception.
\<close>

section \<open>The handlers\<close>

abbreviation step_ok :: "operation \<Rightarrow> (uuid \<times> int) set \<Rightarrow> time \<Rightarrow> world \<Rightarrow> bool" where
  "step_ok op' own l w \<equiv> snapshot own op' w"

abbreviation step_exn :: "operation \<Rightarrow> exn \<Rightarrow> (uuid \<times> int) set \<Rightarrow> time \<Rightarrow> world \<Rightarrow> bool" where
  "step_exn op e own l w \<equiv> owns own op w"

lemma owns_cong:
  "operation_id op' = operation_id op \<Longrightarrow> fencing_token op' = fencing_token op \<Longrightarrow>
     owns own op' w = owns own op w"
  by (simp add: owns_def)

lemma snapshot_owns: "snapshot own op w \<Longrightarrow> owns own op w"
  by (simp add: snapshot_def)

lemma snapshot_signed:
  "snapshot own op w \<Longrightarrow> signed_tx op = Some (to_json g) \<Longrightarrow>
     st_txid g \<in> history (w_store w) (operation_id op) \<and> op_txid op = Some (st_txid g) \<and> (op_state op \<in> set sent_states \<longrightarrow> sendable w g)"
  by (auto simp: snapshot_def)

lemmas handler_sets = mutable_sets_def MUTABLE_FIELDS_def can_transition_def sent_states_def

text \<open>A write that leaves the signed envelope alone and does not leave the sent states.\<close>

lemma wp_p_cas_quiet:
  assumes snap: "snapshot own op w"
    and legal: "mutable_sets sets" "can_transition (op_state op) dst"
    and quiet: "signed_tx (fold apply_set sets op) = signed_tx op" "op_txid (fold apply_set sets op) = op_txid op"
      "op_state op \<in> set sent_states \<Longrightarrow> dst \<in> set sent_states" "dst \<noteq> CONFIRMED"
    and post: "\<And>w' op'. world_inv w' \<Longrightarrow> snapshot own op' w' \<Longrightarrow> op_state op' = dst \<Longrightarrow>
      operation_id op' = operation_id op \<Longrightarrow> fencing_token op' = fencing_token op \<Longrightarrow>
      signed_tx op' = signed_tx op \<Longrightarrow> Q op' own l w'"
    and lost: "\<And>e w'. owns own op w' \<Longrightarrow> E e own l w'"
  shows "wp sha m (p_cas cfg op dst wid sets detail) Q E own l w"
proof (rule wp_p_cas [OF snap legal])
  fix w' r
  assume "snapshot own op w'"
  then show "safe_cas op dst sets detail w'"
    using quiet by (auto simp: safe_cas_def snapshot_def Let_def)
qed (use post quiet(1) lost in auto)

lemma wp_load_signed:
  assumes "snapshot own op w" "world_inv w"
    and "\<And>g. signed_tx op = Some (to_json g) \<Longrightarrow> Q g own l w" "\<And>e. E e own l w"
  shows "wp sha m (load_signed op) Q E own l w"
proof (cases "signed_tx op")
  case None
  then show ?thesis using assms(4) by (simp add: load_signed_def)
next
  case (Some d)
  then obtain g where "d = to_json g" using assms(1) by (auto simp: snapshot_def)
  then show ?thesis using Some assms(3) by (simp add: load_signed_def)
qed

lemma wp_rebuild:
  assumes snap: "snapshot own op w" and st: "op_state op \<in> {SIGNED, BROADCASTING, BROADCAST}"
    and evid: "op_state op \<noteq> SIGNED \<Longrightarrow> \<exists>g k. signed_tx op = Some (to_json g) \<and> dead_if op g k w \<and>
      st_expiration g \<le> k"
  shows "wp sha m (rebuild cfg op wid why ev) step_ok (step_exn op) own l w"
  unfolding rebuild_def
proof (rule wp_p_cas [OF snap])
  show "mutable_sets [Set_attempts (attempts op + 1), Set_last_error (Some why), Set_signed_tx None,
        Set_unsigned_tx None, Set_txid None, Set_tx_expiration None]"
    by (simp add: handler_sets)
  show "can_transition (op_state op) SIGNING" using st by (auto simp: can_transition_def)
next
  fix w' r
  assume a: "later own w w'" "get (w_store w') (operation_id op) = Some r"
    "fencing_token r = fencing_token op"
  show "safe_cas op SIGNING [Set_attempts (attempts op + 1), Set_last_error (Some why),
      Set_signed_tx None, Set_unsigned_tx None, Set_txid None, Set_tx_expiration None]
      [(''retired_txid'', opt_str (op_txid op)), (''reason'', PStr why),
        (''expiry_evidence'', PDict ev)] w'"
  proof (cases "op_state op = SIGNED")
    case False
    then obtain g k where g: "signed_tx op = Some (to_json g)" "dead_if op g k w" "st_expiration g \<le> k"
      using evid by blast
    then have "dead_if op g k w'" using dead_if_later [OF a(1) snap] by blast
    then have "st_expiration g \<le> head_time (w_node w') \<and> st_txid g \<notin> included_txids (w_node w')"
      using g(3) a(2,3) by (auto simp: dead_if_def)
    then show ?thesis using g(1) by (simp add: safe_cas_def)
  qed (simp add: safe_cas_def sent_states_def)
qed simp_all

lemma wp_settle:
  assumes snap: "snapshot own op w" and st: "op_state op = BROADCASTING"
  shows "wp sha m (settle_broadcast_result cfg op wid stx res) step_ok (step_exn op) own l w"
proof -
  have quiet: "wp sha m (p_cas cfg op dst wid sets det) step_ok (step_exn op) own l w'"
    if "snapshot own op w'" "dst \<in> {BROADCAST, FAILED, BROADCASTING}" "mutable_sets sets"
      "signed_tx (fold apply_set sets op) = signed_tx op" "op_txid (fold apply_set sets op) = op_txid op" for dst sets det w'
    using that st by (intro wp_p_cas_quiet) (auto simp: handler_sets)
  have accepted: "wp sha m (pbind clock_now (\<lambda>now.
      p_cas cfg op BROADCAST wid [Set_broadcast_at (Some now)] det)) step_ok (step_exn op) own l w" for det
    unfolding wp_pbind
    by (intro wp_clock_now quiet snapshot_later [OF _ snap]) (simp_all add: handler_sets)
  have other: "wp sha m (p_cas cfg op FAILED wid [Set_failure_reason x] det) step_ok (step_exn op) own l w"
      "wp sha m (p_cas cfg op BROADCASTING wid [Set_last_error x] det) step_ok (step_exn op) own l w" for x det
    by (intro quiet snap; simp add: handler_sets)+
  show ?thesis
    unfolding settle_broadcast_result_def Let_def
    using accepted other snap by simp
qed

lemma wp_validate:
  assumes snap: "snapshot own op w" and st: "op_state op = REQUESTED"
  shows "wp sha m (p_validate sha cfg op wid) step_ok (step_exn op) own l w"
proof -
  have quiet: "wp sha m (p_cas cfg op dst wid sets det) step_ok (step_exn op) own l w"
    if "dst \<in> {VALIDATED, REJECTED}" "mutable_sets sets"
      "signed_tx (fold apply_set sets op) = signed_tx op" "op_txid (fold apply_set sets op) = op_txid op" for dst sets det
    using that st by (intro wp_p_cas_quiet [OF snap]) (auto simp: handler_sets)
  have "wp sha m (p_cas cfg op REJECTED wid [Set_failure_reason x] []) step_ok (step_exn op) own l w"
      "wp sha m (p_cas cfg op VALIDATED wid [] []) step_ok (step_exn op) own l w" for x
    by (intro quiet; simp add: handler_sets)+
  then show ?thesis
    by (simp add: p_validate_def)
qed

lemma wp_persist_and_sign:
  assumes s: "snapshot own op w" and st: "op_state op = SIGNING" and same: "operation_id op = operation_id op0"
    "fencing_token op = fencing_token op0"
  shows "wp sha m (persist_and_sign sha cfg sg op wid u) step_ok (step_exn op0) own l w"
proof -
  have sign: "wp sha m (p_cas cfg op1 SIGNED wid [Set_signed_tx (Some (to_json (sign sha sg u)))] [])
      step_ok (step_exn op0) own l w1"
    if s: "snapshot own op1 w1" and st1: "op_state op1 = SIGNING" and same1: "operation_id op1 = operation_id op0"
      "fencing_token op1 = fencing_token op0"
      and h: "ut_txid u \<in> history (w_store w1) (operation_id op0)" "op_txid op1 = Some (ut_txid u)" for op1 w1
  proof (rule wp_p_cas [OF s])
    fix w' r
    assume "later own w1 w'"
    then have "ut_txid u \<in> history (w_store w') (operation_id op0)" using h(1) by (rule history_later)
    then show "safe_cas op1 SIGNED [Set_signed_tx (Some (to_json (sign sha sg u)))] [] w'"
      using st1 same1 h(2) by (auto simp: safe_cas_def sent_states_def)
  qed (use st1 in \<open>simp_all add: handler_sets owns_cong [OF same1]\<close>)
  show ?thesis
    unfolding persist_and_sign_def wp_pbind
  proof (rule wp_p_cas [OF s])
    fix w' op'
    assume a: "world_inv w'" "snapshot own op' w'" "op_state op' = SIGNING"
      "operation_id op' = operation_id op" "fencing_token op' = fencing_token op"
      "op_txid op' = op_txid (fold apply_set [Set_unsigned_tx (Some (ut_raw_data u)), Set_txid (Some (ut_txid u)),
         Set_tx_expiration (Some (ut_expiration u)), Set_signed_tx None] op)"
      "detail_txids [(''txid'', PStr (ut_txid u)), (''reason'', PStr ''envelope built'')]
         \<subseteq> history (w_store w') (operation_id op)"
    then have h: "ut_txid u \<in> history (w_store w') (operation_id op0)"
      by (simp add: detail_txids_def same)
    show "wp sha m (crash_here SIGN_MID) (\<lambda>x. wp sha m (p_cas cfg op' SIGNED wid
        [Set_signed_tx (Some (to_json (sign sha sg u)))] []) step_ok (step_exn op0)) (step_exn op0) own l w'"
    proof (rule wp_crash_here)
      fix w''
      assume lt: "later own w' w''"
      show "wp sha m (p_cas cfg op' SIGNED wid [Set_signed_tx (Some (to_json (sign sha sg u)))] [])
          step_ok (step_exn op0) own l w''"
        using a same snapshot_later [OF lt a(2)] history_later [OF lt h] by (intro sign) simp_all
      show "owns own op0 w''"
        using owns_later [OF lt snapshot_owns [OF a(2)]] a(4,5) same by (simp add: owns_def)
    qed
  qed (use st same in \<open>simp_all add: handler_sets safe_cas_def owns_cong [OF same]\<close>)
qed

lemma wp_build_fresh:
  assumes s: "snapshot own op w" and st: "op_state op = SIGNING" and same: "operation_id op = operation_id op0"
    "fencing_token op = fencing_token op0"
  shows "wp sha m (build_fresh sha cfg sg op wid) step_ok (step_exn op0) own l w"
proof (cases "attempts op \<ge> max_build_attempts cfg")
  case True
  have "wp sha m (p_cas cfg op FAILED wid [Set_failure_reason x] []) step_ok (step_exn op0) own l w" for x
    by (rule wp_p_cas_quiet [OF s]) (use st in \<open>simp_all add: handler_sets owns_cong [OF same]\<close>)
  then show ?thesis using True by (simp add: build_fresh_def)
next
  case False
  have own0: "owns own op0 w'" if "later own w w'" for w'
    using owns_later [OF that snapshot_owns [OF s]] same by (simp add: owns_def)
  show ?thesis
    unfolding build_fresh_def if_not_P [OF False] wp_pbind
  proof (rule wp_ref_block, rule wp_clock_now)
    fix ref w2 now w3
    assume lt: "later own w w2" "later own w2 w3"
    then have lt3: "later own w w3" by (rule later_trans)
    have "wp sha m (persist_and_sign sha cfg sg op wid u) step_ok (step_exn op0) own l w3" for u
      using snapshot_later [OF lt3 s] st same by (rule wp_persist_and_sign)
    then show "wp sha m (lift_exn (py_str (amount_units op)))
        (\<lambda>units. wp sha m (persist_and_sign sha cfg sg op wid
            (unsigned_envelope sha cfg op units ref now)) step_ok (step_exn op0))
        (step_exn op0) own l w3"
      using own0 [OF lt3] by (simp split: sum.split)
  qed (use own0 in blast)
qed

lemma wp_build_and_sign:
  assumes snap: "snapshot own op w" and st: "op_state op \<in> {VALIDATED, SIGNING}"
  shows "wp sha m (build_and_sign sha cfg sg op wid) step_ok (step_exn op) own l w"
proof (cases "op_state op = VALIDATED")
  case True
  show ?thesis
    unfolding build_and_sign_def wp_pbind if_P [OF True]
    by (rule wp_p_cas_quiet [OF snap]) (use True in \<open>auto simp: handler_sets intro: wp_build_fresh\<close>)
next
  case False
  then show ?thesis
    using wp_build_fresh [OF snap _ refl refl] st by (simp add: build_and_sign_def)
qed

lemma wp_on_timeout:
  "snapshot own op w \<Longrightarrow> wp sha m (on_timeout op e) step_ok (step_exn op) own l w"
  by (auto simp: on_timeout_def snapshot_owns split: exn.split)

lemma wp_first_send:
  assumes snap: "snapshot own op w" and st: "op_state op = BROADCASTING"
    and g: "signed_tx op = Some (to_json g)"
  shows "wp sha m (first_send cfg op wid g) step_ok (step_exn op) own l w"
  unfolding first_send_def wp_pbind wp_catch
proof (rule wp_crash_here, rule wp_broadcast)
  fix w1 assume lt: "later own w w1"
  have s1: "snapshot own op w1" using snapshot_later [OF lt snap] .
  show "sendable w1 g" using snapshot_signed [OF s1 g] st by (simp add: sent_states_def)
  fix w2 assume lt2: "later own w1 w2"
  have s2: "snapshot own op w2" using snapshot_later [OF lt2 s1] .
  show "wp sha m (crash_here BROADCAST_POST_SEND)
      (\<lambda>_. wp sha m (settle_broadcast_result cfg op wid g r) step_ok (step_exn op)) (step_exn op) own l w2" for r
    using s2 st
    by (intro wp_crash_here wp_settle) (auto intro: snapshot_later owns_later snapshot_owns)
  show "wp sha m (on_timeout op e) step_ok (step_exn op) own l w2" for e
    using s2 by (rule wp_on_timeout)
next
  fix w1 assume "later own w w1"
  then show "owns own op w1" using owns_later snapshot_owns [OF snap] by blast
qed

lemma wp_p_broadcast:
  assumes snap: "snapshot own op w" and inv: "world_inv w" and st: "op_state op = SIGNED"
  shows "wp sha m (p_broadcast cfg op wid) step_ok (step_exn op) own l w"
  unfolding p_broadcast_def wp_pbind
proof (rule wp_load_signed [OF snap inv], rule wp_clock_now)
  fix g now w1
  assume g: "signed_tx op = Some (to_json g)" and lt: "later own w w1"
  have s1: "snapshot own op w1" using snapshot_later [OF lt snap] .
  have "wp sha m (p_cas cfg op BROADCASTING wid [] det)
      (\<lambda>op'. wp sha m (first_send cfg op' wid g) step_ok (step_exn op)) (step_exn op) own l w1" for det
  proof (rule wp_p_cas_quiet [OF s1])
    fix w2 op'
    assume a: "snapshot own op' w2" "op_state op' = BROADCASTING" "operation_id op' = operation_id op"
      "fencing_token op' = fencing_token op" "signed_tx op' = signed_tx op"
    show "wp sha m (first_send cfg op' wid g) step_ok (step_exn op) own l w2"
      using wp_first_send [OF a(1,2)] a(5) g owns_cong [OF a(3,4)] by simp
  qed (use st in \<open>simp_all add: handler_sets\<close>)
  then show "wp sha m (if now \<ge> st_expiration g then
       rebuild cfg op wid ''expired before first send''
         [(''rule'', PStr ''never-broadcast envelope; local expiry check'')]
     else
       pbind (p_cas cfg op BROADCASTING wid []
                [(''txid'', PStr (st_txid g)), (''reason'', PStr ''write-ahead'')]) (\<lambda>op.
       first_send cfg op wid g))
     step_ok (step_exn op) own l w1"
    using wp_rebuild [OF s1] st by (simp add: wp_pbind)
qed (use snapshot_owns [OF snap] in blast)

lemma wp_proof_of_death:
  assumes "\<And>b ev w'. later own w w' \<Longrightarrow> (b \<Longrightarrow> st_expiration g \<le> l) \<Longrightarrow> Q (b, ev) own l w'"
    and "\<And>e w'. later own w w' \<Longrightarrow> E e own l w'"
  shows "wp sha (expiration_safety_seconds cfg) (proof_of_death cfg g) Q E own l w"
  unfolding proof_of_death_def wp_pbind Let_def
proof (rule wp_solid_now, rule wp_solid_block)
  fix s w1 sb w2
  assume lt: "later own w w1" "later own w1 w2"
    and prompt: "head_time (w_node w1) \<le> l + expiration_safety_seconds cfg"
    and s: "solid_now (w_node w1) = Inr s"
  have "s \<le> head_time (w_node w1)"
    using solid_now_le_head [OF _ s] lt(1) by (simp add: world_inv_def node_wf_def)
  then have "st_expiration g + expiration_safety_seconds cfg \<le> s \<Longrightarrow> st_expiration g \<le> l"
    using prompt by simp
  then show "wp sha (expiration_safety_seconds cfg) (Return
      (st_expiration g + expiration_safety_seconds cfg \<le> s,
       [(''solid_chain_time'', PIso s), (''solid_block'', PInt sb),
        (''tx_expiration'', PIso (st_expiration g)),
        (''safety_margin_s'', PDur (expiration_safety_seconds cfg)),
        (''node_lookup'', PStr ''unknown'')])) Q E own l w2"
    using assms(1) [OF later_trans [OF lt]] by simp
qed (use assms(2) in blast)

text \<open>
  A failed lookup followed by a proof of death: the rest of the handler starts from a snapshot, and
  if the proof succeeded its rebuild is safe.
\<close>

lemma wp_death_rebuild:
  assumes snap: "snapshot own op w" and st: "op_state op \<in> {BROADCASTING, BROADCAST}"
    and g: "signed_tx op = Some (to_json g)"
    and unseen: "st_txid g \<notin> included_txids (w_node w)" and l: "l = head_time (w_node w)"
    and alive: "\<And>w'. later own w w' \<Longrightarrow> snapshot own op w' \<Longrightarrow>
      wp sha (expiration_safety_seconds cfg) other step_ok (step_exn op) own l w'"
  shows "wp sha (expiration_safety_seconds cfg) (proof_of_death cfg g)
      (\<lambda>x. wp sha (expiration_safety_seconds cfg) (case x of (dead, evidence) \<Rightarrow>
         if dead then rebuild cfg op wid why evidence else other) step_ok (step_exn op))
      (step_exn op) own l w"
proof (rule wp_proof_of_death)
  fix b ev w2
  assume lt2: "later own w w2" and b: "b \<Longrightarrow> st_expiration g \<le> l"
  have s2: "snapshot own op w2" using snapshot_later [OF lt2 snap] .
  have "dead_if op g l w" using unseen l by (simp add: dead_if_def)
  then have "dead_if op g l w2" using dead_if_later [OF lt2 snap g] by blast
  then have "wp sha (expiration_safety_seconds cfg) (rebuild cfg op wid why ev)
      step_ok (step_exn op) own l w2" if b
    by (intro wp_rebuild [OF s2]) (use st g b that in auto)
  then show "wp sha (expiration_safety_seconds cfg) (case (b, ev) of (dead, evidence) \<Rightarrow>
         if dead then rebuild cfg op wid why evidence else other) step_ok (step_exn op) own l w2"
    using alive [OF lt2 s2] by simp
qed (use owns_later snapshot_owns [OF snap] in blast)

lemma wp_mark_found:
  assumes snap: "snapshot own op w" and st: "op_state op = BROADCASTING"
  shows "wp sha m (mark_found cfg op wid g status) step_ok (step_exn op) own l w"
proof -
  have "wp sha m (p_cas cfg op BROADCAST wid [Set_broadcast_at (Some at)] det)
      step_ok (step_exn op) own l w'" if "snapshot own op w'" for at det w'
    by (rule wp_p_cas_quiet [OF that]) (use st in \<open>simp_all add: handler_sets\<close>)
  then show ?thesis
    using snap by (auto simp: mark_found_def wp_pbind intro!: wp_clock_now
        intro: snapshot_later split: option.split)
qed

lemma wp_resend:
  assumes snap: "snapshot own op w" and st: "op_state op = BROADCASTING"
    and g: "signed_tx op = Some (to_json g)"
  shows "wp sha m (resend cfg op wid g) step_ok (step_exn op) own l w"
  unfolding resend_def wp_catch
proof (rule wp_broadcast)
  show "sendable w g" using snapshot_signed [OF snap g] st by (simp add: sent_states_def)
  fix w3 assume "later own w w3"
  then have "snapshot own op w3" using snap by (rule snapshot_later)
  then show "wp sha m (settle_broadcast_result cfg op wid g r) step_ok (step_exn op) own l w3"
    "wp sha m (on_timeout op e) step_ok (step_exn op) own l w3" for r e
    using st by (simp_all add: wp_settle wp_on_timeout)
qed

lemma wp_reconcile:
  assumes snap: "snapshot own op w" and inv: "world_inv w" and st: "op_state op = BROADCASTING"
  shows "wp sha (expiration_safety_seconds cfg) (reconcile_broadcast cfg op wid) step_ok (step_exn op) own l w"
  unfolding reconcile_broadcast_def wp_pbind wp_catch
proof (rule wp_load_signed [OF snap inv], rule wp_find_tx)
  fix g :: signedtx and status :: tx_status and w1 :: world
  assume g: "signed_tx op = Some (to_json g)" and lt: "later own w w1"
    and inc: "ts_result status = INCLUDED \<longleftrightarrow> st_txid g \<in> included_txids (w_node w1)"
  have s1: "snapshot own op w1" using snapshot_later [OF lt snap] .
  have flip: "(\<lambda>(dead, evidence). if \<not> dead then resend cfg op wid g
        else rebuild cfg op wid why evidence) =
      (\<lambda>(dead, evidence). if dead then rebuild cfg op wid why evidence else resend cfg op wid g)" for why
    by auto
  show "wp sha (expiration_safety_seconds cfg)
     (if ts_result status \<in> {INCLUDED, PENDING} then mark_found cfg op wid g status
      else pbind (proof_of_death cfg g) (\<lambda>(dead, evidence).
        if \<not> dead then resend cfg op wid g
        else rebuild cfg op wid ''expired unseen; provably dead'' evidence))
     step_ok (step_exn op) own (head_time (w_node w1)) w1"
  proof (cases "ts_result status \<in> {INCLUDED, PENDING}")
    case True
    then show ?thesis using wp_mark_found [OF s1 st] by simp
  next
    case False
    then show ?thesis
      unfolding if_not_P [OF False] flip wp_pbind
      by (intro wp_death_rebuild [OF s1 _ g _ refl] wp_resend) (use inc st g in auto)
  qed
qed (use snapshot_owns [OF snap] wp_on_timeout [OF snapshot_later [OF _ snap]] in blast)+

lemma wp_settle_inclusion:
  assumes snap: "snapshot own op w" and st: "op_state op = BROADCAST"
    and g: "signed_tx op = Some (to_json g)"
    and suc: "ts_receipt status = Some ''SUCCESS'' \<Longrightarrow> st_txid g \<in> successful_txids (w_node w)"
  shows "wp sha m (settle_inclusion cfg op wid g status) step_ok (step_exn op) own l w"
proof -
  have paid: "wp sha m (p_cas cfg op CONFIRMED wid [Set_included_block b, Set_confirmed_at t] det)
      step_ok (step_exn op) own l w2"
    if lt: "later own w w2" and ok: "st_txid g \<in> successful_txids (w_node w)" for b t det w2
  proof (rule wp_p_cas [OF snapshot_later [OF lt snap]])
    fix w' assume lt': "later own w2 w'" and "snapshot own op w'"
    then have "st_txid g \<in> history (w_store w') (operation_id op) \<and> op_txid op = Some (st_txid g)" using snapshot_signed g by blast
    moreover have "st_txid g \<in> successful_txids (w_node w')"
      using successful_later [OF later_trans [OF lt lt'] ok] .
    ultimately show "safe_cas op CONFIRMED [Set_included_block b, Set_confirmed_at t] det w'"
      using g by (simp add: safe_cas_def sent_states_def)
  qed (use st in \<open>simp_all add: handler_sets\<close>)
  have failed: "wp sha m (p_cas cfg op FAILED wid [Set_included_block b, Set_failure_reason f] det)
      step_ok (step_exn op) own l w2" if "later own w w2" for b f det w2
    by (rule wp_p_cas_quiet [OF snapshot_later [OF that snap]]) (use st in \<open>simp_all add: handler_sets\<close>)
  show ?thesis
    unfolding settle_inclusion_def wp_pbind
  proof (rule wp_crash_here)
    fix w2 assume lt: "later own w w2"
    show "wp sha m (if ts_receipt status = Some ''SUCCESS'' then
         pbind clock_now (\<lambda>now.
         p_cas cfg op CONFIRMED wid [Set_included_block (ts_block status), Set_confirmed_at (Some now)]
           [(''txid'', PStr (st_txid g)), (''block'', opt_int (ts_block status))])
       else
         p_cas cfg op FAILED wid
           [Set_included_block (ts_block status),
            Set_failure_reason (Some ''transaction reverted on chain'')]
           [(''txid'', PStr (st_txid g)), (''receipt'', opt_str (ts_receipt status))])
      step_ok (step_exn op) own l w2"
    proof (cases "ts_receipt status = Some ''SUCCESS''")
      case True
      show ?thesis
        unfolding if_P [OF True] wp_pbind
        using lt suc [OF True] by (intro wp_clock_now paid) (auto intro: later_trans)
    qed (use failed [OF lt] in simp)
  qed (use owns_later snapshot_owns [OF snap] in blast)
qed

lemma wp_await:
  assumes snap: "snapshot own op w" and inv: "world_inv w" and st: "op_state op = BROADCAST"
  shows "wp sha (expiration_safety_seconds cfg) (await_confirmation cfg op wid) step_ok (step_exn op) own l w"
  unfolding await_confirmation_def wp_pbind wp_catch
proof (rule wp_load_signed [OF snap inv], rule wp_find_tx)
  fix g :: signedtx and status :: tx_status and w1 :: world
  assume g: "signed_tx op = Some (to_json g)" and lt: "later own w w1"
    and inc: "ts_result status = INCLUDED \<longleftrightarrow> st_txid g \<in> included_txids (w_node w1)"
    and suc: "ts_receipt status = Some ''SUCCESS'' \<Longrightarrow> ts_result status = INCLUDED \<Longrightarrow>
      st_txid g \<in> successful_txids (w_node w1)"
  have s1: "snapshot own op w1" using snapshot_later [OF lt snap] .
  show "wp sha (expiration_safety_seconds cfg)
     (if ts_result status = INCLUDED then
        if \<not> ts_solid status then Return op else settle_inclusion cfg op wid g status
      else if ts_result status = PENDING then Return op
      else pbind (proof_of_death cfg g) (\<lambda>(dead, evidence).
        if dead then rebuild cfg op wid ''accepted but never mined; expired'' evidence
        else Return op)) step_ok (step_exn op) own (head_time (w_node w1)) w1"
  proof (cases "ts_result status")
    case UNKNOWN
    have "wp sha (expiration_safety_seconds cfg) (pbind (proof_of_death cfg g) (\<lambda>(dead, evidence).
        if dead then rebuild cfg op wid ''accepted but never mined; expired'' evidence
        else Return op)) step_ok (step_exn op) own (head_time (w_node w1)) w1"
      unfolding wp_pbind
      by (rule wp_death_rebuild [OF s1 _ g _ refl]) (use inc st UNKNOWN in auto)
    then show ?thesis using UNKNOWN by simp
  qed (use s1 wp_settle_inclusion [OF s1 st g suc] in auto)
qed (use snapshot_owns [OF snap] wp_on_timeout [OF snapshot_later [OF _ snap]] in blast)+

lemma wp_pipeline_step:
  assumes "snapshot own op w" "world_inv w"
  shows "wp sha (expiration_safety_seconds cfg) (pipeline_step sha cfg sg op wid) step_ok (step_exn op) own l w"
  using assms snapshot_owns [OF assms(1)]
  by (cases "op_state op")
     (simp_all add: pipeline_step_def wp_validate wp_build_and_sign wp_p_broadcast wp_reconcile wp_await)

section \<open>The worker\<close>

definition exit_ok :: "drive_exit \<Rightarrow> (uuid \<times> int) set \<Rightarrow> time \<Rightarrow> world \<Rightarrow> bool" where
  "exit_ok x own l w = (case x of Finished \<Rightarrow> True | Lost_Claim a \<Rightarrow> True
     | Left_Loop op a \<Rightarrow> True | Handler_Error op a \<Rightarrow> owns own op w)"

lemma exit_ok_simps [simp]:
  "exit_ok Finished own l w" "exit_ok (Lost_Claim a) own l w" "exit_ok (Left_Loop op a) own l w"
  "exit_ok (Handler_Error op a) own l w = owns own op w"
  by (simp_all add: exit_ok_def)

lemma wp_with_inv:
  assumes "wp sha m p Q E own l w" "world_inv w"
  shows "wp sha m p (\<lambda>x own l w. Q x own l w \<and> world_inv w) (\<lambda>e own l w. E e own l w \<and> world_inv w) own l w"
  using assms by (induction p arbitrary: own l w) (simp_all add: fair_step_def)

lemma wp_drive_loop:
  assumes "snapshot own op w" "world_inv w"
  shows "wp sha (expiration_safety_seconds cfg) (drive_loop sha cfg sg wid n op a) exit_ok any own l w"
  using assms
proof (induction n arbitrary: op a own l w)
  case (Suc n)
  have "wp sha (expiration_safety_seconds cfg) (pipeline_step sha cfg sg op wid)
      (\<lambda>x own l w. snapshot own x w \<and> world_inv w) (\<lambda>e own l w. owns own op w \<and> world_inv w) own l w"
    using wp_with_inv [OF wp_pipeline_step [OF Suc.prems] Suc.prems(2)] .
  then show ?case
    unfolding drive_loop.simps wp_catch
    by (rule wp_mono) (use Suc.IH in \<open>auto simp: Let_def is_Exception_def split: exn.split\<close>)
qed simp

lemma wp_breadcrumb:
  assumes "owns own op w" "world_inv w"
    and "\<And>x w'. world_inv w' \<Longrightarrow> Q x own l w'"
  shows "wp sha m (store_cas (operation_id op) (fencing_token op) s s [Set_last_error x] [] None who)
    Q E own l w"
proof (rule wp_store_cas)
  fix w' r
  assume a: "later own w w'" "get (w_store w') (operation_id op) = Some r"
    "fencing_token r = fencing_token op" "op_state r = s"
  have inv: "world_inv w'" using a(1) by simp
  have sig: "signed_tx (written (w_clock w') s [Set_last_error x] None r) = signed_tx r"
      "op_txid (written (w_clock w') s [Set_last_error x] None r) = op_txid r"
    by (simp_all add: written_def Let_def)
  show "safe_write w' (operation_id op) r (written (w_clock w') s [Set_last_error x] None r) []"
  proof -
    have "signed_tx r = Some d \<Longrightarrow> \<exists>g. d = to_json g \<and> st_txid g \<in> history (w_store w') (operation_id op) \<and>
        op_txid r = Some (st_txid g)" for d
      using inv a(2) unfolding world_inv_def rows_ok_def by blast
    moreover have "op_state r = CONFIRMED \<Longrightarrow>
        \<exists>g. signed_tx r = Some (to_json g) \<and> st_txid g \<in> successful_txids (w_node w')"
      using inv a(2) unfolding world_inv_def confirmed_ok_def by blast
    moreover have "op_state (written (w_clock w') s [Set_last_error x] None r) = op_state r"
      using written_keeps(2) [of "[Set_last_error x]"] a(4) by (simp add: handler_sets)
    ultimately show ?thesis
      unfolding safe_write_def sig by (auto dest: meta_spec)
  qed
qed (use assms in \<open>auto simp: owns_def handler_sets\<close>)

lemma wp_drive:
  assumes "snapshot own op w" "world_inv w"
  shows "wp sha (expiration_safety_seconds cfg) (drive sha cfg sg wid op) any any own l w"
proof -
  have "wp sha (expiration_safety_seconds cfg) (drive_loop sha cfg sg wid n op a)
      (\<lambda>x own l w. exit_ok x own l w \<and> world_inv w) any own l w" for n a
    using wp_with_inv [OF wp_drive_loop [OF assms] assms(2)] by (rule wp_mono) auto
  then show ?thesis
    unfolding drive_def wp_pbind
    by (rule wp_mono)
       (auto simp: wp_pbind split: drive_exit.split intro!: wp_release wp_breadcrumb)
qed

text \<open>The pipeline works on tokens it was given, so the other operations of the batch are framed.\<close>

lemma no_claim_calls [simp]:
  "no_claim clock_now" "no_claim (store_cas i tok src dst sets detail renew who)"
  "no_claim (store_release i tok)" "no_claim node_ref_block" "no_claim (node_broadcast g who)"
  "no_claim (node_find_tx t)" "no_claim node_solid_now" "no_claim node_solid_block"
  "no_claim (crash_here p)"
  by (simp_all add: call_defs)

lemma no_claim_p_cas [simp]: "no_claim (p_cas cfg op dst wid sets detail)"
  by (auto simp: p_cas_def intro!: no_claim_pbind split: option.split)

lemma no_claim_step: "no_claim (pipeline_step sha cfg sg op wid)"
proof -
  have settle: "no_claim (settle_broadcast_result cfg op wid g r)" for op g r
    by (auto simp: settle_broadcast_result_def Let_def intro!: no_claim_pbind)
  have tmo: "no_claim (on_timeout op e)" for op e by (simp add: on_timeout_def split: exn.split)
  have rb: "no_claim (rebuild cfg op wid why ev)" for op why ev by (simp add: rebuild_def)
  have ld: "no_claim (load_signed op)" for op by (simp add: load_signed_def split: option.split)
  have fs: "no_claim (first_send cfg op wid g)" for op g
    by (auto simp: first_send_def intro!: no_claim_pbind no_claim_catch settle tmo)
  have pd: "no_claim (proof_of_death cfg g)" for g
    by (auto simp: proof_of_death_def Let_def intro!: no_claim_pbind)
  have rs: "no_claim (resend cfg op wid g)" for g
    by (auto simp: resend_def intro!: no_claim_catch settle tmo)
  have "no_claim (p_validate sha cfg op wid)" by (simp add: p_validate_def)
  moreover have "no_claim (build_and_sign sha cfg sg op wid)"
    by (auto simp: build_and_sign_def build_fresh_def persist_and_sign_def intro!: no_claim_pbind)
  moreover have "no_claim (p_broadcast cfg op wid)"
    by (auto simp: p_broadcast_def intro!: no_claim_pbind ld rb fs)
  moreover have "no_claim (reconcile_broadcast cfg op wid)"
    by (auto simp: reconcile_broadcast_def mark_found_def
        intro!: no_claim_pbind no_claim_catch ld rb pd rs tmo split: option.split)
  moreover have "no_claim (await_confirmation cfg op wid)"
    by (auto simp: await_confirmation_def settle_inclusion_def
        intro!: no_claim_pbind no_claim_catch ld rb pd tmo)
  ultimately show ?thesis by (simp add: pipeline_step_def split: op_state.split)
qed

lemma no_claim_drive: "no_claim (drive sha cfg sg wid op)"
proof -
  have "no_claim (drive_loop sha cfg sg wid n op a)" for n op a
  proof (induction n arbitrary: op a)
    case (Suc n)
    then show ?case
      by (auto simp: Let_def intro!: no_claim_catch no_claim_step split: exn.split)
  qed simp
  then show ?thesis
    by (auto simp: drive_def intro!: no_claim_pbind split: drive_exit.split)
qed

abbreviation token_of :: "operation \<Rightarrow> uuid \<times> int" where
  "token_of op \<equiv> (operation_id op, fencing_token op)"

lemma wp_drive_all:
  assumes "\<forall>op \<in> set ops. snapshot {token_of op} op w" "distinct (map token_of ops)"
    "token_of ` set ops \<subseteq> own" "world_inv w"
  shows "wp sha (expiration_safety_seconds cfg) (drive_all sha cfg sg wid ops acc) any any own l w"
  using assms
proof (induction ops arbitrary: acc l w)
  case (Cons op ops)
  let ?one = "{token_of op}" and ?rest = "own - {token_of op}"
  let ?R = "\<lambda>w. \<forall>op \<in> set ops. snapshot {token_of op} op w"
  have own: "?one \<union> ?rest = own" using Cons.prems(3) by auto
  have sub: "{token_of op'} \<subseteq> ?rest" if "op' \<in> set ops" for op'
    using Cons.prems(2,3) imageI [OF that, of token_of] by (auto simp del: prod.inject)
  have stable: "?R v" if "later ?rest u v" "?R u" for u v
    using that sub later_antimono [OF that(1)] snapshot_later by meson
  have "wp sha (expiration_safety_seconds cfg) (drive sha cfg sg wid op) any any ?one l w"
    using Cons.prems by (intro wp_drive) auto
  then have "wp sha (expiration_safety_seconds cfg) (drive sha cfg sg wid op)
      (\<lambda>x own' l w. own' = ?one \<union> ?rest \<and> ?R w \<and> True)
      (\<lambda>e own' l w. own' = ?one \<union> ?rest \<and> ?R w \<and> True) (?one \<union> ?rest) l w"
    using Cons.prems(1) stable by (intro wp_frame no_claim_drive) auto
  then have "wp sha (expiration_safety_seconds cfg) (drive sha cfg sg wid op)
      (\<lambda>x own' l w. (own' = own \<and> ?R w \<and> True) \<and> world_inv w)
      (\<lambda>e own' l w. (own' = own \<and> ?R w \<and> True) \<and> world_inv w) own l w"
    unfolding own using Cons.prems(4) by (rule wp_with_inv)
  then show ?case
    unfolding drive_all.simps wp_pbind
    by (rule wp_mono) (use Cons.IH Cons.prems(2,3) in auto)
qed simp

lemma wp_run_once:
  "wp sha (expiration_safety_seconds cfg) (run_once sha cfg sg wid) any any own l w"
  unfolding run_once_def wp_pbind store_claim_def wp.simps
proof (intro allI impI)
  fix w' r st
  assume lt: "later own w w'" and cl: "claim (w_clock w') (w_store w') CLAIMABLE (claim_batch cfg) wid
      (lease_seconds cfg) = (r, st)"
  let ?w = "w'\<lparr>w_store := st\<rparr>"
  have inv: "world_inv w'" using lt by simp
  have wf: "store_wf (w_store w')" using inv by (simp add: world_inv_def)
  have fs: "fair_step own w' ?w" using inv cl by (rule fair_claim)
  then have inv': "world_inv ?w" by (simp add: fair_step_def)
  have "wp sha (expiration_safety_seconds cfg) (lift_exn r)
      (\<lambda>x. wp sha (expiration_safety_seconds cfg) (drive_all sha cfg sg wid x 0) any any) any
      (own \<union> claimed_tokens r) l ?w"
  proof (cases r)
    case (Inr ops)
    have law: "distinct (map operation_id ops) \<and> (\<forall>op \<in> set ops. get st (operation_id op) = Some op)"
      using mem.claim_law [OF wf subset_refl cl] Inr by blast
    have "snapshot {token_of op} op ?w" if "op \<in> set ops" for op
      by (rule snapshot_row [OF inv']) (use law that in simp_all)
    moreover have "distinct (map token_of ops)"
      using law by (auto simp: distinct_map inj_on_def)
    moreover have "token_of ` set ops \<subseteq> own \<union> claimed_tokens r" by (auto simp: Inr claimed_tokens_def)
    ultimately show ?thesis using Inr inv' by (simp add: wp_drive_all)
  qed simp
  with fs show "fair_step own w' ?w \<and> wp sha (expiration_safety_seconds cfg) (lift_exn r)
      (\<lambda>x. wp sha (expiration_safety_seconds cfg) (drive_all sha cfg sg wid x 0) any any) any
      (own \<union> claimed_tokens r) l ?w" by blast
qed

end
