(* ===== verification/Fleet.thy ===== *)
theory Fleet
  imports Handlers_Safe
begin

text \<open>
  The whole system: any number of workers, each running \<open>run_once\<close> one call at a time in any
  interleaving, killed at any point and started again; an intake that files operations; a clock
  that may show anything; blocks, faults and armed crash points at any time.  The flag \<open>strict\<close>
  adds the timing condition of the safety theorem: between a worker's lookup and its reading of
  the solidified timestamp, the tip of the chain advances by at most the configured safety margin.
\<close>

section \<open>The system\<close>

record thread =
  t_prog :: "int prog"
  t_own :: "(uuid \<times> int) set"
  t_lookup :: time

record system =
  s_world :: world
  s_threads :: "thread list"

definition ghost_own :: "'a prog \<Rightarrow> world \<Rightarrow> (uuid \<times> int) set \<Rightarrow> (uuid \<times> int) set" where
  "ghost_own p w own = (case p of
     Store_Claim states limit wid lease k \<Rightarrow>
       own \<union> claimed_tokens (fst (claim (w_clock w) (w_store w) states limit wid lease))
   | _ \<Rightarrow> own)"

definition ghost_lookup :: "'a prog \<Rightarrow> world \<Rightarrow> time \<Rightarrow> time" where
  "ghost_lookup p w l = (case p of Node_Find_Tx t k \<Rightarrow> head_time (w_node w) | _ \<Rightarrow> l)"

definition prompt :: "duration \<Rightarrow> 'a prog \<Rightarrow> time \<Rightarrow> world \<Rightarrow> bool" where
  "prompt m p l w = (case p of Node_Solid_Now k \<Rightarrow> head_time (w_node w) \<le> l + m | _ \<Rightarrow> True)"

definition advance_thread :: "thread \<Rightarrow> int prog \<Rightarrow> world \<Rightarrow> thread" where
  "advance_thread t p' w = \<lparr> t_prog = p', t_own = ghost_own (t_prog t) w (t_own t),
     t_lookup = ghost_lookup (t_prog t) w (t_lookup t) \<rparr>"

inductive sys_step :: "(bytes \<Rightarrow> bytes) \<Rightarrow> config \<Rightarrow> mock_signer \<Rightarrow> bool \<Rightarrow> system \<Rightarrow> system \<Rightarrow> bool"
  for sha cfg sg strict where
  ss_start: "sys_step sha cfg sg strict s (s\<lparr>s_threads := s_threads s @
      [\<lparr> t_prog = run_once sha cfg sg wid, t_own = {}, t_lookup = 0 \<rparr>]\<rparr>)"
| ss_thread: "n < length (s_threads s) \<Longrightarrow> t = s_threads s ! n \<Longrightarrow>
    step1 sha (t_prog t) (s_world s) = Some (p', w') \<Longrightarrow>
    (strict \<Longrightarrow> prompt (expiration_safety_seconds cfg) (t_prog t) (t_lookup t) (s_world s)) \<Longrightarrow>
    sys_step sha cfg sg strict s \<lparr> s_world = w',
      s_threads = (s_threads s)[n := advance_thread t p' (s_world s)] \<rparr>"
| ss_kill: "n < length (s_threads s) \<Longrightarrow>
    sys_step sha cfg sg strict s
      (s\<lparr>s_threads := (s_threads s)[n := (s_threads s ! n)\<lparr>t_prog := Return 0\<rparr>]\<rparr>)"
| ss_clock: "sys_step sha cfg sg strict s (s\<lparr>s_world := (s_world s)\<lparr>w_clock := t\<rparr>\<rparr>)"
| ss_block: "produce_block (w_clock (s_world s)) (w_node (s_world s)) = Inr nd \<Longrightarrow>
    sys_step sha cfg sg strict s (s\<lparr>s_world := (s_world s)\<lparr>w_node := nd\<rparr>\<rparr>)"
| ss_script: "sys_step sha cfg sg strict s
    (s\<lparr>s_world := (s_world s)\<lparr>w_node := script (w_node (s_world s)) ch fs\<rparr>\<rparr>)"
| ss_arm: "sys_step sha cfg sg strict s
    (s\<lparr>s_world := (s_world s)\<lparr>w_crash := arm (w_crash (s_world s)) p k\<rparr>\<rparr>)"
| ss_submit: "insert_new now at (w_store (s_world s))
      (new_operation oid rh REQUESTED addr ass units) = (res, ms) \<Longrightarrow>
    sys_step sha cfg sg strict s (s\<lparr>s_world := (s_world s)\<lparr>w_store := ms\<rparr>\<rparr>)"

definition initial_system :: "time \<Rightarrow> int \<Rightarrow> int \<Rightarrow> mock_signer \<Rightarrow> system" where
  "initial_system clk lag delay node_signer =
     \<lparr> s_world = \<lparr> w_clock = clk, w_store = new_store, w_node = new_node clk lag delay node_signer,
         w_crash = new_crash_switch \<rparr>, s_threads = [] \<rparr>"

definition tokens_bound :: "(uuid \<times> int) set \<Rightarrow> world \<Rightarrow> bool" where
  "tokens_bound own w \<longleftrightarrow> (\<forall>(i, tok) \<in> own. \<exists>r. get (w_store w) i = Some r \<and> tok \<le> fencing_token r)"

definition threads_ok :: "(bytes \<Rightarrow> bytes) \<Rightarrow> duration \<Rightarrow> thread list \<Rightarrow> world \<Rightarrow> bool" where
  "threads_ok sha m ts w \<longleftrightarrow>
     (\<forall>t \<in> set ts. wp sha m (t_prog t) any any (t_own t) (t_lookup t) w \<and> tokens_bound (t_own t) w) \<and>
     (\<forall>j k. j < length ts \<and> k < length ts \<and> j \<noteq> k \<longrightarrow> t_own (ts ! j) \<inter> t_own (ts ! k) = {})"

definition sys_inv :: "(bytes \<Rightarrow> bytes) \<Rightarrow> config \<Rightarrow> system \<Rightarrow> bool" where
  "sys_inv sha cfg s \<longleftrightarrow> world_inv (s_world s) \<and>
     threads_ok sha (expiration_safety_seconds cfg) (s_threads s) (s_world s)"

section \<open>Every step keeps the invariant\<close>

lemma wp_step1:
  assumes wp: "wp sha m p any any own l w" and inv: "world_inv w" and st: "step1 sha p w = Some (p', w')"
    and uns: "unshared (w_store w')" and pr: "prompt m p l w"
  shows "fair_step own w w' \<and> wp sha m p' any any (ghost_own p w own) (ghost_lookup p w l) w'"
proof (cases p)
  case (Store_Claim states limit wid lease k)
  obtain r ms where c: "claim (w_clock w) (w_store w) states limit wid lease = (r, ms)" by fastforce
  have e: "p' = k r" "w' = w\<lparr>w_store := ms\<rparr>" using st c by (simp_all add: Store_Claim step1_def)
  show ?thesis
    using wp [unfolded Store_Claim wp.simps, rule_format, OF later_refl [OF inv] c] uns e c
    by (simp add: Store_Claim ghost_own_def ghost_lookup_def)
next
  case (Store_Cas i tok src dst sets detail renew who k)
  obtain r ms where c: "cas (w_clock w) (w_clock w) (w_store w) i tok src dst sets detail renew who = (r, ms)" by fastforce
  have e: "p' = k r" "w' = w\<lparr>w_store := ms\<rparr>" using st c by (simp_all add: Store_Cas step1_def)
  show ?thesis
    using wp [unfolded Store_Cas wp.simps, rule_format, OF later_refl [OF inv] c] uns e c
    by (simp add: Store_Cas ghost_own_def ghost_lookup_def)
next
  case (Node_Broadcast g who k)
  obtain r nd where c: "broadcast sha (w_clock w) (w_node w) g who = (r, nd)" by fastforce
  have e: "p' = k r" "w' = w\<lparr>w_node := nd\<rparr>" using st c by (simp_all add: Node_Broadcast step1_def)
  show ?thesis
    using wp [unfolded Node_Broadcast wp.simps, rule_format, OF later_refl [OF inv] c] e c
    by (simp add: Node_Broadcast ghost_own_def ghost_lookup_def)
next
  case (Node_Find_Tx t k)
  obtain r nd where c: "find_tx (w_clock w) (w_node w) t = (r, nd)" by fastforce
  have e: "p' = k r" "w' = w\<lparr>w_node := nd\<rparr>" using st c by (simp_all add: Node_Find_Tx step1_def)
  show ?thesis
    using wp [unfolded Node_Find_Tx wp.simps, rule_format, OF later_refl [OF inv] c] e c
    by (simp add: Node_Find_Tx ghost_own_def ghost_lookup_def)
next
  case (Crash_Here q k)
  obtain b cs where c: "here (w_crash w) q = (b, cs)" by fastforce
  have e: "p' = k b" "w' = w\<lparr>w_crash := cs\<rparr>" using st c by (simp_all add: Crash_Here step1_def)
  show ?thesis
    using wp [unfolded Crash_Here wp.simps, rule_format, OF later_refl [OF inv] c] e c
    by (simp add: Crash_Here ghost_own_def ghost_lookup_def)
qed (use wp later_refl [OF inv] fair_refl [OF inv] st pr in
     \<open>auto simp: step1_def ghost_own_def ghost_lookup_def prompt_def\<close>)

lemma tokens_bound_evolves: "evolves other w w' \<Longrightarrow> tokens_bound own w \<Longrightarrow> tokens_bound own w'"
  unfolding tokens_bound_def evolves_def rows_evolve_def by (fastforce dest: order_trans)

lemma threads_ok_env:
  assumes "threads_ok sha m ts w" "world_inv w" "fair_step {} w w'"
  shows "threads_ok sha m ts w'"
  using assms wp_stable [OF _ conjunct1 [OF fair_later [OF assms(2,3)]]]
    tokens_bound_evolves [of "{}" w w']
  unfolding threads_ok_def fair_step_def by blast

text \<open>A claim hands out tokens nobody has.\<close>

lemma claim_tokens_fresh:
  assumes "store_wf (w_store w)" "claim now (w_store w) states limit wid d = (res, ms)"
    "(i, tok) \<in> claimed_tokens res"
  shows "\<exists>r. get (w_store w) i = Some r \<and> fencing_token r < tok"
    "\<exists>r. get ms i = Some r \<and> tok \<le> fencing_token r"
proof -
  obtain sel where sel: "res = Inr (map (\<lambda>(k, op). claimed now wid d op) sel)" "distinct (map fst sel)"
    "\<And>k r. (k, r) \<in> set sel \<Longrightarrow> get (w_store w) k = Some r"
    "\<And>i. get ms i = (case dict_get sel i of None \<Rightarrow> get (w_store w) i
        | Some r \<Rightarrow> Some (claimed now wid d r))"
    using claim_effect [OF assms(1,2)] by metis
  then obtain k r where kr: "(k, r) \<in> set sel" "i = operation_id r" "tok = fencing_token r + 1"
    using assms(3) by (auto simp: claimed_tokens_def)
  have k: "get (w_store w) k = Some r" using sel(3) kr(1) by blast
  then have "i = k" using kr(2) store_wf_row [OF assms(1)] by simp
  moreover have "get ms k = Some (claimed now wid d r)" using sel(4) [of k] sel(2) kr(1) by simp
  ultimately show "\<exists>r. get (w_store w) i = Some r \<and> fencing_token r < tok"
    "\<exists>r. get ms i = Some r \<and> tok \<le> fencing_token r"
    using k kr(3) by simp_all
qed

lemma ghost_own_fresh:
  assumes "store_wf (w_store w)" "step1 sha p w = Some (p', w')" "x \<in> ghost_own p w own" "x \<notin> own"
  shows "\<exists>r. get (w_store w) (fst x) = Some r \<and> fencing_token r < snd x"
    "\<exists>r. get (w_store w') (fst x) = Some r \<and> snd x \<le> fencing_token r"
proof -
  obtain states limit wid lease k where p: "p = Store_Claim states limit wid lease k"
    using assms(3,4) by (cases p) (auto simp: ghost_own_def)
  obtain r ms where c: "claim (w_clock w) (w_store w) states limit wid lease = (r, ms)" by fastforce
  have "(fst x, snd x) \<in> claimed_tokens r" using assms(3,4) by (simp add: p c ghost_own_def)
  note t = claim_tokens_fresh [OF assms(1) c this]
  show "\<exists>r. get (w_store w) (fst x) = Some r \<and> fencing_token r < snd x"
    "\<exists>r. get (w_store w') (fst x) = Some r \<and> snd x \<le> fencing_token r"
    using t assms(2) by (auto simp: p c step1_def)
qed

text \<open>The tokens of a thread after a call: they belong to rows, and stay apart from those of the others.\<close>

lemma tokens_bound_step:
  assumes "store_wf (w_store w)" "step1 sha p w = Some (p', w')" "tokens_bound own w" "evolves own w w'"
  shows "tokens_bound (ghost_own p w own) w'"
  unfolding tokens_bound_def
proof
  fix x assume x: "x \<in> ghost_own p w own"
  show "case x of (i, tok) \<Rightarrow> \<exists>r. get (w_store w') i = Some r \<and> tok \<le> fencing_token r"
  proof (cases "x \<in> own")
    case True
    then show ?thesis using tokens_bound_evolves [OF assms(4,3)] unfolding tokens_bound_def by blast
  next
    case False
    then show ?thesis using ghost_own_fresh(2) [OF assms(1,2) _ False] x by (cases x) auto
  qed
qed

lemma fresh_tokens_apart:
  assumes "store_wf (w_store w)" "step1 sha p w = Some (p', w')" "tokens_bound other w" "other \<inter> own = {}"
  shows "other \<inter> ghost_own p w own = {}"
proof -
  have "x \<notin> ghost_own p w own" if x: "x \<in> other" for x
  proof
    assume "x \<in> ghost_own p w own"
    moreover have "x \<notin> own" using assms(4) x by blast
    ultimately obtain r where "get (w_store w) (fst x) = Some r" "fencing_token r < snd x"
      using ghost_own_fresh(1) [OF assms(1,2)] by metis
    then show False using assms(3) x unfolding tokens_bound_def by fastforce
  qed
  then show ?thesis by blast
qed

lemma threads_ok_step:
  assumes ok: "threads_ok sha m ts w" and inv: "world_inv w" and n: "n < length ts"
    and st: "step1 sha (t_prog (ts ! n)) w = Some (p', w')" and uns: "unshared (w_store w')"
    and pr: "prompt m (t_prog (ts ! n)) (t_lookup (ts ! n)) w"
  shows "world_inv w' \<and> threads_ok sha m (ts[n := advance_thread (ts ! n) p' w]) w'"
proof -
  let ?t = "ts ! n" and ?t' = "advance_thread (ts ! n) p' w"
  have wf: "store_wf (w_store w)" using inv by (simp add: world_inv_def)
  have tn: "wp sha m (t_prog ?t) any any (t_own ?t) (t_lookup ?t) w" "tokens_bound (t_own ?t) w"
    using ok n unfolding threads_ok_def by (meson nth_mem)+
  note step = wp_step1 [OF tn(1) inv st uns pr]
  then have inv': "world_inv w'" and ev: "evolves (t_own ?t) w w'" by (simp_all add: fair_step_def)
  have own': "t_own ?t' = ghost_own (t_prog ?t) w (t_own ?t)" by (simp add: advance_thread_def)
  have new: "tokens_bound (t_own ?t') w'" using tokens_bound_step [OF wf st tn(2) ev] own' by simp
  have other: "wp sha m (t_prog (ts ! j)) any any (t_own (ts ! j)) (t_lookup (ts ! j)) w' \<and>
      tokens_bound (t_own (ts ! j)) w' \<and> t_own (ts ! j) \<inter> t_own ?t' = {}"
    if j: "j < length ts" "j \<noteq> n" for j
  proof -
    have dj: "t_own (ts ! j) \<inter> t_own ?t = {}" and tj: "tokens_bound (t_own (ts ! j)) w"
      and wj: "wp sha m (t_prog (ts ! j)) any any (t_own (ts ! j)) (t_lookup (ts ! j)) w"
      using ok j n unfolding threads_ok_def by (meson nth_mem)+
    have "rely (t_own (ts ! j)) w w'" using inv inv' ev dj unfolding rely_def by blast
    then show ?thesis
      using wp_stable [OF wj] tokens_bound_evolves [OF ev tj] fresh_tokens_apart [OF wf st tj dj] own' by blast
  qed
  have "wp sha m (t_prog ?t') any any (t_own ?t') (t_lookup ?t') w'"
    using step by (simp add: advance_thread_def)
  then have "threads_ok sha m (ts[n := ?t']) w'"
    unfolding threads_ok_def
    using new other n ok [unfolded threads_ok_def]
    by (auto simp: in_set_conv_nth nth_list_update)
  with inv' show ?thesis by blast
qed

text \<open>The history only grows, whatever happens.\<close>

lemma history_step1:
  assumes "step1 sha p w = Some (p', w')"
  shows "history (w_store w) i \<subseteq> history (w_store w') i"
proof (cases p)
  case (Store_Claim states limit wid lease k)
  obtain r ms where c: "claim (w_clock w) (w_store w) states limit wid lease = (r, ms)" by fastforce
  then have "ms_events ms = ms_events (w_store w)"
    by (auto simp: claim_def Let_def split: sum.splits prod.splits)
  then show ?thesis using assms c history_cong [of ms "w_store w"] by (auto simp: Store_Claim step1_def)
next
  case (Store_Cas j tok src dst sets detail renew who k)
  obtain r ms where c: "cas (w_clock w) (w_clock w) (w_store w) j tok src dst sets detail renew who = (r, ms)"
    by fastforce
  then have "history (w_store w) i \<subseteq> history ms i"
    by (cases rule: cas_cases) (auto simp: history_append_event)
  then show ?thesis using assms c by (auto simp: Store_Cas step1_def)
next
  case (Store_Release j tok k)
  have "ms_events (release (w_clock w) (w_store w) j tok) = ms_events (w_store w)"
    by (rule release_cases [of "w_clock w" "w_store w" j tok]) simp_all
  then show ?thesis
    using assms history_cong [of "release (w_clock w) (w_store w) j tok" "w_store w"]
    by (auto simp: Store_Release step1_def)
qed (use assms in \<open>auto simp: step1_def Let_def split: prod.splits\<close>)

lemma history_sys_step:
  assumes "sys_step sha cfg sg strict s s'"
  shows "history (w_store (s_world s)) i \<subseteq> history (w_store (s_world s')) i"
  using assms by cases (auto dest: history_step1 history_insert)

lemma unshared_back:
  "(\<And>i. history ms i \<subseteq> history ms' i) \<Longrightarrow> unshared ms' \<Longrightarrow> unshared ms"
  unfolding unshared_def by blast

lemma sys_inv_env:
  assumes "sys_inv sha cfg s" "fair_step {} (s_world s) w"
  shows "sys_inv sha cfg (s\<lparr>s_world := w\<rparr>)"
  using assms threads_ok_env [OF _ _ assms(2)] by (simp add: sys_inv_def fair_step_def)

lemma sys_inv_step:
  assumes inv: "sys_inv sha cfg s" and st: "sys_step sha cfg sg True s s'"
    and uns: "unshared (w_store (s_world s'))"
  shows "sys_inv sha cfg s'"
  using st
proof cases
  case (ss_start wid)
  have "tokens_bound {} (s_world s)" by (simp add: tokens_bound_def)
  then show ?thesis
    using inv wp_run_once [of sha cfg sg wid "{}" 0 "s_world s"]
    unfolding ss_start sys_inv_def threads_ok_def by (auto simp: nth_append less_Suc_eq)
next
  case (ss_thread n t p' w')
  then show ?thesis
    using threads_ok_step [of sha "expiration_safety_seconds cfg" "s_threads s" "s_world s" n p' w'] inv uns
    by (simp add: sys_inv_def)
next
  case (ss_kill n)
  have "tokens_bound (t_own (s_threads s ! n)) (s_world s)"
    using inv ss_kill unfolding sys_inv_def threads_ok_def by simp
  then show ?thesis
    using inv ss_kill unfolding sys_inv_def threads_ok_def all_set_conv_all_nth
    by (auto simp: nth_list_update)
next
  case (ss_clock t)
  then show ?thesis using inv sys_inv_env [OF inv fair_clock] by (simp add: sys_inv_def)
next
  case (ss_block nd)
  then show ?thesis using inv sys_inv_env [OF inv fair_block] by (simp add: sys_inv_def)
next
  case (ss_script ch fs)
  obtain f where "script (w_node (s_world s)) ch fs = (w_node (s_world s))\<lparr>nd_faults := f\<rparr>"
    using script_frame by blast
  then show ?thesis
    using ss_script inv sys_inv_env [OF inv fair_faults] by (simp add: sys_inv_def)
next
  case (ss_arm p k)
  then show ?thesis using inv sys_inv_env [OF inv fair_crash] by (simp add: sys_inv_def)
next
  case (ss_submit now at oid rh addr ass units res ms)
  have "fair_step {} (s_world s) ((s_world s)\<lparr>w_store := ms\<rparr>)"
    by (rule fair_insert [OF _ ss_submit(2)]) (use inv in \<open>simp_all add: sys_inv_def new_operation_def\<close>)
  then show ?thesis using ss_submit(1) sys_inv_env [OF inv] by simp
qed

lemma sys_inv_initial: "sys_inv sha cfg (initial_system clk lag delay nsg)"
proof -
  have "history new_store i = {}" for i
    by (simp add: history_def all_txids_def new_store_def map_filter_def)
  then show ?thesis
    using store_wf_new
    by (simp add: sys_inv_def threads_ok_def initial_system_def world_inv_def unshared_def rows_ok_def
        history_filed_def held_ok_def landed_ok_def confirmed_ok_def)
       (simp add: get_def new_store_def new_node_def)
qed

lemma sys_inv_reachable:
  assumes "(sys_step sha cfg sg True)\<^sup>*\<^sup>* (initial_system clk lag delay nsg) s"
    "unshared (w_store (s_world s))"
  shows "sys_inv sha cfg s"
  using assms
proof (induction rule: rtranclp_induct)
  case (step y z)
  have "unshared (w_store (s_world y))"
    using history_sys_step [OF step.hyps(2)] step.prems by (rule unshared_back)
  then show ?case using step sys_inv_step by blast
qed (rule sys_inv_initial)

end
