(* ===== verification/Solo.thy ===== *)
theory Solo
  imports Fleet
begin

text \<open>
  A worker that runs with nobody else is one of the system's runs: \<open>run\<close> is a path of \<open>sys_step\<close>,
  and the timing condition of the safety theorems holds on it, since every reading of the
  solidified timestamp follows a lookup and no block is produced in between.
\<close>

section \<open>Every reading of the solid time follows a lookup\<close>

primrec guarded :: "'a prog \<Rightarrow> bool \<Rightarrow> bool" where
  "guarded (Return x) = (\<lambda>b. True)"
| "guarded (Raise e) = (\<lambda>b. True)"
| "guarded (Clock_Now k) = (\<lambda>b. \<forall>t. guarded (k t) b)"
| "guarded (Store_Claim ss n w d k) = (\<lambda>b. \<forall>r. guarded (k r) b)"
| "guarded (Store_Cas i tok src dst sets det renew who k) = (\<lambda>b. \<forall>r. guarded (k r) b)"
| "guarded (Store_Release i tok k) = (\<lambda>b. guarded (k ()) b)"
| "guarded (Node_Ref_Block k) = (\<lambda>b. \<forall>r. guarded (k r) b)"
| "guarded (Node_Broadcast g w k) = (\<lambda>b. \<forall>r. guarded (k r) b)"
| "guarded (Node_Find_Tx t k) = (\<lambda>b. \<forall>r. guarded (k r) True)"
| "guarded (Node_Solid_Now k) = (\<lambda>b. b \<and> (\<forall>r. guarded (k r) b))"
| "guarded (Node_Solid_Block k) = (\<lambda>b. \<forall>r. guarded (k r) b)"
| "guarded (Crash_Here p k) = (\<lambda>b. \<forall>r. guarded (k r) b)"

lemma guarded_mono: "guarded p b \<Longrightarrow> guarded p (b \<or> c)"
  by (induction p arbitrary: b) (auto simp: disj_commute)

lemma guarded_any: "guarded p False \<Longrightarrow> guarded p b"
  using guarded_mono [of p False b] by simp

lemma guarded_pbind: "guarded p b \<Longrightarrow> (\<And>x. guarded (f x) False) \<Longrightarrow> guarded (pbind p f) b"
  by (induction p arbitrary: b) (auto intro: guarded_any)

lemma guarded_catch:
  "guarded p b \<Longrightarrow> (\<And>e. guarded (h e) False) \<Longrightarrow> (\<And>x. guarded (f x) False) \<Longrightarrow> guarded (catch p h f) b"
  by (induction p arbitrary: b) (auto intro: guarded_any)

lemma guarded_lift_exn [simp]: "guarded (lift_exn r) b"
  by (simp add: lift_exn_def split: sum.split)

lemma guarded_calls [simp]:
  "guarded clock_now b" "guarded (store_claim ss n wid d) b"
  "guarded (store_cas i tok src dst sets det renew who) b" "guarded (store_release i tok) b"
  "guarded node_ref_block b" "guarded (node_broadcast g who) b" "guarded node_solid_block b"
  "guarded (crash_here q) b"
  by (simp_all add: call_defs)

text \<open>After a lookup its continuation may read the solid time.\<close>

lemma guarded_lookup:
  "(\<And>e. guarded (h e) True) \<Longrightarrow> (\<And>x. guarded (f x) True) \<Longrightarrow> guarded (catch (node_find_tx t) h f) b"
  by (simp add: node_find_tx_def lift_exn_def split: sum.split)

lemma guarded_solid:
  "(\<And>x. guarded (f x) True) \<Longrightarrow> guarded (pbind (proof_of_death cfg g) f) True"
  by (simp add: proof_of_death_def call_defs lift_exn_def Let_def split: sum.split)

lemma guarded_p_cas [simp]: "guarded (p_cas cfg op st wid sets det) b"
  unfolding p_cas_def by (intro guarded_pbind) (simp_all split: option.split)

lemma guarded_on_timeout [simp]: "guarded (on_timeout op e) b"
  by (simp add: on_timeout_def split: exn.split)

lemma guarded_settle [simp]: "guarded (settle_broadcast_result cfg op wid g r) b"
  unfolding settle_broadcast_result_def Let_def
  by (auto intro!: guarded_pbind)

lemma guarded_handlers [simp]:
  "guarded (load_signed op) b" "guarded (rebuild cfg op wid why ev) b" "guarded (resend cfg op wid g) b"
  "guarded (mark_found cfg op wid g st) b" "guarded (settle_inclusion cfg op wid g st) b"
  "guarded (first_send cfg op wid g) b" "guarded (p_validate sha cfg op wid) b"
  "guarded (persist_and_sign sha cfg sg op wid u) b"
  by (auto simp: load_signed_def rebuild_def resend_def mark_found_def settle_inclusion_def
      first_send_def p_validate_def persist_and_sign_def intro!: guarded_pbind guarded_catch
      split: option.split)

lemma guarded_step [simp]: "guarded (pipeline_step sha cfg sg op wid) b"
proof -
  have "guarded (build_and_sign sha cfg sg op wid) b" "guarded (p_broadcast cfg op wid) b"
    by (auto simp: build_and_sign_def build_fresh_def p_broadcast_def intro!: guarded_pbind)
  moreover have "guarded (reconcile_broadcast cfg op wid) b" "guarded (await_confirmation cfg op wid) b"
    by (auto simp: reconcile_broadcast_def await_confirmation_def
        intro!: guarded_pbind [OF guarded_handlers(1)] guarded_lookup guarded_solid)
  ultimately show ?thesis
    by (auto simp: pipeline_step_def split: op_state.split)
qed

lemma guarded_drive_loop [simp]: "guarded (drive_loop sha cfg sg wid n op adv) b"
  by (induction n arbitrary: op adv b)
    (auto simp: Let_def intro!: guarded_catch split: exn.split)

lemma guarded_run_once [simp]: "guarded (run_once sha cfg sg wid) b"
proof -
  have drv: "guarded (drive sha cfg sg wid op) b" for op b
    by (auto simp: drive_def intro!: guarded_pbind split: drive_exit.split)
  have "guarded (drive_all sha cfg sg wid ops acc) b" for ops acc b
    by (induction ops arbitrary: acc b) (auto intro!: guarded_pbind drv)
  then show ?thesis by (auto simp: run_once_def intro!: guarded_pbind)
qed

section \<open>A program run alone is a run of the system\<close>

lemma sys_path_step:
  "sys_step sha cfg sg strict s s' \<Longrightarrow> (sys_step sha cfg sg strict)\<^sup>*\<^sup>* s' s'' \<Longrightarrow>
     (sys_step sha cfg sg strict)\<^sup>*\<^sup>* s s''"
  by (rule converse_rtranclp_into_rtranclp)

lemma prog_step_induct [case_names step]:
  assumes "\<And>p. (\<And>w p' w'. step1 sha p w = Some (p', w') \<Longrightarrow> P p') \<Longrightarrow> P p"
  shows "P p"
  by (induction p) (rule assms, auto simp: step1_def Let_def split: prod.splits)+

text \<open>What every call keeps, a whole run keeps.\<close>

lemma run_invariant:
  assumes "run sha p w = (res, w')" "I p w"
    "\<And>p w p' w'. I p w \<Longrightarrow> step1 sha p w = Some (p', w') \<Longrightarrow> I p' w'"
  shows "\<exists>p'. I p' w'"
  using assms(1,2)
proof (induction p arbitrary: w rule: prog_step_induct [where sha = sha])
  case (step p)
  show ?case
  proof (cases "step1 sha p w")
    case None
    then have "w' = w" using step.prems(1) by (auto simp: step1_None_iff)
    then show ?thesis using step.prems(2) by blast
  next
    case (Some x)
    then obtain p' w1 where st: "step1 sha p w = Some (p', w1)" by (cases x) auto
    show ?thesis
      using step.IH [OF st] step.prems run_step1 [OF st] assms(3) [OF step.prems(2) st] by metis
  qed
qed

lemma broadcast_head_time: "broadcast sha clk nd g who = (r, nd') \<Longrightarrow> head_time nd' = head_time nd"
  by (erule broadcast_effect) (simp_all add: head_time_def)

lemma find_tx_head_time: "find_tx clk nd t = (r, nd') \<Longrightarrow> head_time nd' = head_time nd"
  by (auto dest: find_tx_frame simp: head_time_def)

lemma guarded_step1:
  assumes "guarded p b" "step1 sha p w = Some (p', w')" "b \<Longrightarrow> head_time (w_node w) \<le> l" "0 \<le> m"
  shows "prompt m p l w"
    "\<exists>b'. guarded p' b' \<and> (b' \<longrightarrow> head_time (w_node w') \<le> ghost_lookup p w l)"
proof -
  show "prompt m p l w" using assms by (cases p) (auto simp: prompt_def)
  show "\<exists>b'. guarded p' b' \<and> (b' \<longrightarrow> head_time (w_node w') \<le> ghost_lookup p w l)"
  proof (cases p)
    case (Node_Find_Tx t k)
    then show ?thesis
      using assms(1,2) find_tx_head_time
      by (intro exI [of _ True]) (auto simp: step1_def ghost_lookup_def split: prod.splits)
  qed (use assms broadcast_head_time in
      \<open>intro exI [of _ b], auto simp: step1_def ghost_lookup_def Let_def split: prod.splits\<close>)
qed

lemma run_is_path:
  assumes "n < length (s_threads s)" "t_prog (s_threads s ! n) = p" "guarded p b"
    "b \<Longrightarrow> head_time (w_node (s_world s)) \<le> t_lookup (s_threads s ! n)"
    "0 \<le> expiration_safety_seconds cfg" "run sha p (s_world s) = (res, w')"
  shows "\<exists>ts. (sys_step sha cfg sg True)\<^sup>*\<^sup>* s \<lparr> s_world = w', s_threads = ts \<rparr>"
  using assms
proof (induction p arbitrary: s b rule: prog_step_induct [where sha = sha])
  case (step p)
  show ?case
  proof (cases "step1 sha p (s_world s)")
    case None
    then have "w' = s_world s" using step.prems(6) by (auto simp: step1_None_iff)
    then show ?thesis by (intro exI [of _ "s_threads s"]) (cases s, simp)
  next
    case (Some x)
    then obtain p' w1 where st: "step1 sha p (s_world s) = Some (p', w1)" by (cases x) auto
    let ?t = "s_threads s ! n"
    let ?s = "\<lparr> s_world = w1, s_threads = (s_threads s)[n := advance_thread ?t p' (s_world s)] \<rparr>"
    obtain b' where b': "guarded p' b'" "b' \<Longrightarrow> head_time (w_node w1) \<le> ghost_lookup p (s_world s) (t_lookup ?t)"
      using guarded_step1(2) [OF step.prems(3) st step.prems(4,5)] by blast
    have "sys_step sha cfg sg True s ?s"
      by (rule ss_thread) (use step.prems st guarded_step1(1) [OF step.prems(3) st step.prems(4,5)] in simp_all)
    moreover have "\<exists>ts. (sys_step sha cfg sg True)\<^sup>*\<^sup>* ?s \<lparr> s_world = w', s_threads = ts \<rparr>"
      by (rule step.IH [OF st, of ?s b'])
        (use step.prems b' run_step1 [OF st] in \<open>simp_all add: advance_thread_def\<close>)
    ultimately show ?thesis by (meson sys_path_step)
  qed
qed

lemma run_once_is_path:
  assumes "0 \<le> expiration_safety_seconds cfg" "run sha (run_once sha cfg sg wid) (s_world s) = (res, w')"
  shows "\<exists>ts. (sys_step sha cfg sg True)\<^sup>*\<^sup>* s \<lparr> s_world = w', s_threads = ts \<rparr>"
proof -
  let ?s = "s\<lparr>s_threads := s_threads s @ [\<lparr> t_prog = run_once sha cfg sg wid, t_own = {}, t_lookup = 0 \<rparr>]\<rparr>"
  obtain ts where "(sys_step sha cfg sg True)\<^sup>*\<^sup>* ?s \<lparr> s_world = w', s_threads = ts \<rparr>"
    using run_is_path [of "length (s_threads s)" ?s _ False cfg sha res w' sg] assms by auto
  then have "(sys_step sha cfg sg True)\<^sup>*\<^sup>* s \<lparr> s_world = w', s_threads = ts \<rparr>"
    by (rule sys_path_step [OF ss_start])
  then show ?thesis ..
qed

lemma blocks_are_path:
  assumes "produce_blocks (\<lambda>_. w_clock (s_world s)) n (w_node (s_world s)) = Inr nd"
  shows "(sys_step sha cfg sg strict)\<^sup>*\<^sup>* s (s\<lparr>s_world := (s_world s)\<lparr>w_node := nd\<rparr>\<rparr>)"
  using assms
proof (induction n arbitrary: s)
  case (Suc n)
  then obtain nd1 where b: "produce_block (w_clock (s_world s)) (w_node (s_world s)) = Inr nd1"
    "produce_blocks (\<lambda>_. w_clock (s_world s)) n nd1 = Inr nd" by (auto simp: ebind_Inr_iff)
  let ?s = "s\<lparr>s_world := (s_world s)\<lparr>w_node := nd1\<rparr>\<rparr>"
  have "(sys_step sha cfg sg strict)\<^sup>*\<^sup>* ?s (s\<lparr>s_world := (s_world s)\<lparr>w_node := nd\<rparr>\<rparr>)"
    using Suc.IH [of ?s] b(2) by simp
  then show ?case by (rule sys_path_step [OF ss_block [OF b(1)]])
next
  case 0
  then show ?case by (cases s, cases "s_world s") auto
qed


end
