(* ===== verification/Delivery.thy ===== *)
theory Delivery
  imports Solo
begin

text \<open>
  One withdrawal and one worker at a time: what each handler returns and leaves behind when nobody else
  runs, the passes of a worker over a single row, the blocks that take its transaction up, and with
  these the delivery of a good request.
\<close>

section \<open>A worker alone\<close>

text \<open>The row a program leaves behind, with everything else as it was.\<close>

definition wrote_row :: "world \<Rightarrow> world \<Rightarrow> operation \<Rightarrow> bool" where
  "wrote_row w w' op' \<longleftrightarrow>
     ms_ops (w_store w') = dict_set (ms_ops (w_store w)) (operation_id op') op' \<and>
     ms_arrival (w_store w') = ms_arrival (w_store w) \<and>
     (\<forall>j. j \<noteq> operation_id op' \<longrightarrow> history (w_store w') j = history (w_store w) j) \<and>
     w_clock w' = w_clock w \<and> w_node w' = w_node w \<and> w_crash w' = w_crash w"

definition same_claim :: "operation \<Rightarrow> operation \<Rightarrow> bool" where
  "same_claim op op' \<longleftrightarrow> intake_part op' = intake_part op \<and> fencing_token op' = fencing_token op"

definition holds_row :: "world \<Rightarrow> operation \<Rightarrow> bool" where
  "holds_row w op \<longleftrightarrow> get (w_store w) (operation_id op) = Some op"

lemma same_claim_id: "same_claim op op' \<Longrightarrow> operation_id op' = operation_id op"
  by (simp add: same_claim_def intake_part_def)

lemma wrote_row_holds: "wrote_row w w' op' \<Longrightarrow> holds_row w' op'"
  by (simp add: wrote_row_def holds_row_def get_def dict_simps)

lemma dict_set_twice [simp]: "dict_set (dict_set d k v) k v' = dict_set d k v'"
  by (induction d) auto

lemma wrote_row_trans:
  "wrote_row w w' op' \<Longrightarrow> wrote_row w' w'' op'' \<Longrightarrow> operation_id op'' = operation_id op' \<Longrightarrow>
     wrote_row w w'' op''"
  by (simp add: wrote_row_def)

lemma run_lift_exn [simp]: "run sha (lift_exn r) w = (r, w)"
  by (cases r) (simp_all add: lift_exn_def)

lemma run_calls [simp]:
  "run sha clock_now w = (Inr (w_clock w), w)"
  "run sha node_ref_block w = (ref_block (w_node w), w)"
  "run sha node_solid_now w = (solid_now (w_node w), w)"
  "run sha node_solid_block w = (Inr (solid_block (w_node w)), w)"
  "run sha (node_broadcast g who) w =
     (let (r, nd) = broadcast sha (w_clock w) (w_node w) g who in (r, w\<lparr>w_node := nd\<rparr>))"
  "run sha (node_find_tx t) w =
     (let (r, nd) = find_tx (w_clock w) (w_node w) t in (r, w\<lparr>w_node := nd\<rparr>))"
  "run sha (store_release i tok) w =
     (Inr (), w\<lparr>w_store := release (w_clock w) (w_store w) i tok\<rparr>)"
  by (simp_all add: call_defs Let_def split: prod.split)

lemma run_crash_unarmed [simp]:
  "armed_count (w_crash w) p \<le> 0 \<Longrightarrow> run sha (crash_here p) w = (Inr (), w)"
  by (auto simp: crash_here_def here_def armed_count_def split: option.split)

text \<open>A write by the owner of the row succeeds.\<close>

lemma run_p_cas:
  assumes "holds_row w op" "can_transition (op_state op) dst" "op_state op \<notin> set TERMINAL"
    "mutable_sets sets"
  obtains w' where
    "run sha (p_cas cfg op dst wid sets detail) w =
       (Inr (written (w_clock w) dst sets (Some (lease_seconds cfg)) op), w')"
    "wrote_row w w' (written (w_clock w) dst sets (Some (lease_seconds cfg)) op)"
    "same_claim op (written (w_clock w) dst sets (Some (lease_seconds cfg)) op)"
    "detail_txids detail \<subseteq> history (w_store w') (operation_id op)"
proof -
  let ?op = "written (w_clock w) dst sets (Some (lease_seconds cfg)) op"
  obtain res ms where c: "cas (w_clock w) (w_clock w) (w_store w) (operation_id op) (fencing_token op)
      (op_state op) dst sets detail (Some (lease_seconds cfg)) (Some wid) = (res, ms)" by fastforce
  have id: "operation_id ?op = operation_id op"
    using written_keeps(1) [OF assms(4)] by (simp add: intake_part_def)
  have "res = Inr (Some ?op) \<and> ms_ops ms = dict_set (ms_ops (w_store w)) (operation_id op) ?op \<and>
      ms_arrival ms = ms_arrival (w_store w) \<and>
      (\<forall>j. j \<noteq> operation_id op \<longrightarrow> history ms j = history (w_store w) j) \<and>
      detail_txids detail \<subseteq> history ms (operation_id op)"
    using c
  proof (cases rule: cas_cases)
    case refused
    then show ?thesis
      using c assms by (auto simp: cas_def holds_row_def get_def mutable_sets_def Let_def split: if_splits)
  next
    case (wrote r)
    then show ?thesis
      using assms(1) id history_cong [of "w_store w\<lparr>ms_ops := _\<rparr>" "w_store w"]
      by (simp add: holds_row_def history_append_event)
  qed
  then show thesis
    using c id written_keeps [OF assms(4)]
    by (intro that [of "w\<lparr>w_store := ms\<rparr>"])
      (simp_all add: p_cas_def store_cas_def run_pbind wrote_row_def same_claim_def)
qed

section \<open>The first pass: from intake to the wire\<close>

lemma run_validate:
  assumes "holds_row w op" "op_state op = REQUESTED"
    "is_valid sha (to_address op)" "asset op = cfg_asset cfg"
    "min_amount_units cfg \<le> amount_units op" "amount_units op \<le> max_amount_units cfg"
  obtains op' w' where "run sha (p_validate sha cfg op wid) w = (Inr op', w')" "wrote_row w w' op'"
    "same_claim op op'" "op_state op' = VALIDATED" "attempts op' = attempts op"
proof -
  obtain w' where "run sha (p_cas cfg op VALIDATED wid [] []) w =
      (Inr (written (w_clock w) VALIDATED [] (Some (lease_seconds cfg)) op), w')"
    "wrote_row w w' (written (w_clock w) VALIDATED [] (Some (lease_seconds cfg)) op)"
    "same_claim op (written (w_clock w) VALIDATED [] (Some (lease_seconds cfg)) op)"
    using run_p_cas [OF assms(1), of VALIDATED "[]" sha cfg wid "[]"] assms(2)
    by (auto simp: handler_sets)
  moreover have "p_validate sha cfg op wid = p_cas cfg op VALIDATED wid [] []"
    using assms by (simp add: p_validate_def)
  ultimately show thesis
    by (intro that [of "written (w_clock w) VALIDATED [] (Some (lease_seconds cfg)) op" w'])
      (simp_all, simp_all add: written_def Let_def)
qed

text \<open>Building writes the envelope and its txid, up to the crash point before the signature.\<close>

lemma run_envelope:
  assumes op: "holds_row w op" "op_state op = VALIDATED" "attempts op < max_build_attempts cfg"
    and ref: "ref_block (w_node w) = Inr ref" and units: "py_str (amount_units op) = Inr units"
    and u: "u = unsigned_envelope sha cfg op units ref (w_clock w)"
  obtains op' w' where "run sha (build_and_sign sha cfg sg op wid) w =
      run sha (pbind (crash_here SIGN_MID) (\<lambda>_.
        p_cas cfg op' SIGNED wid [Set_signed_tx (Some (to_json (sign sha sg u)))] [])) w'"
    "wrote_row w w' op'" "same_claim op op'" "op_state op' = SIGNING" "op_txid op' = Some (ut_txid u)"
    "ut_txid u \<in> history (w_store w') (operation_id op)"
proof -
  let ?w = "\<lambda>dst sets. written (w_clock w) dst sets (Some (lease_seconds cfg))"
  obtain w1 where r1: "run sha (p_cas cfg op SIGNING wid [] []) w = (Inr (?w SIGNING [] op), w1)"
    "wrote_row w w1 (?w SIGNING [] op)" "same_claim op (?w SIGNING [] op)"
    using run_p_cas [OF op(1), of SIGNING "[]" sha cfg wid "[]"] op(2) by (auto simp: handler_sets)
  define op1 where "op1 = ?w SIGNING [] op"
  have op1: "op_state op1 = SIGNING" "attempts op1 = attempts op" "to_address op1 = to_address op"
      "amount_units op1 = amount_units op" "operation_id op1 = operation_id op"
    by (simp_all add: op1_def written_def Let_def)
  have u1: "unsigned_envelope sha cfg op1 units ref (w_clock w) = u"
    by (simp add: u unsigned_envelope_def build_envelope_def op1 Let_def)
  let ?s2 = "[Set_unsigned_tx (Some (ut_raw_data u)), Set_txid (Some (ut_txid u)),
      Set_tx_expiration (Some (ut_expiration u)), Set_signed_tx None]"
  let ?d2 = "[(''txid'', PStr (ut_txid u)), (''reason'', PStr ''envelope built'')]"
  have h1: "holds_row w1 op1" and c1: "w_clock w1 = w_clock w" "w_node w1 = w_node w" "w_crash w1 = w_crash w"
    using r1(2) wrote_row_holds by (simp_all add: op1_def wrote_row_def)
  obtain w2 where r2: "run sha (p_cas cfg op1 SIGNING wid ?s2 ?d2) w1 = (Inr (?w SIGNING ?s2 op1), w2)"
    "wrote_row w1 w2 (?w SIGNING ?s2 op1)" "same_claim op1 (?w SIGNING ?s2 op1)"
    "detail_txids ?d2 \<subseteq> history (w_store w2) (operation_id op1)"
    using run_p_cas [OF h1, of SIGNING ?s2 sha cfg wid ?d2] op1(1) c1(1) by (auto simp: handler_sets)
  define op2 where "op2 = ?w SIGNING ?s2 op1"
  have "run sha (build_and_sign sha cfg sg op wid) w =
      run sha (pbind (crash_here SIGN_MID) (\<lambda>_.
        p_cas cfg op2 SIGNED wid [Set_signed_tx (Some (to_json (sign sha sg u)))] [])) w2"
    using op ref units r1(1) r2(1) c1 op1 u1
    by (simp add: build_and_sign_def build_fresh_def persist_and_sign_def run_pbind flip: op1_def op2_def)
  moreover have "wrote_row w w2 op2" "same_claim op op2"
    using r1(2,3) r2(2,3) op1(5) by (simp_all add: wrote_row_def same_claim_def intake_part_def op1_def op2_def)
  moreover have "ut_txid u \<in> history (w_store w2) (operation_id op)"
    using r2(4) op1(5) by (simp add: detail_txids_def)
  ultimately show thesis
    by (intro that [of op2 w2]) (simp_all, simp_all add: op2_def written_def Let_def)
qed

lemma history_run:
  assumes "run sha p w = (res, w')"
  shows "history (w_store w) i \<subseteq> history (w_store w') i"
  using run_invariant [OF assms, of "\<lambda>p w1. history (w_store w) i \<subseteq> history (w_store w1) i"]
    history_step1 by blast

text \<open>Building from \<open>signing\<close>, as after a rebuild.\<close>

lemma run_build_fresh:
  assumes op: "holds_row w op" "op_state op = SIGNING" "attempts op < max_build_attempts cfg"
    and ref: "ref_block (w_node w) = Inr ref" and units: "py_str (amount_units op) = Inr units"
    and calm: "armed_count (w_crash w) SIGN_MID \<le> 0"
    and u: "u = unsigned_envelope sha cfg op units ref (w_clock w)"
  obtains op' w' where "run sha (build_fresh sha cfg sg op wid) w = (Inr op', w')" "wrote_row w w' op'"
    "same_claim op op'" "op_state op' = SIGNED" "signed_tx op' = Some (to_json (sign sha sg u))"
    "attempts op' = attempts op" "ut_txid u \<in> history (w_store w') (operation_id op)" "op_txid op' = Some (ut_txid u)"
proof -
  let ?w = "\<lambda>dst sets. written (w_clock w) dst sets (Some (lease_seconds cfg))"
  let ?s1 = "[Set_unsigned_tx (Some (ut_raw_data u)), Set_txid (Some (ut_txid u)),
      Set_tx_expiration (Some (ut_expiration u)), Set_signed_tx None]"
  let ?d1 = "[(''txid'', PStr (ut_txid u)), (''reason'', PStr ''envelope built'')]"
  obtain w1 where r1: "run sha (p_cas cfg op SIGNING wid ?s1 ?d1) w = (Inr (?w SIGNING ?s1 op), w1)"
    "wrote_row w w1 (?w SIGNING ?s1 op)" "same_claim op (?w SIGNING ?s1 op)"
    "detail_txids ?d1 \<subseteq> history (w_store w1) (operation_id op)"
    using run_p_cas [OF op(1), of SIGNING ?s1 sha cfg wid ?d1] op(2) by (auto simp: handler_sets)
  define op1 where "op1 = ?w SIGNING ?s1 op"
  have op1: "op_state op1 = SIGNING" "attempts op1 = attempts op" "op_txid op1 = Some (ut_txid u)" by (simp_all add: op1_def written_def Let_def)
  have c1: "w_clock w1 = w_clock w" "w_crash w1 = w_crash w" using r1(2) by (simp_all add: wrote_row_def)
  have h1: "holds_row w1 op1" using wrote_row_holds [OF r1(2)] by (simp add: op1_def)
  let ?s2 = "[Set_signed_tx (Some (to_json (sign sha sg u)))]"
  obtain w2 where r2: "run sha (p_cas cfg op1 SIGNED wid ?s2 []) w1 = (Inr (?w SIGNED ?s2 op1), w2)"
    "wrote_row w1 w2 (?w SIGNED ?s2 op1)" "same_claim op1 (?w SIGNED ?s2 op1)"
    using run_p_cas [OF h1, of SIGNED ?s2 sha cfg wid "[]"] op1(1) c1(1) by (auto simp: handler_sets)
  have filed: "ut_txid u \<in> history (w_store w2) (operation_id op)"
    using r1(4) history_run [OF r2(1)] by (auto simp: detail_txids_def)
  have "run sha (build_fresh sha cfg sg op wid) w = (Inr (?w SIGNED ?s2 op1), w2)"
    using op(3) ref units r1(1) r2(1) c1 calm
    by (simp add: build_fresh_def persist_and_sign_def run_pbind flip: u op1_def)
  moreover have "wrote_row w w2 (?w SIGNED ?s2 op1)"
    using r1(2) r2(2) same_claim_id [OF r2(3)] by (simp add: wrote_row_def op1_def)
  moreover have "same_claim op (?w SIGNED ?s2 op1)" using r1(3) r2(3) by (simp add: same_claim_def op1_def)
  ultimately show thesis by (rule that) (simp_all add: written_def Let_def op1 filed)
qed

text \<open>A node with no scripted fault on the broadcast and query channels.\<close>

definition healthy :: "node \<Rightarrow> bool" where
  "healthy nd \<longleftrightarrow> dict_get (nd_faults nd) ''broadcast'' = Some [] \<and>
     dict_get (nd_faults nd) ''query'' = Some []"

definition accepts :: "node \<Rightarrow> signedtx \<Rightarrow> string \<Rightarrow> node" where
  "accepts nd g wid = log_it (nd\<lparr>nd_txs := dict_set (nd_txs nd) (st_txid g) (fresh_record nd g)\<rparr>) g
     (Some wid) ''accepted''"

lemma healthy_broadcast:
  assumes "healthy nd" "verify sha (nd_signer nd) g = Inr True" "clk < st_expiration g"
    "dict_get (nd_txs nd) (st_txid g) = None"
  shows "broadcast sha clk nd g (Some wid) =
    (Inr \<lparr> br_code = code_value SUCCESS, br_message = [] \<rparr>, accepts nd g wid)"
  using assms by (simp add: broadcast_def take_fault_def healthy_def accepts_def fresh_record_def Let_def)

lemma healthy_accepts: "healthy nd \<Longrightarrow> healthy (accepts nd g wid)"
  by (simp add: healthy_def accepts_def log_it_def)

lemma run_p_broadcast:
  assumes op: "holds_row w op" "op_state op = SIGNED" "signed_tx op = Some (to_json g)"
    and live: "w_clock w < st_expiration g"
    and node: "healthy (w_node w)" "verify sha (nd_signer (w_node w)) g = Inr True"
      "dict_get (nd_txs (w_node w)) (st_txid g) = None"
    and calm: "armed_count (w_crash w) BROADCAST_PRE_SEND \<le> 0"
      "armed_count (w_crash w) BROADCAST_POST_SEND \<le> 0"
  obtains op' w' where "run sha (p_broadcast cfg op wid) w = (Inr op', w')"
    "wrote_row (w\<lparr>w_node := accepts (w_node w) g wid\<rparr>) w' op'" "same_claim op op'"
    "op_state op' = BROADCAST" "signed_tx op' = Some (to_json g)" "op_txid op' = op_txid op"
proof -
  let ?w = "\<lambda>dst sets. written (w_clock w) dst sets (Some (lease_seconds cfg))"
  let ?d1 = "[(''txid'', PStr (st_txid g)), (''reason'', PStr ''write-ahead'')]"
  obtain w1 where r1: "run sha (p_cas cfg op BROADCASTING wid [] ?d1) w = (Inr (?w BROADCASTING [] op), w1)"
    "wrote_row w w1 (?w BROADCASTING [] op)" "same_claim op (?w BROADCASTING [] op)"
    using run_p_cas [OF op(1), of BROADCASTING "[]" sha cfg wid ?d1] op(2) by (auto simp: handler_sets)
  define op1 where "op1 = ?w BROADCASTING [] op"
  have op1: "op_state op1 = BROADCASTING" "signed_tx op1 = signed_tx op" "op_txid op1 = op_txid op"
    by (simp_all add: op1_def written_def Let_def)
  have c1: "w_clock w1 = w_clock w" "w_node w1 = w_node w" "w_crash w1 = w_crash w"
    using r1(2) by (simp_all add: wrote_row_def)
  define w2 where "w2 = w1\<lparr>w_node := accepts (w_node w) g wid\<rparr>"
  have c2: "w_clock w2 = w_clock w" "w_crash w2 = w_crash w" using c1 by (simp_all add: w2_def)
  have h2: "holds_row w2 op1"
    using wrote_row_holds [OF r1(2)] by (simp add: w2_def holds_row_def op1_def)
  let ?s3 = "[Set_broadcast_at (Some (w_clock w))]"
  let ?d3 = "[(''txid'', PStr (st_txid g)), (''code'', PStr (code_value SUCCESS))]"
  obtain w3 where r3: "run sha (p_cas cfg op1 BROADCAST wid ?s3 ?d3) w2 = (Inr (?w BROADCAST ?s3 op1), w3)"
    "wrote_row w2 w3 (?w BROADCAST ?s3 op1)" "same_claim op1 (?w BROADCAST ?s3 op1)"
    using run_p_cas [OF h2, of BROADCAST ?s3 sha cfg wid ?d3] op1(1) c1(1)
    by (auto simp: handler_sets w2_def)
  have "run sha (p_broadcast cfg op wid) w = (Inr (?w BROADCAST ?s3 op1), w3)"
    using op live calm r1(1) r3(1) c1 healthy_broadcast [OF node(1,2) live node(3), of wid]
    by (simp add: p_broadcast_def load_signed_def first_send_def run_pbind run_catch
        settle_broadcast_result_def code_sets Let_def c2 flip: op1_def w2_def)
  moreover have "wrote_row (w\<lparr>w_node := accepts (w_node w) g wid\<rparr>) w3 (?w BROADCAST ?s3 op1)"
    using r1(2,3) r3(2,3) same_claim_id c1 by (simp add: wrote_row_def op1_def w2_def)
  moreover have "same_claim op (?w BROADCAST ?s3 op1)"
    using r1(3) r3(3) by (simp add: same_claim_def op1_def)
  ultimately show thesis by (rule that) (simp_all add: written_def Let_def op1 op)
qed

section \<open>One claim, driven\<close>

text \<open>What follows the loop of \<open>_drive\<close>, by the way the loop was left.\<close>

definition settle_exit :: "string \<Rightarrow> drive_exit \<Rightarrow> int prog" where
  "settle_exit wid exit = (case exit of
     Finished \<Rightarrow> Return 1
   | Lost_Claim advanced \<Rightarrow> Return advanced
   | Left_Loop op advanced \<Rightarrow>
       pbind (store_release (operation_id op) (fencing_token op)) (\<lambda>_. Return advanced)
   | Handler_Error op advanced \<Rightarrow>
       pbind (store_cas (operation_id op) (fencing_token op) (op_state op) (op_state op)
                [Set_last_error (Some ''handler exception (see logs)'')] [] None (Some wid)) (\<lambda>_.
       pbind (store_release (operation_id op) (fencing_token op)) (\<lambda>_. Return advanced)))"

lemma drive_eq: "drive sha cfg sg wid op = pbind (drive_loop sha cfg sg wid 8 op 0) (settle_exit wid)"
  by (simp add: drive_def settle_exit_def [abs_def] MAX_STEPS_PER_CLAIM_def)

lemma drive_loop_moves:
  assumes "run sha (pipeline_step sha cfg sg op wid) w = (Inr op', w1)"
    "op_state op' \<noteq> op_state op" "op_state op' \<notin> set TERMINAL"
  shows "run sha (drive_loop sha cfg sg wid (Suc n) op adv) w = run sha (drive_loop sha cfg sg wid n op' 1) w1"
  using assms by (simp add: run_catch)

lemma drive_loop_parks:
  assumes "run sha (pipeline_step sha cfg sg op wid) w = (Inr op', w1)"
    "op_state op' = op_state op" "op_state op' \<notin> set TERMINAL"
  shows "run sha (drive_loop sha cfg sg wid (Suc n) op adv) w = (Inr (Left_Loop op' adv), w1)"
  using assms by (simp add: run_catch)

lemma drive_loop_finishes:
  assumes "run sha (pipeline_step sha cfg sg op wid) w = (Inr op', w1)" "op_state op' \<in> set TERMINAL"
  shows "run sha (drive_loop sha cfg sg wid (Suc n) op adv) w = (Inr Finished, w1)"
  using assms by (simp add: run_catch)

lemma release_own:
  "holds_row w op \<Longrightarrow> wrote_row w (w\<lparr>w_store := release (w_clock w) (w_store w) (operation_id op)
      (fencing_token op)\<rparr>) (released (w_clock w) op)"
  using history_cong [of "w_store w\<lparr>ms_ops := _\<rparr>" "w_store w"]
  by (simp add: release_def released_def wrote_row_def holds_row_def get_def)

lemma pending_find_tx:
  assumes "healthy nd" "dict_get (nd_txs nd) t = Some q" "rec_included_block q = None"
    "clk < st_expiration (rec_tx q)"
  shows "find_tx clk nd t = (Inr \<lparr> ts_result = PENDING, ts_block = None, ts_solid = False,
    ts_receipt = None \<rparr>, nd)"
  using assms by (simp add: find_tx_def take_fault_def healthy_def Let_def)

lemma pending_step:
  assumes "op_state op = BROADCAST" "signed_tx op = Some (to_json g)" "healthy (w_node w)"
    "dict_get (nd_txs (w_node w)) (st_txid g) = Some q" "rec_included_block q = None" "w_clock w < st_expiration (rec_tx q)"
  shows "run sha (pipeline_step sha cfg sg op wid) w = (Inr op, w)"
  using assms pending_find_tx [OF assms(3-6)]
  by (simp add: pipeline_step_def await_confirmation_def load_signed_def run_pbind run_catch)

lemma included_find_tx:
  assumes "healthy nd" "dict_get (nd_txs nd) t = Some q" "rec_included_block q = Some b"
  shows "find_tx clk nd t = (Inr \<lparr> ts_result = INCLUDED, ts_block = Some b,
    ts_solid = (b \<le> solid_block nd), ts_receipt = receipt q \<rparr>, nd)"
  using assms by (simp add: find_tx_def take_fault_def healthy_def Let_def)

text \<open>The conditions under which a request is good, and nothing is scripted to go wrong.\<close>

definition payable :: "(bytes \<Rightarrow> bytes) \<Rightarrow> config \<Rightarrow> operation \<Rightarrow> bool" where
  "payable sha cfg op \<longleftrightarrow> is_valid sha (to_address op) \<and> asset op = cfg_asset cfg \<and>
     min_amount_units cfg \<le> amount_units op \<and> amount_units op \<le> max_amount_units cfg \<and>
     attempts op < max_build_attempts cfg"

definition calm :: "crash_switch \<Rightarrow> bool" where
  "calm cs \<longleftrightarrow> (\<forall>p \<in> {SIGN_MID, BROADCAST_PRE_SEND, BROADCAST_POST_SEND, CONFIRM_PRE_WRITE}.
     armed_count cs p \<le> 0)"

text \<open>The first two steps of a claim, common to everything that becomes of it afterwards.\<close>

lemma run_to_signed:
  assumes op: "holds_row w op" "op_state op = REQUESTED" "payable sha cfg op"
    and node: "ref_block (w_node w) = Inr ref" "py_str (amount_units op) = Inr units" "armed_count (w_crash w) SIGN_MID \<le> 0"
    and g: "g = sign sha sg (unsigned_envelope sha cfg op units ref (w_clock w))"
  obtains op1 w1 op2 w2 where "run sha (pipeline_step sha cfg sg op wid) w = (Inr op1, w1)" "op_state op1 = VALIDATED"
    "run sha (pipeline_step sha cfg sg op1 wid) w1 = (Inr op2, w2)" "wrote_row w w2 op2" "same_claim op op2"
    "op_state op2 = SIGNED" "signed_tx op2 = Some (to_json g)" "op_txid op2 = Some (st_txid g)" "attempts op2 = attempts op"
proof -
  obtain op1 w1 where s1: "run sha (p_validate sha cfg op wid) w = (Inr op1, w1)" "wrote_row w w1 op1"
      "same_claim op op1" "op_state op1 = VALIDATED" "attempts op1 = attempts op"
    using run_validate [OF op(1,2)] op(3) unfolding payable_def by metis
  let ?op2 = "written (w_clock w1) SIGNING [] (Some (lease_seconds cfg)) op1"
  obtain w2 where s2: "run sha (p_cas cfg op1 SIGNING wid [] []) w1 = (Inr ?op2, w2)" "wrote_row w1 w2 ?op2"
      "same_claim op1 ?op2"
    using run_p_cas [OF wrote_row_holds [OF s1(2)], of SIGNING "[]" sha cfg wid "[]"] s1(4) by (auto simp: handler_sets)
  have c2: "w_clock w2 = w_clock w" "w_node w2 = w_node w" "w_crash w2 = w_crash w"
    using s1(2) s2(2) by (simp_all add: wrote_row_def)
  have id2: "operation_id ?op2 = operation_id op" "to_address ?op2 = to_address op" "amount_units ?op2 = amount_units op"
      "op_state ?op2 = SIGNING" "attempts ?op2 = attempts op"
    using s1(3,5) s2(3) by (simp_all add: same_claim_def intake_part_def written_def Let_def)
  have u2: "unsigned_envelope sha cfg ?op2 units ref (w_clock w2) = unsigned_envelope sha cfg op units ref (w_clock w)"
    by (simp add: unsigned_envelope_def build_envelope_def c2 id2 Let_def)
  have a2: "attempts ?op2 < max_build_attempts cfg" "ref_block (w_node w2) = Inr ref"
      "py_str (amount_units ?op2) = Inr units" "armed_count (w_crash w2) SIGN_MID \<le> 0"
    using op(3) node c2 id2 by (simp_all add: payable_def)
  obtain op3 w3 where s3: "run sha (build_fresh sha cfg sg ?op2 wid) w2 = (Inr op3, w3)" "wrote_row w2 w3 op3"
      "same_claim ?op2 op3" "op_state op3 = SIGNED" "signed_tx op3 = Some (to_json g)" "attempts op3 = attempts ?op2"
      "op_txid op3 = Some (st_txid g)"
    by (rule run_build_fresh [OF wrote_row_holds [OF s2(2)] id2(4) a2 refl, of sha sg wid]) (use u2 g in simp)
  show thesis
  proof (rule that [of op1 w1 op3 w3])
    show "wrote_row w w3 op3"
      using s1(2) s2(2) s3(2) same_claim_id [OF s3(3)] same_claim_id [OF s2(3)] by (simp add: wrote_row_def)
    show "same_claim op op3" using s1(3) s2(3) s3(3) by (simp add: same_claim_def)
  qed (use s1(1,4) s2(1) s3 op(2) id2(5) in \<open>simp_all add: pipeline_step_def build_and_sign_def run_pbind\<close>)
qed

text \<open>A signed envelope is sent, accepted, found pending and waited for.\<close>

lemma send_and_park:
  assumes op: "holds_row w op" "op_state op = SIGNED" "signed_tx op = Some (to_json g)"
    and live: "w_clock w < st_expiration g"
    and node: "healthy (w_node w)" "verify sha (nd_signer (w_node w)) g = Inr True"
      "dict_get (nd_txs (w_node w)) (st_txid g) = None"
    and calm: "calm (w_crash w)"
  obtains op' w' where "run sha (pipeline_step sha cfg sg op wid) w = (Inr op', w')"
    "run sha (pipeline_step sha cfg sg op' wid) w' = (Inr op', w')"
    "wrote_row (w\<lparr>w_node := accepts (w_node w) g wid\<rparr>) w' op'" "same_claim op op'"
    "op_state op' = BROADCAST" "signed_tx op' = Some (to_json g)" "op_txid op' = op_txid op"
proof -
  obtain op' w' where s: "run sha (p_broadcast cfg op wid) w = (Inr op', w')"
      "wrote_row (w\<lparr>w_node := accepts (w_node w) g wid\<rparr>) w' op'" "same_claim op op'"
      "op_state op' = BROADCAST" "signed_tx op' = Some (to_json g)" "op_txid op' = op_txid op"
    by (rule run_p_broadcast [OF op live node, where wid = wid and cfg = cfg]) (use calm in \<open>simp_all add: calm_def\<close>)
  have c: "w_clock w' = w_clock w" "w_node w' = accepts (w_node w) g wid" using s(2) by (simp_all add: wrote_row_def)
  have park: "run sha (pipeline_step sha cfg sg op' wid) w' = (Inr op', w')"
    by (rule pending_step [OF s(4,5), where q = "fresh_record (w_node w) g"])
      (use node(1) live c healthy_accepts in \<open>simp_all add: accepts_def log_it_def dict_simps fresh_record_def\<close>)
  have "run sha (pipeline_step sha cfg sg op wid) w = (Inr op', w')" using s(1) op(2) by (simp add: pipeline_step_def)
  from that [OF this park s(2-6)] show thesis .
qed

lemma first_drive:
  assumes op: "holds_row w op" "op_state op = REQUESTED" "payable sha cfg op"
    and node: "healthy (w_node w)" "nd_signer (w_node w) = sg" "CHR '':'' \<notin> set (key_id sg)"
      "ref_block (w_node w) = Inr ref" "py_str (amount_units op) = Inr units"
    and g: "g = sign sha sg (unsigned_envelope sha cfg op units ref (w_clock w))"
      "dict_get (nd_txs (w_node w)) (st_txid g) = None"
    and "0 < tx_ttl_seconds cfg" "calm (w_crash w)"
  obtains op' w' where "run sha (drive sha cfg sg wid op) w = (Inr 1, w')"
    "wrote_row (w\<lparr>w_node := accepts (w_node w) g wid\<rparr>) w' op'" "same_claim op op'"
    "op_state op' = BROADCAST" "signed_tx op' = Some (to_json g)" "op_txid op' = Some (st_txid g)"
    "lease_expires_at op' = None"
proof -
  obtain op1 w1 op2 w2 where s2: "run sha (pipeline_step sha cfg sg op wid) w = (Inr op1, w1)" "op_state op1 = VALIDATED"
      "run sha (pipeline_step sha cfg sg op1 wid) w1 = (Inr op2, w2)" "wrote_row w w2 op2" "same_claim op op2"
      "op_state op2 = SIGNED" "signed_tx op2 = Some (to_json g)" "op_txid op2 = Some (st_txid g)"
    by (rule run_to_signed [OF op node(4,5) _ g(1)]) (use assms(12) in \<open>simp add: calm_def\<close>)
  have c2: "w_clock w2 = w_clock w" "w_node w2 = w_node w" "w_crash w2 = w_crash w"
    using s2(4) by (simp_all add: wrote_row_def)
  have exp: "w_clock w < st_expiration g" using assms by (simp add: unsigned_envelope_def Let_def)
  obtain op3 w3 where step3: "run sha (pipeline_step sha cfg sg op2 wid) w2 = (Inr op3, w3)"
      and s4: "run sha (pipeline_step sha cfg sg op3 wid) w3 = (Inr op3, w3)"
      and s3: "wrote_row (w2\<lparr>w_node := accepts (w_node w2) g wid\<rparr>) w3 op3" "same_claim op2 op3"
      "op_state op3 = BROADCAST" "signed_tx op3 = Some (to_json g)" "op_txid op3 = op_txid op2"
    by (rule send_and_park [OF wrote_row_holds [OF s2(4)] s2(6,7), where sha = sha and wid = wid and cfg = cfg])
      (use assms exp c2 verify_sign in simp_all)
  have loop: "run sha (drive_loop sha cfg sg wid 8 op 0) w = (Inr (Left_Loop op3 1), w3)"
    using drive_loop_moves [OF s2(1), of 7] drive_loop_moves [OF s2(3), of 6]
      drive_loop_moves [OF step3, of 5] drive_loop_parks [OF s4, of 4]
      op(2) s2(2,6) s3(3) by (simp add: TERMINAL_def eval_nat_numeral del: drive_loop.simps)
  have r: "wrote_row w3 (w3\<lparr>w_store := release (w_clock w3) (w_store w3) (operation_id op3)
      (fencing_token op3)\<rparr>) (released (w_clock w3) op3)"
    using release_own wrote_row_holds [OF s3(1)] by blast
  let ?w' = "w3\<lparr>w_store := release (w_clock w3) (w_store w3) (operation_id op3) (fencing_token op3)\<rparr>"
  have "run sha (drive sha cfg sg wid op) w = (Inr 1, ?w')"
    using loop by (simp add: drive_def MAX_STEPS_PER_CLAIM_def run_pbind)
  moreover have "wrote_row (w\<lparr>w_node := accepts (w_node w) g wid\<rparr>) ?w' (released (w_clock w3) op3)"
    using r s2(4,5) s3(1,2) c2 by (simp add: wrote_row_def same_claim_id released_def)
  moreover have "same_claim op (released (w_clock w3) op3)"
    using s2(5) s3(2) by (simp add: same_claim_def released_def intake_part_def)
  ultimately show thesis by (rule that) (simp_all add: released_def s2(8) s3)
qed

lemma second_drive:
  assumes op: "holds_row w op" "op_state op = BROADCAST" "signed_tx op = Some (to_json g)"
    and node: "healthy (w_node w)" "dict_get (nd_txs (w_node w)) (st_txid g) = Some q"
      "rec_included_block q = Some b" "b \<le> solid_block (w_node w)" "receipt q = Some ''SUCCESS''"
    and calm: "calm (w_crash w)"
  obtains op' w' where "run sha (drive sha cfg sg wid op) w = (Inr 1, w')" "wrote_row w w' op'"
    "same_claim op op'" "op_state op' = CONFIRMED" "signed_tx op' = Some (to_json g)"
    "op_txid op' = op_txid op"
proof -
  let ?sets = "[Set_included_block (Some b), Set_confirmed_at (Some (w_clock w))]"
  let ?d = "[(''txid'', PStr (st_txid g)), (''block'', opt_int (Some b))]"
  let ?op = "written (w_clock w) CONFIRMED ?sets (Some (lease_seconds cfg)) op"
  obtain w' where r: "run sha (p_cas cfg op CONFIRMED wid ?sets ?d) w = (Inr ?op, w')"
    "wrote_row w w' ?op" "same_claim op ?op"
    using run_p_cas [OF op(1), of CONFIRMED ?sets sha cfg wid ?d] op(2) by (auto simp: handler_sets)
  have c: "w_node w' = w_node w" using r(2) by (simp add: wrote_row_def)
  have "run sha (pipeline_step sha cfg sg op wid) w = (Inr ?op, w')"
    using op r(1) included_find_tx [OF node(1-3)] node(4,5) calm
    by (simp add: pipeline_step_def await_confirmation_def load_signed_def settle_inclusion_def run_pbind
        run_catch calm_def)
  moreover have st: "op_state ?op = CONFIRMED" by (simp add: written_def Let_def)
  ultimately have "run sha (drive_loop sha cfg sg wid 8 op 0) w = (Inr Finished, w')"
    using drive_loop_finishes [of sha cfg sg op wid w ?op w' 7 0] by (simp add: eval_nat_numeral del: drive_loop.simps)
  then have "run sha (drive sha cfg sg wid op) w = (Inr 1, w')"
    by (simp add: drive_def MAX_STEPS_PER_CLAIM_def run_pbind)
  then show thesis
    using r(2,3) by (rule that) (simp_all add: written_def Let_def op(3))
qed

section \<open>One withdrawal alone in the store\<close>

definition only_row :: "mstore \<Rightarrow> operation \<Rightarrow> bool" where
  "only_row ms op \<longleftrightarrow> ms_ops ms = [(operation_id op, op)] \<and>
     dict_get (ms_arrival ms) (operation_id op) \<noteq> None \<and> (\<forall>j. j \<noteq> operation_id op \<longrightarrow> history ms j = {})"

lemma only_row_holds: "only_row (w_store w) op \<Longrightarrow> holds_row w op"
  by (simp add: only_row_def holds_row_def get_def)

lemma only_row_wrote:
  "only_row (w_store w) op \<Longrightarrow> wrote_row w w' op' \<Longrightarrow> operation_id op' = operation_id op \<Longrightarrow>
     only_row (w_store w') op'"
  by (simp add: only_row_def wrote_row_def)

lemma only_row_claim:
  assumes "only_row ms op" "op_state op \<in> set states" "lease_expires_at op = None" "0 < limit"
  obtains ms' where "claim now ms states limit wid d = (Inr [claimed now wid d op], ms')"
    "only_row ms' (claimed now wid d op)" "history ms' = history ms"
  using assms history_cong [of "ms\<lparr>ms_ops := _\<rparr>" ms]
  by (auto simp: claim_def candidates_def only_row_def claimed_def Let_def)

lemma only_row_run_once:
  assumes "only_row (w_store w) op" "op_state op \<in> set CLAIMABLE" "lease_expires_at op = None"
    "0 < claim_batch cfg"
  obtains ms' where "only_row ms' (claimed (w_clock w) wid (lease_seconds cfg) op)"
    "run sha (run_once sha cfg sg wid) w =
       run sha (drive sha cfg sg wid (claimed (w_clock w) wid (lease_seconds cfg) op)) (w\<lparr>w_store := ms'\<rparr>)"
proof -
  obtain ms' where "claim (w_clock w) (w_store w) CLAIMABLE (claim_batch cfg) wid (lease_seconds cfg) =
      (Inr [claimed (w_clock w) wid (lease_seconds cfg) op], ms')"
      "only_row ms' (claimed (w_clock w) wid (lease_seconds cfg) op)"
    using only_row_claim [OF assms] by metis
  then show thesis
    by (intro that) (auto simp: run_once_def store_claim_def lift_exn_def run_pbind split: sum.splits prod.splits)
qed

section \<open>Blocks\<close>

lemma produce_blocks_snoc:
  "produce_blocks (\<lambda>_. c) (Suc n) nd = ebind (produce_blocks (\<lambda>_. c) n nd) (produce_block c)"
proof (induction n arbitrary: nd)
  case 0
  show ?case by (cases "produce_block c nd") simp_all
next
  case (Suc n)
  then show ?case by (cases "produce_block c nd") simp_all
qed

text \<open>No revert is scripted.\<close>

definition no_reverts :: "node \<Rightarrow> bool" where
  "no_reverts nd \<longleftrightarrow> dict_get (nd_faults nd) ''receipt'' \<in> {None, Some []}"

lemma pop_revert_none:
  assumes "no_reverts nd"
  obtains f where "pop_revert (nd_faults nd) = (False, f)" "dict_get f ''receipt'' = Some []"
    "dict_get f ''broadcast'' = dict_get (nd_faults nd) ''broadcast''"
    "dict_get f ''query'' = dict_get (nd_faults nd) ''query''"
proof (cases "dict_get (nd_faults nd) ''receipt''")
  case None
  then have "setdefault (nd_faults nd) ''receipt'' = dict_set (nd_faults nd) ''receipt'' []"
    by (auto simp: setdefault_def split: option.split)
  then show thesis
    using that [of "dict_set (nd_faults nd) ''receipt'' []"] by (simp add: pop_revert_def dict_simps)
next
  case (Some fs)
  then show thesis
    using assms that [of "nd_faults nd"] by (simp add: pop_revert_def setdefault_def no_reverts_def)
qed

text \<open>A transaction alone in the pool lands in the block that the inclusion delay allows, while the
  clock stands still at or behind the tip.\<close>

lemma lone_tx_lands:
  assumes nd: "nd_txs nd = [(t, q)]" "rec_included_block q = None" "accepted_at_block q = nd_head nd"
      "dict_get (block_time nd) (nd_head nd) = Some tip" "clk \<le> tip" "healthy nd" "no_reverts nd"
    and k: "k = max 1 (inclusion_delay nd)" "tip + k * milliseconds 1 < st_expiration (rec_tx q)"
  shows "\<exists>nd'. produce_blocks (\<lambda>_. clk) n nd = Inr nd' \<and> nd_head nd' = nd_head nd + int n \<and>
    dict_get (block_time nd') (nd_head nd') = Some (tip + int n * milliseconds 1) \<and>
    healthy nd' \<and> no_reverts nd' \<and> solidity_lag nd' = solidity_lag nd \<and>
    inclusion_delay nd' = inclusion_delay nd \<and>
    nd_txs nd' = [(t, if int n < k then q else
      q\<lparr>rec_included_block := Some (nd_head nd + k), receipt := Some ''SUCCESS''\<rparr>)]"
proof (induction n)
  case 0
  then show ?case using nd k by simp
next
  case (Suc n)
  then obtain nd' where nd': "produce_blocks (\<lambda>_. clk) n nd = Inr nd'" "nd_head nd' = nd_head nd + int n"
    "dict_get (block_time nd') (nd_head nd') = Some (tip + int n * milliseconds 1)" "healthy nd'" "no_reverts nd'"
    "solidity_lag nd' = solidity_lag nd" "inclusion_delay nd' = inclusion_delay nd"
    "nd_txs nd' = [(t, if int n < k then q else
      q\<lparr>rec_included_block := Some (nd_head nd + k), receipt := Some ''SUCCESS''\<rparr>)]" by blast
  have pos: "0 < milliseconds 1" by (simp add: milliseconds_def)
  have "clk \<le> tip + int n * milliseconds 1" using nd(5) pos by (simp add: add_increasing2)
  then have t: "next_block_time clk (tip + int n * milliseconds 1) = tip + int (Suc n) * milliseconds 1"
    by (simp add: next_block_time_def algebra_simps)
  let ?h = "nd_head nd' + 1" and ?t = "tip + int (Suc n) * milliseconds 1"
  obtain txs faults where inc: "include_txs ?h ?t (inclusion_delay nd') (nd_txs nd') (nd_faults nd') = (txs, faults)"
    by fastforce
  have early: "?t < st_expiration (rec_tx q)" if "int (Suc n) \<le> k"
    using k(2) mult_right_mono [OF that, of "milliseconds 1"] pos by linarith
  have txs: "txs = [(t, if int (Suc n) < k then q else
      q\<lparr>rec_included_block := Some (nd_head nd + k), receipt := Some ''SUCCESS''\<rparr>)] \<and>
      (\<forall>c \<in> {''broadcast'', ''query''}. dict_get faults c = dict_get (nd_faults nd') c) \<and>
      dict_get faults ''receipt'' \<in> {None, Some []}"
  proof -
    obtain f where f: "pop_revert (nd_faults nd') = (False, f)" "dict_get f ''receipt'' = Some []"
        "dict_get f ''broadcast'' = dict_get (nd_faults nd') ''broadcast''"
        "dict_get f ''query'' = dict_get (nd_faults nd') ''query''"
      using pop_revert_none [OF nd'(5)] .
    consider "int (Suc n) < k" | "int (Suc n) = k" | "k < int (Suc n)" by linarith
    then show ?thesis
      by cases (use inc nd(2,3) nd'(2,5,7,8) early k(1) f in
        \<open>auto simp: include_one_def no_reverts_def split: if_splits\<close>)
  qed
  have "produce_blocks (\<lambda>_. clk) (Suc n) nd = Inr (nd'\<lparr>nd_head := ?h,
      block_time := dict_set (block_time nd') ?h ?t, nd_txs := txs, nd_faults := faults\<rparr>)"
    using nd'(1,3) t inc unfolding produce_blocks_snoc by (simp add: produce_block_def Let_def)
  then show ?case
    using nd' txs by (simp add: healthy_def no_reverts_def dict_simps)
qed

section \<open>From intake to confirmation\<close>

text \<open>Intake, a pass of a worker, blocks until the chain has solidified what was sent, another pass.\<close>

definition submitted :: "time \<Rightarrow> int \<Rightarrow> int \<Rightarrow> mock_signer \<Rightarrow> operation \<Rightarrow> world" where
  "submitted clk lag delay sg op = (let w = s_world (initial_system clk lag delay sg) in
     w\<lparr>w_store := snd (insert_new clk clk (w_store w) op)\<rparr>)"

lemma submitted_only_row:
  "only_row (w_store (submitted clk lag delay sg op)) (stamped clk op)"
proof -
  have "history ms j = {}" if "ms_events ms = []" for ms j
    using that by (simp add: history_def all_txids_def map_filter_def)
  then show ?thesis
    by (simp add: submitted_def initial_system_def insert_new_def new_store_def only_row_def stamped_def
        Let_def history_append_event detail_txids_def)
qed

text \<open>A pass over the only row is a drive of it; the two passes of the story.\<close>

lemma first_pass:
  assumes row: "only_row (w_store w) op" "op_state op = REQUESTED" "lease_expires_at op = None" "0 < claim_batch cfg"
    and ok: "payable sha cfg op" "py_str (amount_units op) = Inr units" "0 < tx_ttl_seconds cfg"
      "CHR '':'' \<notin> set (key_id sg)"
    and node: "healthy (w_node w)" "nd_signer (w_node w) = sg" "ref_block (w_node w) = Inr ref" "nd_txs (w_node w) = []"
      "calm (w_crash w)"
    and g: "g = sign sha sg (unsigned_envelope sha cfg op units ref (w_clock w))"
  obtains w' op' where "run sha (run_once sha cfg sg wid) w = (Inr 1, w')" "only_row (w_store w') op'"
    "intake_part op' = intake_part op" "op_state op' = BROADCAST" "signed_tx op' = Some (to_json g)"
    "op_txid op' = Some (st_txid g)" "lease_expires_at op' = None"
    "w_clock w' = w_clock w" "w_node w' = accepts (w_node w) g wid" "w_crash w' = w_crash w"
proof -
  let ?op = "claimed (w_clock w) wid (lease_seconds cfg) op"
  obtain ms where ms: "only_row ms ?op" "run sha (run_once sha cfg sg wid) w = run sha (drive sha cfg sg wid ?op) (w\<lparr>w_store := ms\<rparr>)"
    using only_row_run_once [OF row(1), of cfg wid sha sg] row(2-4) by (auto simp: CLAIMABLE_def)
  have pay: "payable sha cfg ?op" "op_state ?op = REQUESTED" "amount_units ?op = amount_units op"
    using row ok by (simp_all add: payable_def claimed_def)
  have g': "g = sign sha sg (unsigned_envelope sha cfg ?op units ref (w_clock w))"
    using g by (simp add: unsigned_envelope_def build_envelope_def claimed_def)
  have h: "holds_row (w\<lparr>w_store := ms\<rparr>) ?op" using ms(1) only_row_holds [of "w\<lparr>w_store := ms\<rparr>"] by simp
  obtain op1 w2 where d: "run sha (drive sha cfg sg wid ?op) (w\<lparr>w_store := ms\<rparr>) = (Inr 1, w2)"
    "wrote_row (w\<lparr>w_store := ms, w_node := accepts (w_node w) g wid\<rparr>) w2 op1"
    "same_claim ?op op1" "op_state op1 = BROADCAST" "signed_tx op1 = Some (to_json g)"
    "op_txid op1 = Some (st_txid g)" "lease_expires_at op1 = None"
    by (rule first_drive [where w = "w\<lparr>w_store := ms\<rparr>" and op = ?op and sha = sha and cfg = cfg and sg = sg
          and ref = ref and units = units and g = g and wid = wid]) (use h pay ok node g' in simp_all)
  have "only_row (w_store w2) op1"
    using only_row_wrote [of "w\<lparr>w_store := ms, w_node := accepts (w_node w) g wid\<rparr>" ?op w2 op1] ms(1) d(2,3) same_claim_id by simp
  moreover have "intake_part op1 = intake_part op" using d(3) by (simp add: same_claim_def claimed_def intake_part_def)
  ultimately show thesis using that ms(2) d by (simp add: wrote_row_def)
qed

lemma second_pass:
  assumes row: "only_row (w_store w) op" "op_state op = BROADCAST" "lease_expires_at op = None" "0 < claim_batch cfg"
      "signed_tx op = Some (to_json g)"
    and node: "healthy (w_node w)" "calm (w_crash w)" "dict_get (nd_txs (w_node w)) (st_txid g) = Some q"
      "rec_included_block q = Some h" "h \<le> solid_block (w_node w)" "receipt q = Some ''SUCCESS''"
  obtains w' op' where "run sha (run_once sha cfg sg wid) w = (Inr 1, w')" "only_row (w_store w') op'"
    "intake_part op' = intake_part op" "op_state op' = CONFIRMED" "signed_tx op' = Some (to_json g)"
    "op_txid op' = op_txid op" "w_node w' = w_node w"
proof -
  let ?op = "claimed (w_clock w) wid (lease_seconds cfg) op"
  obtain ms where ms: "only_row ms ?op" "run sha (run_once sha cfg sg wid) w = run sha (drive sha cfg sg wid ?op) (w\<lparr>w_store := ms\<rparr>)"
    using only_row_run_once [OF row(1), of cfg wid sha sg] row(2-4) by (auto simp: CLAIMABLE_def)
  have f: "op_state ?op = BROADCAST" "signed_tx ?op = Some (to_json g)" using row by (simp_all add: claimed_def)
  have h: "holds_row (w\<lparr>w_store := ms\<rparr>) ?op" using ms(1) only_row_holds [of "w\<lparr>w_store := ms\<rparr>"] by simp
  obtain op1 w2 where d: "run sha (drive sha cfg sg wid ?op) (w\<lparr>w_store := ms\<rparr>) = (Inr 1, w2)"
    "wrote_row (w\<lparr>w_store := ms\<rparr>) w2 op1" "same_claim ?op op1" "op_state op1 = CONFIRMED"
    "signed_tx op1 = Some (to_json g)" "op_txid op1 = op_txid ?op"
    by (rule second_drive [OF h f]) (use node in simp_all)
  have "only_row (w_store w2) op1"
    using only_row_wrote [of "w\<lparr>w_store := ms\<rparr>" ?op w2 op1] ms(1) d(2,3) same_claim_id by simp
  moreover have "intake_part op1 = intake_part op" using d(3) by (simp add: same_claim_def claimed_def intake_part_def)
  ultimately show thesis using that ms(2) d by (simp add: wrote_row_def claimed_def)
qed

text \<open>The lone transaction of a fresh node is solid after \<open>solidify\<close>.\<close>

lemma fresh_tx_solidifies:
  assumes "0 \<le> lag" "0 \<le> delay" "clk + max 1 delay * milliseconds 1 < st_expiration g"
  obtains nd q where "solidify (\<lambda>_. clk) (accepts (new_node clk lag delay sg) g wid) = Inr nd" "healthy nd"
    "nd_txs nd = [(st_txid g, q)]" "rec_included_block q = Some (1000 + max 1 delay)"
    "receipt q = Some ''SUCCESS''" "1000 + max 1 delay \<le> solid_block nd"
proof -
  let ?nd = "accepts (new_node clk lag delay sg) g wid" and ?q = "fresh_record (new_node clk lag delay sg) g"
  have f: "nd_txs ?nd = [(st_txid g, ?q)]" "rec_included_block ?q = None" "accepted_at_block ?q = nd_head ?nd"
    "dict_get (block_time ?nd) (nd_head ?nd) = Some clk" "healthy ?nd" "no_reverts ?nd"
    by (simp_all add: accepts_def log_it_def new_node_def healthy_def no_reverts_def fresh_record_def)
  have h: "nd_head ?nd = 1000" "inclusion_delay ?nd = delay" "solidity_lag ?nd = lag" "rec_tx ?q = g"
    by (simp_all add: accepts_def log_it_def new_node_def fresh_record_def)
  let ?n = "nat (lag + delay + 1)"
  have n: "int ?n = lag + delay + 1" "\<not> int ?n < max 1 delay" using assms(1,2) by simp_all
  obtain nd where nd: "produce_blocks (\<lambda>_. clk) ?n ?nd = Inr nd" "nd_head nd = nd_head ?nd + int ?n" "healthy nd"
      "solidity_lag nd = solidity_lag ?nd" "nd_txs nd = [(st_txid g, if int ?n < max 1 delay then ?q else
        ?q\<lparr>rec_included_block := Some (nd_head ?nd + max 1 delay), receipt := Some ''SUCCESS''\<rparr>)]"
    using lone_tx_lands [OF f(1-4) order_refl f(5,6) refl, of ?n] assms(3) unfolding h by blast
  show thesis
  proof (rule that [OF _ nd(3)])
    show "solidify (\<lambda>_. clk) ?nd = Inr nd" using nd(1) h by (simp add: solidify_def)
    show "nd_txs nd = [(st_txid g, ?q\<lparr>rec_included_block := Some (1000 + max 1 delay), receipt := Some ''SUCCESS''\<rparr>)]"
      using nd(5) unfolding h(1) if_not_P [OF n(2)] .
    show "1000 + max 1 delay \<le> solid_block nd" using nd(2,4) n(1) h assms(2) by (simp add: solid_block_def)
  qed simp_all
qed

lemma delivery:
  fixes op :: operation
  assumes op: "op_state op = REQUESTED" "payable sha cfg op" "py_str (amount_units op) = Inr units"
      "lease_expires_at op = None"
    and cfg: "0 < claim_batch cfg" "0 \<le> lag" "0 \<le> delay" "max 1 delay * milliseconds 1 < tx_ttl_seconds cfg"
    and sg: "CHR '':'' \<notin> set (key_id sg)"
  obtains w2 nd w3 op3 g where
    "run sha (run_once sha cfg sg wid) (submitted clk lag delay sg op) = (Inr 1, w2)" "w_clock w2 = clk"
    "solidify (\<lambda>_. clk) (w_node w2) = Inr nd"
    "run sha (run_once sha cfg sg wid') (w2\<lparr>w_node := nd\<rparr>) = (Inr 1, w3)"
    "only_row (w_store w3) op3" "intake_part op3 = intake_part (stamped clk op)" "op_state op3 = CONFIRMED"
    "signed_tx op3 = Some (to_json g)" "op_txid op3 = Some (st_txid g)" "st_txid g \<in> successful_txids (w_node w3)"
proof -
  let ?w = "submitted clk lag delay sg op" and ?op = "stamped clk op" and ?ref = "(1000, block_hash 1000)"
  let ?nd = "new_node clk lag delay sg"
  have w: "w_clock ?w = clk" "w_node ?w = ?nd" "w_crash ?w = new_crash_switch"
    by (simp_all add: submitted_def initial_system_def Let_def)
  have node: "ref_block ?nd = Inr ?ref" "healthy ?nd" "nd_signer ?nd = sg" "nd_txs ?nd = []" "calm new_crash_switch"
    using cfg(2) by (simp_all add: ref_block_def new_node_def heights_def solid_block_def healthy_def calm_def
        armed_count_def new_crash_switch_def)
  have pay: "op_state ?op = REQUESTED" "payable sha cfg ?op" "py_str (amount_units ?op) = Inr units" "lease_expires_at ?op = None"
    using op by (simp_all add: payable_def stamped_def)
  have ttl: "0 < tx_ttl_seconds cfg" using cfg(4) by (simp add: milliseconds_def max_def split: if_splits)
  define g where "g = sign sha sg (unsigned_envelope sha cfg ?op units ?ref clk)"
  have g: "g = sign sha sg (unsigned_envelope sha cfg ?op units ?ref (w_clock ?w))" by (simp add: g_def w(1))
  obtain w2 op2 where p1: "run sha (run_once sha cfg sg wid) ?w = (Inr 1, w2)" "only_row (w_store w2) op2"
    "intake_part op2 = intake_part ?op" "op_state op2 = BROADCAST" "signed_tx op2 = Some (to_json g)"
    "op_txid op2 = Some (st_txid g)" "lease_expires_at op2 = None"
    "w_clock w2 = w_clock ?w" "w_node w2 = accepts (w_node ?w) g wid" "w_crash w2 = w_crash ?w"
    by (rule first_pass [OF submitted_only_row pay(1,4) cfg(1) pay(2,3) ttl sg _ _ _ _ _ g]) (use node w in simp_all)
  have exp: "clk + max 1 delay * milliseconds 1 < st_expiration g"
    using cfg(4) by (simp add: g_def unsigned_envelope_def Let_def)
  obtain nd q where nd: "solidify (\<lambda>_. clk) (accepts ?nd g wid) = Inr nd" "healthy nd" "nd_txs nd = [(st_txid g, q)]"
      "rec_included_block q = Some (1000 + max 1 delay)" "receipt q = Some ''SUCCESS''" "1000 + max 1 delay \<le> solid_block nd"
    by (rule fresh_tx_solidifies [OF cfg(2,3) exp])
  obtain w3 op3 where p2: "run sha (run_once sha cfg sg wid') (w2\<lparr>w_node := nd\<rparr>) = (Inr 1, w3)" "only_row (w_store w3) op3"
    "intake_part op3 = intake_part op2" "op_state op3 = CONFIRMED" "signed_tx op3 = Some (to_json g)"
    "op_txid op3 = op_txid op2" "w_node w3 = w_node (w2\<lparr>w_node := nd\<rparr>)"
    by (rule second_pass [of "w2\<lparr>w_node := nd\<rparr>" op2 cfg g q]) (use p1 nd node w cfg(1) in simp_all)
  have "st_txid g \<in> successful_txids (w_node w3)"
    using p2(7) nd(3-5) by (simp add: successful_txids_def)
  then show thesis
    using p1 p2 nd(1) w by (intro that [OF p1(1) _ _ p2(1,2)]) simp_all
qed

text \<open>A good request, for the witnesses.\<close>

definition sample_request :: operation where
  "sample_request = new_operation 7 [] REQUESTED sample_address ''USDT-TRC20'' 5000000"

lemma sample_request_good:
  "payable sample_sha default_config sample_request" "op_state sample_request = REQUESTED"
  "lease_expires_at sample_request = None" "py_str (amount_units sample_request) = Inr (nat_str 5000000)"
proof -
  have "length (nat_str 5000000) = 7" by (simp add: nat_str.simps)
  then show "py_str (amount_units sample_request) = Inr (nat_str 5000000)"
    by (simp add: sample_request_def new_operation_def py_str_def int_str_def max_str_digits_def)
qed (use sample_address_valid in
  \<open>simp_all add: payable_def sample_request_def new_operation_def default_config_def\<close>)

lemma sample_settings:
  "0 < claim_batch default_config" "max 1 1 * milliseconds 1 < tx_ttl_seconds default_config"
  "CHR '':'' \<notin> set (key_id default_signer)" "0 \<le> expiration_safety_seconds default_config"
  by (simp_all add: default_config_def default_signer_def milliseconds_def seconds_def)

text \<open>
  C8. A good withdrawal is paid: when the request is valid and within bounds, the node shares the
  signer's key and no fault or crash is scripted, then from an empty system intake followed by one
  pass of a worker, the blocks of \<open>solidify\<close> and one more pass (of any worker) leave the operation
  confirmed, with its intake columns as filed and its recorded txid executed successfully on the
  chain; each pass reports one advanced operation.
\<close>

theorem withdrawal_is_delivered:
  assumes "op_state op = REQUESTED" "payable sha cfg op" "py_str (amount_units op) = Inr units"
    and "lease_expires_at op = None" "0 < claim_batch cfg" "0 \<le> lag" "0 \<le> delay"
    and "max 1 delay * milliseconds 1 < tx_ttl_seconds cfg" "CHR '':'' \<notin> set (key_id sg)"
  shows "\<exists>w2 nd w3 r t.
    run sha (run_once sha cfg sg wid) (submitted clk lag delay sg op) = (Inr 1, w2) \<and>
    solidify (\<lambda>_. clk) (w_node w2) = Inr nd \<and>
    run sha (run_once sha cfg sg wid') (w2\<lparr>w_node := nd\<rparr>) = (Inr 1, w3) \<and>
    get (w_store w3) (operation_id op) = Some r \<and> op_state r = CONFIRMED \<and>
    intake_part r = intake_part (stamped clk op) \<and>
    op_txid r = Some t \<and> t \<in> successful_txids (w_node w3)"
proof -
  obtain w2 nd w3 op3 g where
    r: "run sha (run_once sha cfg sg wid) (submitted clk lag delay sg op) = (Inr 1, w2)"
    and "w_clock w2 = clk" and r2: "solidify (\<lambda>_. clk) (w_node w2) = Inr nd"
    "run sha (run_once sha cfg sg wid') (w2\<lparr>w_node := nd\<rparr>) = (Inr 1, w3)"
    "only_row (w_store w3) op3" "intake_part op3 = intake_part (stamped clk op)" "op_state op3 = CONFIRMED"
    and "signed_tx op3 = Some (to_json g)" and r3: "op_txid op3 = Some (st_txid g)"
      "st_txid g \<in> successful_txids (w_node w3)"
    by (rule delivery [OF assms, where wid = wid and clk = clk and wid' = wid'])
  moreover have "get (w_store w3) (operation_id op) = Some op3"
    using r2(3,4) by (simp add: only_row_def get_def intake_part_def stamped_def)
  ultimately show ?thesis using r2 r3 by blast
qed

theorem withdrawal_is_delivered_witness:
  "\<exists>w2 nd w3 r t.
    run sample_sha (run_once sample_sha default_config default_signer ''a'')
      (submitted 0 19 1 default_signer sample_request) = (Inr 1, w2) \<and>
    solidify (\<lambda>_. 0) (w_node w2) = Inr nd \<and>
    run sample_sha (run_once sample_sha default_config default_signer ''b'') (w2\<lparr>w_node := nd\<rparr>) = (Inr 1, w3) \<and>
    get (w_store w3) 7 = Some r \<and> op_state r = CONFIRMED \<and>
    op_txid r = Some t \<and> t \<in> successful_txids (w_node w3)"
proof -
  have id: "operation_id sample_request = 7" by (simp add: sample_request_def new_operation_def)
  show ?thesis
    using withdrawal_is_delivered [OF sample_request_good(2,1,4,3) sample_settings(1), of 19 1 default_signer
        "''a''" 0 "''b''"] sample_settings(2,3) unfolding id by auto
qed

section \<open>A crash between build and signature\<close>

text \<open>With the crash point armed, the pass dies after the envelope is durable: the row is left in
  \<open>signing\<close> with the txid in its log, and nothing went to the node.\<close>

lemma run_crash_armed:
  assumes "0 < armed_count (w_crash w) p"
  obtains c where "run sha (crash_here p) w = (Inl (SimulatedCrash p), w\<lparr>w_crash := c\<rparr>)"
  using assms by (auto simp: crash_here_def here_def armed_count_def split: option.splits)

lemma crash_drive:
  assumes op: "holds_row w op" "op_state op = REQUESTED" "payable sha cfg op"
    and ref: "ref_block (w_node w) = Inr ref" and units: "py_str (amount_units op) = Inr units"
    and armed: "0 < armed_count (w_crash w) SIGN_MID"
  obtains op' w' t where "run sha (drive sha cfg sg wid op) w = (Inl (SimulatedCrash SIGN_MID), w')"
    "get (w_store w') (operation_id op) = Some op'" "op_state op' = SIGNING"
    "\<forall>j. j \<noteq> operation_id op \<longrightarrow> history (w_store w') j = history (w_store w) j"
    "t \<in> history (w_store w') (operation_id op)" "w_node w' = w_node w"
proof -
  obtain op1 w1 where s1: "run sha (p_validate sha cfg op wid) w = (Inr op1, w1)" "wrote_row w w1 op1"
      "same_claim op op1" "op_state op1 = VALIDATED" "attempts op1 = attempts op"
    using run_validate [OF op(1,2)] op(3) unfolding payable_def by metis
  have id1: "operation_id op1 = operation_id op" "amount_units op1 = amount_units op"
    using s1(3) by (simp_all add: same_claim_def intake_part_def)
  have c1: "w_node w1 = w_node w" "w_crash w1 = w_crash w" using s1(2) by (simp_all add: wrote_row_def)
  have a1: "attempts op1 < max_build_attempts cfg" "ref_block (w_node w1) = Inr ref"
      "py_str (amount_units op1) = Inr units"
    using op(3) s1(5) c1 id1 ref units by (simp_all add: payable_def)
  obtain op2 w2 sets where s2: "run sha (build_and_sign sha cfg sg op1 wid) w1 =
      run sha (pbind (crash_here SIGN_MID) (\<lambda>_. p_cas cfg op2 SIGNED wid sets [])) w2"
    "wrote_row w1 w2 op2" "same_claim op1 op2" "op_state op2 = SIGNING"
    "ut_txid (unsigned_envelope sha cfg op1 units ref (w_clock w1)) \<in> history (w_store w2) (operation_id op1)"
    using run_envelope [OF wrote_row_holds [OF s1(2)] s1(4) a1 refl] by metis
  obtain c where c: "run sha (crash_here SIGN_MID) w2 = (Inl (SimulatedCrash SIGN_MID), w2\<lparr>w_crash := c\<rparr>)"
    using run_crash_armed [of w2 SIGN_MID sha] armed c1 s2(2) by (auto simp: wrote_row_def)
  have "run sha (build_and_sign sha cfg sg op1 wid) w1 = (Inl (SimulatedCrash SIGN_MID), w2\<lparr>w_crash := c\<rparr>)"
    using s2(1) c by (simp add: run_pbind)
  then have "run sha (drive_loop sha cfg sg wid (Suc n) op1 1) w1 =
      (Inl (SimulatedCrash SIGN_MID), w2\<lparr>w_crash := c\<rparr>)" for n
    using s1(4) by (simp add: run_catch pipeline_step_def is_Exception_def)
  then have "run sha (drive_loop sha cfg sg wid 8 op 0) w = (Inl (SimulatedCrash SIGN_MID), w2\<lparr>w_crash := c\<rparr>)"
    using drive_loop_moves [of sha cfg sg op wid w op1 w1 7 0] s1(1,4) op(2)
    by (simp add: pipeline_step_def eval_nat_numeral del: drive_loop.simps)
  then have "run sha (drive sha cfg sg wid op) w = (Inl (SimulatedCrash SIGN_MID), w2\<lparr>w_crash := c\<rparr>)"
    by (simp add: drive_def MAX_STEPS_PER_CLAIM_def run_pbind)
  moreover have id2: "operation_id op2 = operation_id op" using same_claim_id [OF s2(3)] id1 by simp
  moreover have "get (w_store w2) (operation_id op) = Some op2"
    using wrote_row_holds [OF s2(2)] id2 by (simp add: holds_row_def)
  ultimately show thesis
    using s1(2) s2(2,4,5) id1 c1 by (intro that [of "w2\<lparr>w_crash := c\<rparr>" op2]) (auto simp: wrote_row_def)
qed

end
