(* ===== verification/Discipline.thy ===== *)
theory Discipline
  imports Solo
begin

text \<open>
  Invariants that each call of a worker keeps on its own.  A discipline says what is known of a row the
  store hands out, which writes and which broadcasts are allowed, and what may be assumed after a write
  that was carried out, of the answer to a broadcast and of the answer to a lookup; \<open>obeys\<close> says that a program keeps to it, whatever the answers.  The locale
  \<open>discipline_laws\<close> has what the rows must satisfy, \<open>disciplined_fleet\<close> adds that the worker obeys; then the
  rows of every reachable store are in order and so is everything the node holds.
\<close>

section \<open>Programs that obey\<close>

record discipline =
  d_row :: "operation \<Rightarrow> bool"
  d_write :: "uuid \<Rightarrow> op_state \<Rightarrow> op_state \<Rightarrow> field_set list \<Rightarrow> bool"
  d_noted :: "uuid \<Rightarrow> (string, pyval) dict \<Rightarrow> bool"
  d_send :: "signedtx \<Rightarrow> bool"
  d_told :: "signedtx \<Rightarrow> broadcast_result \<Rightarrow> bool"
  d_found :: "string \<Rightarrow> tx_status \<Rightarrow> bool"

definition handed :: "discipline \<Rightarrow> exn + operation list \<Rightarrow> bool" where
  "handed D r \<longleftrightarrow> (\<forall>ops. r = Inr ops \<longrightarrow> (\<forall>op \<in> set ops. d_row D op))"

definition answered :: "discipline \<Rightarrow> uuid \<Rightarrow> op_state \<Rightarrow> (string, pyval) dict \<Rightarrow> exn + operation option \<Rightarrow> bool" where
  "answered D i dst det r \<longleftrightarrow> (\<forall>op. r = Inr (Some op) \<longrightarrow>
     d_row D op \<and> operation_id op = i \<and> op_state op = dst \<and> d_noted D i det)"

primrec obeys :: "discipline \<Rightarrow> 'a prog \<Rightarrow> ('a \<Rightarrow> bool) \<Rightarrow> (exn \<Rightarrow> bool) \<Rightarrow> bool" where
  "obeys D (Return x) = (\<lambda>Q E. Q x)"
| "obeys D (Raise e) = (\<lambda>Q E. E e)"
| "obeys D (Clock_Now k) = (\<lambda>Q E. \<forall>t. obeys D (k t) Q E)"
| "obeys D (Store_Claim ss n w d k) = (\<lambda>Q E. \<forall>r. handed D r \<longrightarrow> obeys D (k r) Q E)"
| "obeys D (Store_Cas i tok src dst sets det renew who k) = (\<lambda>Q E. d_write D i src dst sets \<and>
     (\<forall>r. answered D i dst det r \<longrightarrow> obeys D (k r) Q E))"
| "obeys D (Store_Release i tok k) = (\<lambda>Q E. obeys D (k ()) Q E)"
| "obeys D (Node_Ref_Block k) = (\<lambda>Q E. \<forall>r. obeys D (k r) Q E)"
| "obeys D (Node_Broadcast g w k) = (\<lambda>Q E. d_send D g \<and> (\<forall>r. (\<forall>b. r = Inr b \<longrightarrow> d_told D g b) \<longrightarrow> obeys D (k r) Q E))"
| "obeys D (Node_Find_Tx t k) = (\<lambda>Q E. \<forall>r. (\<forall>st. r = Inr st \<longrightarrow> d_found D t st) \<longrightarrow> obeys D (k r) Q E)"
| "obeys D (Node_Solid_Now k) = (\<lambda>Q E. \<forall>r. obeys D (k r) Q E)"
| "obeys D (Node_Solid_Block k) = (\<lambda>Q E. \<forall>r. obeys D (k r) Q E)"
| "obeys D (Crash_Here p k) = (\<lambda>Q E. \<forall>r. obeys D (k r) Q E)"

lemma obeys_pbind [simp]: "obeys D (pbind p f) Q E = obeys D p (\<lambda>x. obeys D (f x) Q E) E"
  by (induction p) simp_all

lemma obeys_catch [simp]:
  "obeys D (catch p h f) Q E = obeys D p (\<lambda>x. obeys D (f x) Q E) (\<lambda>e. obeys D (h e) Q E)"
  by (induction p) simp_all

lemma obeys_mono:
  "obeys D p Q E \<Longrightarrow> (\<And>x. Q x \<Longrightarrow> Q' x) \<Longrightarrow> (\<And>e. E e \<Longrightarrow> E' e) \<Longrightarrow> obeys D p Q' E'"
  by (induction p) auto

lemma obeys_lift_exn [simp]:
  "obeys D (lift_exn r) Q E \<longleftrightarrow> (case r of Inl e \<Rightarrow> E e | Inr x \<Rightarrow> Q x)"
  by (simp add: lift_exn_def split: sum.split)

lemma obeys_calls [simp]:
  "obeys D clock_now Qt E \<longleftrightarrow> (\<forall>t. Qt t)"
  "obeys D (store_release i tok) Qu E \<longleftrightarrow> Qu ()"
  "obeys D node_ref_block Qr E \<longleftrightarrow> (\<forall>r. case r of Inl e \<Rightarrow> E e | Inr x \<Rightarrow> Qr x)"
  "obeys D (node_broadcast g who) Qb E \<longleftrightarrow> d_send D g \<and> (\<forall>e. E e) \<and> (\<forall>b. d_told D g b \<longrightarrow> Qb b)"
  "obeys D (node_find_tx t) Qf E \<longleftrightarrow> (\<forall>e. E e) \<and> (\<forall>st. d_found D t st \<longrightarrow> Qf st)"
  "obeys D node_solid_now Qs E \<longleftrightarrow> (\<forall>r. case r of Inl e \<Rightarrow> E e | Inr x \<Rightarrow> Qs x)"
  "obeys D node_solid_block Qn E \<longleftrightarrow> (\<forall>b. Qn b)"
  "obeys D (crash_here q) Qu E \<longleftrightarrow> Qu () \<and> E (SimulatedCrash q)"
  by (auto simp: call_defs all_bool_eq split: if_splits sum.splits)

lemma obeys_claim:
  assumes "\<And>ops. \<forall>op \<in> set ops. d_row D op \<Longrightarrow> Q ops" "\<And>e. E e"
  shows "obeys D (store_claim ss n wid d) Q E"
  using assms by (auto simp: store_claim_def handed_def split: sum.split)

lemma obeys_cas:
  assumes "d_write D i src dst sets" "\<And>r. (\<And>op. r = Some op \<Longrightarrow> d_row D op \<and> operation_id op = i \<and> op_state op = dst \<and>
      d_noted D i det) \<Longrightarrow> Q r" "\<And>e. E e"
  shows "obeys D (store_cas i tok src dst sets det renew who) Q E"
  using assms by (auto simp: store_cas_def answered_def split: sum.split)

lemma obeys_p_cas:
  assumes "d_write D (operation_id op) (op_state op) dst sets"
    "\<And>op'. d_row D op' \<Longrightarrow> operation_id op' = operation_id op \<Longrightarrow> op_state op' = dst \<Longrightarrow>
      d_noted D (operation_id op) det \<Longrightarrow> Q op'" "\<And>e. E e"
  shows "obeys D (p_cas cfg op dst wid sets det) Q E"
  unfolding p_cas_def obeys_pbind
proof (rule obeys_cas [OF assms(1)])
  fix r assume "\<And>op'. r = Some op' \<Longrightarrow> d_row D op' \<and> operation_id op' = operation_id op \<and> op_state op' = dst \<and>
    d_noted D (operation_id op) det"
  then show "obeys D (case r of None \<Rightarrow> Raise (LostClaim (operation_id op) (op_state op) dst) | Some op' \<Rightarrow> Return op') Q E"
    using assms(2,3) by (cases r) simp_all
qed (rule assms(3))

section \<open>Rows of a store that moves\<close>

text \<open>Whatever is called, a well-formed store stays so, and its rows stay with their intake columns; a
  terminal row stays in its state.\<close>

definition row_stays :: "operation \<Rightarrow> operation \<Rightarrow> bool" where
  "row_stays r r' \<longleftrightarrow> intake_part r' = intake_part r \<and> (op_state r \<in> set TERMINAL \<longrightarrow> op_state r' = op_state r)"

definition rows_stay :: "mstore \<Rightarrow> mstore \<Rightarrow> bool" where
  "rows_stay ms ms' \<longleftrightarrow> store_wf ms' \<and>
     (\<forall>i r. get ms i = Some r \<longrightarrow> (\<exists>r'. get ms' i = Some r' \<and> row_stays r r'))"

lemma row_stays_same [simp]:
  "row_stays r r" "row_stays r (claimed now wid d r)" "row_stays r (released now r)"
  by (simp_all add: row_stays_def claimed_def released_def intake_part_def)

lemma rows_stay_refl: "store_wf ms \<Longrightarrow> rows_stay ms ms"
  by (simp add: rows_stay_def)

lemma rows_stay_insert:
  assumes "store_wf ms" "insert_new now at ms op = (res, ms')"
  shows "rows_stay ms ms'"
proof -
  obtain r c where "insert_new now at ms op = ((r, c), ms')" using assms(2) by (cases res) auto
  from insert_new_effect [OF assms(1) this] show ?thesis by (auto simp: rows_stay_def)
qed

lemma rows_stay_claim:
  assumes "store_wf ms" "claim now ms ss n wid d = (res, ms')"
  shows "rows_stay ms ms'"
proof -
  have "get ms' i = get ms i \<or> (\<exists>r. get ms i = Some r \<and> get ms' i = Some (claimed now wid d r))" for i
    using mem_claim_law [OF assms] by blast
  then have "\<exists>r'. get ms' i = Some r' \<and> row_stays r r'" if "get ms i = Some r" for i r
    using that row_stays_same by (metis option.inject)
  then show ?thesis using claim_wf [OF assms] by (simp add: rows_stay_def)
qed

lemma rows_stay_cas:
  assumes "store_wf ms" "cas now at ms i tok src dst sets det renew who = (res, ms')"
  shows "rows_stay ms ms'"
  using assms(2)
proof (cases rule: cas_cases)
  case (wrote r)
  then show ?thesis
    using cas_wf [OF assms] written_keeps(1) [OF wrote(6)] by (auto simp: rows_stay_def row_stays_def)
qed (use assms(1) in \<open>simp add: rows_stay_refl\<close>)

lemma rows_stay_release: "store_wf ms \<Longrightarrow> rows_stay ms (release now ms i tok)"
  by (rule release_cases [of now ms i tok])
    (use release_wf [of ms now i tok] in \<open>auto simp: rows_stay_def\<close>)

lemma rows_stay_step1:
  assumes "store_wf (w_store w)" "step1 sha p w = Some (p', w')"
  shows "rows_stay (w_store w) (w_store w')"
  using assms by (cases p) (auto simp: step1_def Let_def split: prod.splits
    intro: rows_stay_refl rows_stay_claim rows_stay_cas rows_stay_release)

lemma rows_stay_sys_step:
  assumes "store_wf (w_store (s_world s))" "sys_step sha cfg sg strict s s'"
  shows "rows_stay (w_store (s_world s)) (w_store (s_world s'))"
  using assms(2) by cases (use assms(1) in \<open>auto intro: rows_stay_refl rows_stay_step1 rows_stay_insert\<close>)

text \<open>The node keeps its key and what is in a block.\<close>

definition node_stays :: "node \<Rightarrow> node \<Rightarrow> bool" where
  "node_stays nd nd' \<longleftrightarrow> node_wf nd \<and> node_wf nd' \<and> nd_signer nd' = nd_signer nd \<and>
     (\<forall>t q. dict_get (nd_txs nd) t = Some q \<and> rec_included_block q \<noteq> None \<longrightarrow> dict_get (nd_txs nd') t = Some q)"

lemma node_stays_frame:
  "node_wf nd \<Longrightarrow> node_stays nd nd" "node_wf nd \<Longrightarrow> node_stays nd (nd\<lparr>nd_faults := f\<rparr>)"
  by (simp_all add: node_stays_def)

lemma node_stays_broadcast:
  assumes "node_wf nd" "broadcast sha clk nd g who = (r, nd')"
  shows "node_stays nd nd'"
  using assms(2) by (cases rule: broadcast_effect) (use assms(1) node_wf_broadcast [OF assms] in \<open>auto simp: node_stays_def\<close>)

lemma node_stays_block:
  assumes "node_wf nd" "produce_block clk nd = Inr nd'"
  shows "node_stays nd nd'"
proof -
  have wf: "chain_wf nd" using assms(1) by (simp add: node_wf_def)
  have "dict_get (nd_txs nd') t = Some q" if "dict_get (nd_txs nd) t = Some q" "rec_included_block q \<noteq> None" for t q
    using produce_block_get [OF assms(2) wf, of t] that by (auto simp: option_rel_Some1 record_advances_def)
  moreover have "nd_signer nd' = nd_signer nd"
    using assms(2) by (rule produce_block_effect) simp
  ultimately show ?thesis using assms(1) node_wf_produce_block [OF assms] by (simp add: node_stays_def)
qed

lemma node_stays_step1:
  assumes "node_wf (w_node w)" "step1 sha p w = Some (p', w')"
  shows "node_stays (w_node w) (w_node w')"
  using assms by (cases p) (auto simp: step1_def Let_def node_stays_frame split: prod.splits
    intro: node_stays_broadcast dest!: find_tx_frame)

lemma node_stays_sys_step:
  assumes "node_wf (w_node (s_world s))" "sys_step sha cfg sg strict s s'"
  shows "node_stays (w_node (s_world s)) (w_node (s_world s'))"
  using assms(2)
proof cases
  case (ss_script ch fs)
  then show ?thesis using script_frame [of "w_node (s_world s)" ch fs] node_stays_frame [OF assms(1)] by auto
qed (use assms(1) in \<open>auto intro: node_stays_frame node_stays_step1 node_stays_block\<close>)

text \<open>Along a run of the system: what was there stays there.\<close>

definition grows :: "world \<Rightarrow> world \<Rightarrow> bool" where
  "grows w w' \<longleftrightarrow> (\<forall>i. history (w_store w) i \<subseteq> history (w_store w') i) \<and> rows_stay (w_store w) (w_store w') \<and>
     node_stays (w_node w) (w_node w')"

lemma grows_sys_step:
  assumes "store_wf (w_store (s_world s))" "node_wf (w_node (s_world s))" "sys_step sha cfg sg strict s s'"
  shows "grows (s_world s) (s_world s')"
  using rows_stay_sys_step [OF assms(1,3)] node_stays_sys_step [OF assms(2,3)] history_sys_step [OF assms(3)]
  by (simp add: grows_def)

lemma wf_reachable:
  "(sys_step sha cfg sg strict)\<^sup>*\<^sup>* (initial_system clk lag delay nsg) s \<Longrightarrow>
     store_wf (w_store (s_world s)) \<and> node_wf (w_node (s_world s)) \<and> nd_signer (w_node (s_world s)) = nsg"
proof (induction rule: rtranclp_induct)
  case (step y z)
  then show ?case using grows_sys_step [of y sha cfg sg strict z] by (simp add: grows_def rows_stay_def node_stays_def)
qed (simp add: initial_system_def store_wf_new, simp add: new_node_def)

text \<open>The node holds nothing it has not verified.\<close>

definition node_verified :: "(bytes \<Rightarrow> bytes) \<Rightarrow> node \<Rightarrow> bool" where
  "node_verified sha nd \<longleftrightarrow> (\<forall>t q. dict_get (nd_txs nd) t = Some q \<longrightarrow> verify sha (nd_signer nd) (rec_tx q) = Inr True)"

lemma node_verified_frame [simp]: "node_verified sha (nd\<lparr>nd_faults := f\<rparr>) = node_verified sha nd"
  by (simp add: node_verified_def)

lemma node_verified_broadcast:
  assumes "node_verified sha nd" "broadcast sha clk nd g who = (r, nd')"
  shows "node_verified sha nd'"
  using assms(2) by (cases rule: broadcast_effect)
    (use assms(1) in \<open>auto simp: node_verified_def fresh_record_def split: if_splits\<close>)

lemma node_verified_block:
  assumes "node_wf nd" "node_verified sha nd" "produce_block clk nd = Inr nd'"
  shows "node_verified sha nd'"
  unfolding node_verified_def
proof (intro allI impI)
  fix t q' assume q': "dict_get (nd_txs nd') t = Some q'"
  have wf: "chain_wf nd" using assms(1) by (simp add: node_wf_def)
  obtain q where "dict_get (nd_txs nd) t = Some q" "rec_tx q' = rec_tx q"
    using produce_block_get [OF assms(3) wf, of t] q' by (auto simp: option_rel_Some2 record_advances_def)
  then show "verify sha (nd_signer nd') (rec_tx q') = Inr True"
    using assms(2) node_stays_block [OF assms(1,3)] by (simp add: node_verified_def node_stays_def)
qed

lemma node_verified_step1:
  assumes "node_verified sha (w_node w)" "step1 sha p w = Some (p', w')"
  shows "node_verified sha (w_node w')"
  using assms by (cases p) (auto simp: step1_def Let_def split: prod.splits
    intro: node_verified_broadcast dest!: find_tx_frame)

lemma node_verified_sys_step:
  assumes "node_wf (w_node (s_world s))" "node_verified sha (w_node (s_world s))" "sys_step sha cfg sg strict s s'"
  shows "node_verified sha (w_node (s_world s'))"
  using assms(3)
proof cases
  case (ss_script ch fs)
  then show ?thesis using script_frame [of "w_node (s_world s)" ch fs] assms(2) by auto
qed (use assms(1,2) in \<open>auto intro: node_verified_step1 node_verified_block\<close>)

lemma verified_reachable:
  "(sys_step sha cfg sg strict)\<^sup>*\<^sup>* (initial_system clk lag delay nsg) s \<Longrightarrow> node_verified sha (w_node (s_world s))"
proof (induction rule: rtranclp_induct)
  case base
  then show ?case by (simp add: node_verified_def initial_system_def new_node_def)
next
  case (step y z)
  then show ?case using wf_reachable node_verified_sys_step by blast
qed

lemma grows_refl: "store_wf (w_store w) \<Longrightarrow> node_wf (w_node w) \<Longrightarrow> grows w w"
  by (simp add: grows_def rows_stay_refl node_stays_frame)

lemma grows_trans:
  assumes "grows u v" "grows v w"
  shows "grows u w"
proof -
  have "\<exists>r'. get (w_store w) i = Some r' \<and> row_stays r r'" if "get (w_store u) i = Some r" for i r
    using that assms unfolding grows_def rows_stay_def row_stays_def by metis
  then show ?thesis using assms unfolding grows_def rows_stay_def node_stays_def by (metis subset_trans)
qed

lemma grows_run:
  assumes "(sys_step sha cfg sg strict)\<^sup>*\<^sup>* (initial_system clk lag delay nsg) s" "(sys_step sha cfg sg strict)\<^sup>*\<^sup>* s s'"
  shows "grows (s_world s) (s_world s')"
  using assms(2)
proof (induction rule: rtranclp_induct)
  case base
  then show ?case using wf_reachable [OF assms(1)] grows_refl by blast
next
  case (step y z)
  have "(sys_step sha cfg sg strict)\<^sup>*\<^sup>* (initial_system clk lag delay nsg) y"
    using assms(1) step.hyps(1) by (rule rtranclp_trans)
  then show ?case using wf_reachable grows_sys_step step.hyps(2) step.IH grows_trans by blast
qed

section \<open>The laws\<close>

locale discipline_laws =
  fixes D :: discipline and scope :: "world \<Rightarrow> bool" and sha :: "bytes \<Rightarrow> bytes"
  assumes row_touched: "d_row D r \<Longrightarrow> lifecycle_part r' = lifecycle_part r \<Longrightarrow> d_row D r'"
    and row_written: "d_row D r \<Longrightarrow> can_transition (op_state r) dst \<Longrightarrow> mutable_sets sets \<Longrightarrow>
          d_write D (operation_id r) (op_state r) dst sets \<Longrightarrow> d_row D (written now dst sets renew r)"
    and row_filed: "scope w \<Longrightarrow> get (w_store w) i = Some r \<Longrightarrow> op_state r = REQUESTED \<Longrightarrow> signed_tx r = None \<Longrightarrow>
          operation_id r = i \<Longrightarrow> d_row D r"
    and noted: "scope w \<Longrightarrow> detail_txids det \<subseteq> history (w_store w) i \<Longrightarrow> d_noted D i det"
    and told: "scope (w\<lparr>w_node := nd\<rparr>) \<Longrightarrow> broadcast sha clk (w_node w) g who = (Inr b, nd) \<Longrightarrow> d_told D g b"
    and found: "scope (w\<lparr>w_node := nd\<rparr>) \<Longrightarrow> node_wf (w_node w) \<Longrightarrow> find_tx clk (w_node w) t = (Inr st, nd) \<Longrightarrow>
          d_found D t st"
    and scope_back: "scope w' \<Longrightarrow> grows w w' \<Longrightarrow> scope w"
begin

text \<open>What the calls keep.\<close>

definition keeps :: "world \<Rightarrow> bool" where
  "keeps w \<longleftrightarrow> store_wf (w_store w) \<and> node_wf (w_node w) \<and> (\<forall>i r. get (w_store w) i = Some r \<longrightarrow> d_row D r) \<and>
     (\<forall>t q. dict_get (nd_txs (w_node w)) t = Some q \<longrightarrow> d_send D (rec_tx q))"

lemma keeps_store:
  assumes "keeps w" "store_wf ms" "\<And>i r. get ms i = Some r \<Longrightarrow> d_row D r"
  shows "keeps (w\<lparr>w_store := ms\<rparr>)"
  using assms by (simp add: keeps_def)

lemma keeps_claim:
  assumes "keeps w" "claim (w_clock w) (w_store w) ss n wid d = (r, ms)"
  shows "keeps (w\<lparr>w_store := ms\<rparr>) \<and> handed D r"
proof -
  have wf: "store_wf (w_store w)" using assms(1) by (simp add: keeps_def)
  note law = mem_claim_law [OF wf assms(2)]
  have old: "d_row D (claimed (w_clock w) wid d q)" if "get (w_store w) i = Some q" for i q
    using row_touched [of q "claimed (w_clock w) wid d q"] assms(1) that
    by (auto simp: keeps_def claimed_def lifecycle_part_def)
  have "d_row D q" if "get ms i = Some q" for i q
    using law that old assms(1) unfolding keeps_def by (metis option.inject)
  moreover have "handed D r" using law old unfolding handed_def by metis
  ultimately show ?thesis using keeps_store [OF assms(1)] law by blast
qed

lemma keeps_cas:
  assumes "keeps w" "cas (w_clock w) (w_clock w) (w_store w) i tok src dst sets det renew who = (r, ms)"
    "d_write D i src dst sets" "scope (w\<lparr>w_store := ms\<rparr>)"
  shows "keeps (w\<lparr>w_store := ms\<rparr>) \<and> answered D i dst det r"
  using assms(2)
proof (cases rule: cas_cases)
  case refused
  then show ?thesis using assms(1) by (cases w) (simp add: answered_def)
next
  case (wrote q)
  let ?q = "written (w_clock w) dst sets renew q"
  have wf: "store_wf (w_store w)" using assms(1) by (simp add: keeps_def)
  have id: "operation_id q = i" "d_row D q" using store_wf_row [OF wf wrote(1)] assms(1) wrote(1) by (auto simp: keeps_def)
  have new: "d_row D ?q" by (rule row_written) (use wrote id assms(3) in simp_all)
  have k: "operation_id ?q = i" "op_state ?q = dst" using written_keeps [OF wrote(6)] id(1) by (simp_all add: intake_part_def)
  have "d_noted D i det"
    by (rule noted [OF assms(4)]) (simp add: wrote(8) history_append_event k(1))
  moreover have "d_row D p" if "get ms j = Some p" for j p
    using that new assms(1) by (auto simp: wrote(8) keeps_def split: if_splits)
  ultimately show ?thesis
    using keeps_store [OF assms(1) cas_wf [OF wf assms(2)]] new k wrote(7) by (auto simp: answered_def)
qed

lemma keeps_release:
  assumes "keeps w"
  shows "keeps (w\<lparr>w_store := release now (w_store w) i tok\<rparr>)"
proof (rule keeps_store [OF assms])
  have wf: "store_wf (w_store w)" using assms by (simp add: keeps_def)
  then show "store_wf (release now (w_store w) i tok)" by (rule release_wf)
  have old: "d_row D (released now q)" if "get (w_store w) i = Some q" for q
    using row_touched [of q "released now q"] assms that by (auto simp: keeps_def released_def lifecycle_part_def)
  show "d_row D r" if "get (release now (w_store w) i tok) j = Some r" for j r
    by (rule release_cases [of now "w_store w" i tok])
      (use that old assms in \<open>auto simp: keeps_def split: if_splits\<close>)
qed

lemma keeps_node:
  assumes "keeps w" "node_wf nd" "nd_txs nd = nd_txs (w_node w)"
  shows "keeps (w\<lparr>w_node := nd\<rparr>)"
  using assms by (simp add: keeps_def)

lemma keeps_broadcast:
  assumes "keeps w" "broadcast sha clk (w_node w) g who = (r, nd)" "d_send D g"
  shows "keeps (w\<lparr>w_node := nd\<rparr>)"
proof -
  have wf: "node_wf nd" using node_wf_broadcast [OF _ assms(2)] assms(1) by (simp add: keeps_def)
  show ?thesis
    using assms(2)
  proof (cases rule: broadcast_effect)
    case (filed f l)
    then show ?thesis
      using assms(1,3) wf by (auto simp: keeps_def fresh_record_def split: if_splits)
  qed (use assms(1) wf keeps_node in simp)
qed

lemma keeps_block:
  assumes "keeps w" "produce_block clk (w_node w) = Inr nd"
  shows "keeps (w\<lparr>w_node := nd\<rparr>)"
proof -
  have wf: "node_wf (w_node w)" "chain_wf (w_node w)" using assms(1) by (auto simp: keeps_def node_wf_def)
  have "d_send D (rec_tx q')" if "dict_get (nd_txs nd) t = Some q'" for t q'
    using produce_block_get [OF assms(2) wf(2), of t] assms(1) that
    by (auto simp: option_rel_Some2 keeps_def record_advances_def)
  then show ?thesis using assms(1) node_wf_produce_block [OF wf(1) assms(2)] by (simp add: keeps_def)
qed

lemma keeps_insert:
  assumes "keeps w" "insert_new now at (w_store w) (new_operation oid rh REQUESTED addr ass units) = (res, ms)" "scope (w\<lparr>w_store := ms\<rparr>)"
  shows "keeps (w\<lparr>w_store := ms\<rparr>)"
proof -
  let ?op = "new_operation oid rh REQUESTED addr ass units"
  obtain r c where ins: "insert_new now at (w_store w) ?op = ((r, c), ms)" using assms(2) by (cases res) auto
  have wf: "store_wf (w_store w)" using assms(1) by (simp add: keeps_def)
  note eff = insert_new_effect [OF wf ins]
  have "d_row D q" if q: "get ms i = Some q" for i q
  proof (cases "get (w_store w) i = None \<and> i = operation_id ?op")
    case True
    then have "q = stamped now ?op" "i = oid" using eff(2-4) q by (auto simp: new_operation_def)
    then show ?thesis
      by (intro row_filed [OF assms(3)]) (use q in \<open>simp_all add: stamped_def new_operation_def\<close>)
  next
    case False
    then show ?thesis using eff(5) [of i] q assms(1) by (auto simp: keeps_def)
  qed
  then show ?thesis using keeps_store [OF assms(1) eff(1)] by blast
qed

lemma keeps_step1:
  assumes "keeps w" "obeys D p Q E" "step1 sha p w = Some (p', w')" "scope w'"
  shows "keeps w' \<and> obeys D p' Q E"
proof (cases p)
  case (Store_Claim ss n wid d k)
  then show ?thesis
    using assms keeps_claim [of w ss n wid d] by (auto simp: step1_def Let_def split: prod.splits)
next
  case (Store_Cas i tok src dst sets det renew who k)
  then show ?thesis
    using assms keeps_cas [of w i tok src dst sets det renew who] by (auto simp: step1_def Let_def split: prod.splits)
next
  case (Node_Broadcast g who k)
  obtain r nd where b: "broadcast sha (w_clock w) (w_node w) g who = (r, nd)" by fastforce
  have "d_told D g x" if "r = Inr x" for x
    using told [of nd w "w_clock w" g who x] b that assms(3,4) by (simp add: Node_Broadcast step1_def)
  then show ?thesis
    using assms(1-3) keeps_broadcast [OF _ b] b by (auto simp: Node_Broadcast step1_def)
next
  case (Node_Find_Tx t k)
  obtain r nd where q: "find_tx (w_clock w) (w_node w) t = (r, nd)" by fastforce
  have "d_found D t x" if "r = Inr x" for x
    using found [of nd w "w_clock w" t x] q that assms(1,3,4) by (simp add: Node_Find_Tx step1_def keeps_def)
  moreover have "keeps (w\<lparr>w_node := nd\<rparr>)" using find_tx_frame [OF q] assms(1) by (auto simp: keeps_def)
  ultimately show ?thesis using assms(2,3) q by (auto simp: Node_Find_Tx step1_def)
qed (use assms keeps_release in \<open>auto simp: step1_def Let_def keeps_def split: prod.splits\<close>)

end

text \<open>A fleet of workers that obey, beside an environment that may do anything.\<close>

locale disciplined_fleet = discipline_laws +
  fixes cfg :: config and sg :: mock_signer
  assumes worker_obeys: "obeys D (run_once sha cfg sg wid) (\<lambda>_. True) (\<lambda>_. True)"
begin

definition fleet_keeps :: "system \<Rightarrow> bool" where
  "fleet_keeps s \<longleftrightarrow> keeps (s_world s) \<and> (\<forall>t \<in> set (s_threads s). obeys D (t_prog t) (\<lambda>_. True) (\<lambda>_. True))"

lemma fleet_keeps_step:
  assumes "sys_step sha cfg sg strict s s'" "fleet_keeps s" "scope (s_world s')"
  shows "fleet_keeps s'"
  using assms(1)
proof cases
  case (ss_start wid)
  then show ?thesis using assms(2) worker_obeys by (auto simp: fleet_keeps_def)
next
  case (ss_thread n t p' w')
  have "t \<in> set (s_threads s)" using ss_thread(2,3) by simp
  then have "keeps w' \<and> obeys D p' (\<lambda>_. True) (\<lambda>_. True)"
    using keeps_step1 [OF _ _ ss_thread(4), of "\<lambda>_. True" "\<lambda>_. True"] assms(2,3) ss_thread(1) by (simp add: fleet_keeps_def)
  then show ?thesis
    using ss_thread assms(2) set_update_subset_insert by (fastforce simp: fleet_keeps_def advance_thread_def)
next
  case (ss_kill n)
  then show ?thesis
    using assms(2) set_update_subset_insert by (fastforce simp: fleet_keeps_def)
next
  case (ss_block nd)
  then show ?thesis using assms(2) keeps_block by (auto simp: fleet_keeps_def)
next
  case (ss_script ch fs)
  then show ?thesis
    using assms(2) script_frame [of "w_node (s_world s)" ch fs] by (auto simp: fleet_keeps_def keeps_def)
next
  case (ss_submit now at oid rh addr ass units res ms)
  then show ?thesis using assms(2,3) keeps_insert by (auto simp: fleet_keeps_def)
qed (use assms(2) in \<open>auto simp: fleet_keeps_def keeps_def\<close>)

lemma fleet_keeps_initial: "fleet_keeps (initial_system clk lag delay nsg)"
  by (simp add: fleet_keeps_def keeps_def initial_system_def store_wf_new) (simp add: get_def new_store_def new_node_def)

lemma fleet_keeps_reachable:
  assumes "(sys_step sha cfg sg strict)\<^sup>*\<^sup>* (initial_system clk lag delay nsg) s" "scope (s_world s)"
  shows "fleet_keeps s"
  using assms
proof (induction rule: rtranclp_induct)
  case (step y z)
  have "scope (s_world y)"
    using scope_back [OF step.prems grows_sys_step] wf_reachable [OF step.hyps(1)] step.hyps(2) by blast
  then show ?case using step fleet_keeps_step by blast
qed (rule fleet_keeps_initial)

end

end
