(* ===== verification/Signed_Rows.thy ===== *)
theory Signed_Rows
  imports Discipline
begin

text \<open>
  A row that waits to be sent or confirmed carries a signed envelope that loads: the handlers that
  start with \<open>SignedTx.from_json(op.signed_tx)\<close> find one.  The invariant holds of every reachable
  state of the system, whatever the timing, because each write of a worker keeps it on its own, which makes
  it a discipline (\<open>Discipline\<close>):
  the states that hold an envelope are entered from \<open>signing\<close> with the envelope in the same write,
  and from each other without touching it.
\<close>

section \<open>Rows\<close>

definition row_signed :: "operation \<Rightarrow> bool" where
  "row_signed r \<longleftrightarrow> (op_state r \<in> {SIGNED, BROADCASTING, BROADCAST} \<longrightarrow> signed_tx r \<noteq> None) \<and>
     (\<forall>d. signed_tx r = Some d \<longrightarrow> (\<exists>g. d = to_json g))"

definition rows_signed :: "mstore \<Rightarrow> bool" where
  "rows_signed ms \<longleftrightarrow> (\<forall>i r. get ms i = Some r \<longrightarrow> row_signed r)"

lemma row_signed_loads:
  assumes "row_signed r" "op_state r \<in> {SIGNED, BROADCASTING, BROADCAST}"
  obtains g where "signed_tx r = Some (to_json g)"
  using assms by (auto simp: row_signed_def)

lemma row_signed_cong:
  "signed_tx r' = signed_tx r \<Longrightarrow> op_state r' = op_state r \<Longrightarrow> row_signed r' = row_signed r"
  by (simp add: row_signed_def)

section \<open>Programs whose writes keep the envelope\<close>

definition keeps_signed :: "op_state \<Rightarrow> op_state \<Rightarrow> field_set list \<Rightarrow> bool" where
  "keeps_signed src dst sets \<longleftrightarrow> (\<forall>now renew r. op_state r = src \<and> row_signed r \<and> can_transition src dst \<longrightarrow>
     row_signed (written now dst sets renew r))"

definition signing :: discipline where
  "signing = \<lparr> d_row = row_signed, d_write = (\<lambda>i. keeps_signed), d_noted = (\<lambda>i det. True), d_send = (\<lambda>g. True),
     d_told = (\<lambda>g b. True), d_found = (\<lambda>t st. True) \<rparr>"

definition signs :: "'a prog \<Rightarrow> bool" where
  "signs p \<longleftrightarrow> obeys signing p (\<lambda>_. True) (\<lambda>_. True)"

lemma signs_pbind: "signs p \<Longrightarrow> (\<And>x. signs (f x)) \<Longrightarrow> signs (pbind p f)"
  by (simp add: signs_def)

lemma signs_catch: "signs p \<Longrightarrow> (\<And>e. signs (h e)) \<Longrightarrow> (\<And>x. signs (f x)) \<Longrightarrow> signs (catch p h f)"
  by (simp add: signs_def)

lemma signs_return [simp]: "signs (Return x)" "signs (Raise e)" "signs (lift_exn r)"
  by (simp_all add: signs_def split: sum.split)

lemma signs_calls [simp]:
  "signs clock_now" "signs (store_claim ss n wid d)" "signs (store_release i tok)" "signs node_ref_block"
  "signs (node_broadcast g who)" "signs (node_find_tx t)" "signs node_solid_now" "signs node_solid_block"
  "signs (crash_here q)" "keeps_signed src dst sets \<Longrightarrow> signs (store_cas i tok src dst sets det renew who)"
  by (auto simp: signs_def signing_def intro!: obeys_claim obeys_cas split: sum.split)

text \<open>The writes of the handlers.\<close>

lemma written_columns:
  "op_state (written now dst sets renew r) = dst"
  "signed_tx (written now dst sets renew r) = signed_tx (fold apply_set sets r)"
  "attempts (written now dst sets renew r) = attempts (fold apply_set sets r)"
  by (simp_all add: written_def Let_def split: option.split)

lemma enters_signed:
  "can_transition src dst \<Longrightarrow> dst \<in> {SIGNED, BROADCASTING, BROADCAST} \<Longrightarrow>
     src \<in> {SIGNED, BROADCASTING, BROADCAST} \<or> dst = SIGNED"
  by (cases src) (auto simp: can_transition_def)

text \<open>A write that leaves the envelope alone and does not enter \<open>signed\<close> from \<open>signing\<close>.\<close>

lemma keeps_signed_untouched:
  assumes "\<And>r. signed_tx (fold apply_set sets r) = signed_tx r" "dst \<noteq> SIGNED \<or> src = SIGNED"
  shows "keeps_signed src dst sets"
  using assms enters_signed [of src dst] by (auto simp: keeps_signed_def row_signed_def written_columns)

lemma keeps_signed_handlers [simp]:
  "dst \<noteq> SIGNED \<Longrightarrow> keeps_signed src dst []"
  "dst \<noteq> SIGNED \<Longrightarrow> keeps_signed src dst [Set_failure_reason x]"
  "keeps_signed src src [Set_last_error x]"
  "dst \<noteq> SIGNED \<Longrightarrow> keeps_signed src dst [Set_last_error x]"
  "dst \<noteq> SIGNED \<Longrightarrow> keeps_signed src dst [Set_broadcast_at y]"
  "dst \<noteq> SIGNED \<Longrightarrow> keeps_signed src dst [Set_included_block z, Set_confirmed_at y]"
  "dst \<noteq> SIGNED \<Longrightarrow> keeps_signed src dst [Set_included_block z, Set_failure_reason x]"
  by (auto intro!: keeps_signed_untouched)

lemma keeps_signed_envelope [simp]:
  "keeps_signed src SIGNED [Set_signed_tx (Some (to_json g))]"
  "keeps_signed src SIGNING [Set_unsigned_tx u, Set_txid x, Set_tx_expiration y, Set_signed_tx None]"
  "keeps_signed src SIGNING [Set_attempts n, Set_last_error x, Set_signed_tx None, Set_unsigned_tx u,
     Set_txid x', Set_tx_expiration y]"
  by (auto simp: keeps_signed_def row_signed_def written_columns)

lemma signs_p_cas [simp]: "keeps_signed (op_state op) dst sets \<Longrightarrow> signs (p_cas cfg op dst wid sets det)"
  by (auto simp: p_cas_def intro!: signs_pbind split: option.split)

lemma signs_on_timeout [simp]: "signs (on_timeout op e)"
  by (simp add: on_timeout_def split: exn.split)

lemma signs_settle [simp]: "signs (settle_broadcast_result cfg op wid g r)"
  by (auto simp: settle_broadcast_result_def Let_def intro!: signs_pbind)

lemma signs_handlers [simp]:
  "signs (load_signed op)" "signs (rebuild cfg op wid why ev)" "signs (resend cfg op wid g)"
  "signs (mark_found cfg op wid g st)" "signs (settle_inclusion cfg op wid g st)"
  "signs (first_send cfg op wid g)" "signs (p_validate sha cfg op wid)"
  "signs (persist_and_sign sha cfg sg op wid u)" "signs (proof_of_death cfg g)"
  by (auto simp: load_signed_def rebuild_def resend_def mark_found_def settle_inclusion_def first_send_def
      p_validate_def persist_and_sign_def proof_of_death_def Let_def intro!: signs_pbind signs_catch
      split: option.split)

lemma signs_step [simp]: "signs (pipeline_step sha cfg sg op wid)"
proof -
  have "signs (build_and_sign sha cfg sg op wid)" "signs (p_broadcast cfg op wid)"
    by (auto simp: build_and_sign_def build_fresh_def p_broadcast_def intro!: signs_pbind)
  moreover have "signs (reconcile_broadcast cfg op wid)" "signs (await_confirmation cfg op wid)"
    by (auto simp: reconcile_broadcast_def await_confirmation_def intro!: signs_pbind signs_catch)
  ultimately show ?thesis by (auto simp: pipeline_step_def split: op_state.split)
qed

lemma signs_drive_loop [simp]: "signs (drive_loop sha cfg sg wid n op adv)"
  by (induction n arbitrary: op adv) (auto simp: Let_def intro!: signs_catch split: exn.split)

lemma signs_run_once [simp]: "signs (run_once sha cfg sg wid)"
proof -
  have drv: "signs (drive sha cfg sg wid op)" for op
    by (auto simp: drive_def intro!: signs_pbind split: drive_exit.split)
  have "signs (drive_all sha cfg sg wid ops acc)" for ops acc
    by (induction ops arbitrary: acc) (auto intro!: signs_pbind drv)
  then show ?thesis by (auto simp: run_once_def intro!: signs_pbind)
qed

interpretation sgn: disciplined_fleet signing "\<lambda>_. True" sha cfg sg for sha cfg sg
proof
  fix r r' assume "d_row signing r" "lifecycle_part r' = lifecycle_part r"
  then show "d_row signing r'"
    using lifecycle_fields(1,2) [of r' r] row_signed_cong [of r' r] by (simp add: signing_def)
next
  fix r dst sets now renew
  assume "d_row signing r" "can_transition (op_state r) dst" "d_write signing (operation_id r) (op_state r) dst sets"
  then show "d_row signing (written now dst sets renew r)" by (simp add: signing_def keeps_signed_def)
next
  fix r :: operation assume "op_state r = REQUESTED" "signed_tx r = None"
  then show "d_row signing r" by (simp add: signing_def row_signed_def)
next
  fix wid show "obeys signing (run_once sha cfg sg wid) (\<lambda>_. True) (\<lambda>_. True)"
    using signs_run_once by (simp add: signs_def)
qed (simp_all add: signing_def)

section \<open>Every call keeps the rows and the node in order\<close>

definition orderly :: "world \<Rightarrow> bool" where
  "orderly w \<longleftrightarrow> store_wf (w_store w) \<and> node_wf (w_node w) \<and> rows_signed (w_store w)"

lemma orderly_keeps: "sgn.keeps w \<longleftrightarrow> orderly w"
  by (simp add: sgn.keeps_def orderly_def rows_signed_def) (simp add: signing_def)

lemma orderly_run:
  assumes "run sha p w = (res, w')" "signs p" "orderly w"
  shows "orderly w'"
proof -
  have "orderly v' \<and> signs q'" if "orderly v \<and> signs q" "step1 sha q v = Some (q', v')" for q v q' v'
    using sgn.keeps_step1 [OF _ _ that(2), of "\<lambda>_. True" "\<lambda>_. True"] that(1) by (simp add: orderly_keeps signs_def)
  then show ?thesis using run_invariant [OF assms(1), of "\<lambda>p w. orderly w \<and> signs p"] assms(2,3) by blast
qed

lemma orderly_reachable:
  "(sys_step sha cfg sg strict)\<^sup>*\<^sup>* (initial_system clk lag delay nsg) s \<Longrightarrow> orderly (s_world s)"
  using sgn.fleet_keeps_reachable by (simp add: sgn.fleet_keeps_def orderly_keeps)

end
