(* ===== verification/Lone_Runs.thy ===== *)
theory Lone_Runs
  imports Delivery Signed_Rows
begin

text \<open>
  How far a row is from its end, as a number that no pass of a worker raises: an attempt is worth
  ten, and within an attempt the number falls along the states; a rebuild consumes an attempt.  The
  rules below carry the claim through sequencing and handlers for programs that run alone.
\<close>

section \<open>The rank of a row\<close>

definition row_rank :: "config \<Rightarrow> operation \<Rightarrow> nat" where
  "row_rank cfg r = (let a = nat (max_build_attempts cfg - attempts r) in
     case op_state r of
       REQUESTED \<Rightarrow> 10 * a + 3 | VALIDATED \<Rightarrow> 10 * a + 2 | SIGNING \<Rightarrow> 10 * a + 1
     | SIGNED \<Rightarrow> 10 * (a - 1) + 9 | BROADCASTING \<Rightarrow> 10 * (a - 1) + 8 | BROADCAST \<Rightarrow> 10 * (a - 1) + 7
     | _ \<Rightarrow> 0)"

lemma row_rank_zero: "row_rank cfg r = 0 \<longleftrightarrow> op_state r \<in> set TERMINAL"
  by (cases "op_state r") (simp_all add: row_rank_def Let_def)

lemma row_rank_cong: "op_state r' = op_state r \<Longrightarrow> attempts r' = attempts r \<Longrightarrow> row_rank cfg r' = row_rank cfg r"
  by (simp add: row_rank_def)

lemma row_rank_claimed [simp]: "row_rank cfg (claimed now wid d r) = row_rank cfg r"
  by (rule row_rank_cong) (simp_all add: claimed_def)

lemma row_rank_released [simp]: "row_rank cfg (released now r) = row_rank cfg r"
  by (rule row_rank_cong) (simp_all add: released_def)

text \<open>A write forward costs rank, as long as there is an attempt left for a signature.\<close>

lemma row_rank_forward:
  assumes "attempts (fold apply_set sets r) = attempts r" "can_transition (op_state r) dst" "dst \<noteq> op_state r"
    "dst = SIGNED \<Longrightarrow> attempts r < max_build_attempts cfg" "dst = SIGNING \<Longrightarrow> op_state r = VALIDATED"
  shows "row_rank cfg (written now dst sets renew r) < row_rank cfg r"
  using assms by (cases "op_state r") (auto simp: row_rank_def Let_def written_columns can_transition_def)

lemma row_rank_stay:
  assumes "attempts (fold apply_set sets r) = attempts r" "dst = op_state r"
  shows "row_rank cfg (written now dst sets renew r) = row_rank cfg r"
  using assms by (intro row_rank_cong) (simp_all add: written_columns)

lemma row_rank_rebuild:
  assumes "attempts (fold apply_set sets r) = attempts r + 1" "op_state r \<in> {SIGNED, BROADCASTING, BROADCAST}"
  shows "row_rank cfg (written now SIGNING sets renew r) < row_rank cfg r"
proof -
  have "nat (max_build_attempts cfg - (attempts r + 1)) = nat (max_build_attempts cfg - attempts r) - 1" by simp
  then show ?thesis using assms by (auto simp: row_rank_def Let_def written_columns)
qed

section \<open>What a program may do to one row\<close>

definition rank_le :: "config \<Rightarrow> operation \<Rightarrow> operation \<Rightarrow> bool" where
  "rank_le cfg r r' \<longleftrightarrow> row_rank cfg r' \<le> row_rank cfg r \<and> intake_part r' = intake_part r"

definition rows_fall :: "config \<Rightarrow> world \<Rightarrow> world \<Rightarrow> bool" where
  "rows_fall cfg w w' \<longleftrightarrow> (\<forall>i. rel_option (rank_le cfg) (get (w_store w) i) (get (w_store w') i))"

definition row_falls :: "config \<Rightarrow> uuid \<Rightarrow> world \<Rightarrow> world \<Rightarrow> bool" where
  "row_falls cfg i w w' \<longleftrightarrow> rows_fall cfg w w' \<and> (\<forall>j. j \<noteq> i \<longrightarrow> get (w_store w') j = get (w_store w) j)"

lemma rank_le_refl [simp]: "rank_le cfg r r"
  by (simp add: rank_le_def)

lemma rank_le_trans: "rank_le cfg r r' \<Longrightarrow> rank_le cfg r' r'' \<Longrightarrow> rank_le cfg r r''"
  by (simp add: rank_le_def)

lemma rows_fall_same: "get (w_store w') = get (w_store w) \<Longrightarrow> rows_fall cfg w w'"
  by (simp add: rows_fall_def option.rel_refl)

lemma rows_fall_trans:
  assumes "rows_fall cfg w w'" "rows_fall cfg w' w''"
  shows "rows_fall cfg w w''"
  unfolding rows_fall_def
proof
  fix i
  have "rel_option (rank_le cfg OO rank_le cfg) (get (w_store w) i) (get (w_store w'') i)"
    using assms unfolding rows_fall_def option.rel_compp by blast
  moreover have "rank_le cfg OO rank_le cfg \<le> rank_le cfg" by (auto intro: rank_le_trans)
  ultimately show "rel_option (rank_le cfg) (get (w_store w) i) (get (w_store w'') i)"
    using option.rel_mono by blast
qed

lemma row_falls_same: "get (w_store w') = get (w_store w) \<Longrightarrow> row_falls cfg i w w'"
  by (simp add: row_falls_def rows_fall_same)

lemma row_falls_trans: "row_falls cfg i w w' \<Longrightarrow> row_falls cfg i w' w'' \<Longrightarrow> row_falls cfg i w w''"
  by (auto simp: row_falls_def intro: rows_fall_trans)

lemma row_falls_update:
  assumes "get (w_store w) i = Some r" "get (w_store w') = (get (w_store w))(i \<mapsto> r')" "rank_le cfg r r'"
  shows "row_falls cfg i w w'"
  using assms by (auto simp: row_falls_def rows_fall_def option.rel_refl)

lemma row_falls_dom: "rows_fall cfg w w' \<Longrightarrow> dom (get (w_store w')) = dom (get (w_store w))"
  by (auto simp: rows_fall_def dom_def) (metis option.rel_distinct option.exhaust)+

section \<open>Programs that let their row fall\<close>

definition lowers :: "(bytes \<Rightarrow> bytes) \<Rightarrow> config \<Rightarrow> operation \<Rightarrow> 'a prog \<Rightarrow> ('a \<Rightarrow> world \<Rightarrow> bool) \<Rightarrow> bool" where
  "lowers sha cfg op p Q \<longleftrightarrow> (\<forall>w res w'. holds_row w op \<and> run sha p w = (res, w') \<longrightarrow>
     row_falls cfg (operation_id op) w w' \<and> (\<forall>x. res = Inr x \<longrightarrow> Q x w'))"

definition still :: "operation \<Rightarrow> operation \<Rightarrow> world \<Rightarrow> bool" where
  "still op op' w \<longleftrightarrow> holds_row w op' \<and> operation_id op' = operation_id op"

definition quiet :: "(bytes \<Rightarrow> bytes) \<Rightarrow> 'a prog \<Rightarrow> bool" where
  "quiet sha p \<longleftrightarrow> (\<forall>w. w_store (snd (run sha p w)) = w_store w)"

lemma quiet_calls [simp]:
  "quiet sha clock_now" "quiet sha node_ref_block" "quiet sha node_solid_now" "quiet sha node_solid_block"
  "quiet sha (node_broadcast g who)" "quiet sha (node_find_tx t)" "quiet sha (crash_here q)" "quiet sha (lift_exn r)"
  "quiet sha (load_signed op)" "quiet sha (proof_of_death cfg g)"
  by (auto simp: quiet_def crash_here_def load_signed_def proof_of_death_def run_pbind Let_def
      split: prod.splits option.split sum.splits)

lemma lowers_Raise [simp]: "lowers sha cfg op (Raise e) Q"
  by (simp add: lowers_def row_falls_same)

lemma lowers_Return [simp]: "lowers sha cfg op (Return op) (still op)"
  by (simp add: lowers_def row_falls_same still_def)

lemma lowersD:
  "lowers sha cfg op p Q \<Longrightarrow> holds_row w op \<Longrightarrow> run sha p w = (res, w') \<Longrightarrow>
     row_falls cfg (operation_id op) w w' \<and> (\<forall>x. res = Inr x \<longrightarrow> Q x w')"
  by (auto simp: lowers_def)

lemma lowers_quiet_catch:
  assumes "quiet sha p" "\<And>e. lowers sha cfg op (h e) Q" "\<And>x. lowers sha cfg op (f x) Q"
  shows "lowers sha cfg op (catch p h f) Q"
  unfolding lowers_def
proof (intro allI impI)
  fix w res w' assume a: "holds_row w op \<and> run sha (catch p h f) w = (res, w')"
  obtain r w1 where r: "run sha p w = (r, w1)" by fastforce
  have st: "w_store w1 = w_store w" using assms(1) r by (metis quiet_def snd_conv)
  then have h: "holds_row w1 op" using a by (simp add: holds_row_def)
  have "run sha (case r of Inl e \<Rightarrow> h e | Inr x \<Rightarrow> f x) w1 = (res, w')"
    using a r by (cases r) (simp_all add: run_catch)
  moreover have "lowers sha cfg op (case r of Inl e \<Rightarrow> h e | Inr x \<Rightarrow> f x) Q"
    using assms(2,3) by (cases r) simp_all
  ultimately show "row_falls cfg (operation_id op) w w' \<and> (\<forall>x. res = Inr x \<longrightarrow> Q x w')"
    using lowersD [OF _ h] st by (simp add: row_falls_def rows_fall_def)
qed

lemma lowers_quiet: "quiet sha p \<Longrightarrow> (\<And>x. lowers sha cfg op (f x) Q) \<Longrightarrow> lowers sha cfg op (pbind p f) Q"
  unfolding catch_Raise [symmetric] by (rule lowers_quiet_catch) simp_all

text \<open>A program that ends with a row of the same operation, followed by one that takes it from there; after
  an exception nothing but the answer is left to choose.\<close>

lemma lowers_catch:
  assumes "lowers sha cfg op p (\<lambda>op' w. still op op' w \<and> S op')"
    "\<And>e. (\<exists>e'. h e = Raise e') \<or> (\<exists>x. h e = Return x \<and> (\<forall>w. Q x w))"
    "\<And>op'. operation_id op' = operation_id op \<Longrightarrow> S op' \<Longrightarrow> lowers sha cfg op' (f op') Q"
  shows "lowers sha cfg op (catch p h f) Q"
  unfolding lowers_def
proof (intro allI impI)
  fix w res w' assume a: "holds_row w op \<and> run sha (catch p h f) w = (res, w')"
  obtain r w1 where r: "run sha p w = (r, w1)" by fastforce
  have 1: "row_falls cfg (operation_id op) w w1" "\<And>x. r = Inr x \<Longrightarrow> still op x w1 \<and> S x"
    using lowersD [OF assms(1)] a r by blast+
  show "row_falls cfg (operation_id op) w w' \<and> (\<forall>x. res = Inr x \<longrightarrow> Q x w')"
  proof (cases r)
    case (Inl e)
    then have "run sha (h e) w1 = (res, w')" using a r by (simp add: run_catch)
    then show ?thesis using assms(2) [of e] 1(1) by auto
  next
    case (Inr x)
    then have x: "holds_row w1 x" "operation_id x = operation_id op" "S x"
      using 1(2) by (simp_all add: still_def)
    have "run sha (f x) w1 = (res, w')" using a r Inr by (simp add: run_catch)
    from lowersD [OF assms(3) [OF x(2,3)] x(1) this] show ?thesis
      using row_falls_trans [OF 1(1)] x(2) by simp
  qed
qed

lemma lowers_bind:
  assumes "lowers sha cfg op p (\<lambda>op' w. still op op' w \<and> S op')"
    "\<And>op'. operation_id op' = operation_id op \<Longrightarrow> S op' \<Longrightarrow> lowers sha cfg op' (f op') Q"
  shows "lowers sha cfg op (pbind p f) Q"
  unfolding catch_Raise [symmetric] by (rule lowers_catch [OF assms(1)]) (use assms(2) in auto)

text \<open>The write of a handler, when the row it would leave is no higher.\<close>

lemma lowers_p_cas:
  assumes "\<And>now. can_transition (op_state op) dst \<Longrightarrow>
     row_rank cfg (written now dst sets (Some (lease_seconds cfg)) op) \<le> row_rank cfg op"
  shows "lowers sha cfg op (p_cas cfg op dst wid sets det)
    (\<lambda>op' w. still op op' w \<and> (\<exists>now. op' = written now dst sets (Some (lease_seconds cfg)) op))"
  unfolding lowers_def
proof (intro allI impI)
  fix w res w' assume a: "holds_row w op \<and> run sha (p_cas cfg op dst wid sets det) w = (res, w')"
  obtain r ms where c: "cas (w_clock w) (w_clock w) (w_store w) (operation_id op) (fencing_token op)
      (op_state op) dst sets det (Some (lease_seconds cfg)) (Some wid) = (r, ms)" by fastforce
  have w': "w' = w\<lparr>w_store := ms\<rparr>" and res: "\<And>x. res = Inr x \<Longrightarrow> r = Inr (Some x)"
    using a c by (auto simp: p_cas_def store_cas_def run_pbind split: sum.splits option.splits)
  from c show "row_falls cfg (operation_id op) w w' \<and> (\<forall>op'. res = Inr op' \<longrightarrow> still op op' w' \<and>
      (\<exists>now. op' = written now dst sets (Some (lease_seconds cfg)) op))"
  proof (cases rule: cas_cases)
    case refused
    then show ?thesis using w' res by (auto simp: row_falls_same)
  next
    case (wrote q)
    have q: "q = op" using a wrote(1) by (simp add: holds_row_def)
    let ?op = "written (w_clock w) dst sets (Some (lease_seconds cfg)) op"
    have le: "rank_le cfg op ?op"
      using assms [OF wrote(5)] written_keeps(1) [OF wrote(6)] by (simp add: rank_le_def)
    have g: "get (w_store w') = (get (w_store w))(operation_id op \<mapsto> ?op)" using w' wrote(8) q by simp
    have id: "operation_id ?op = operation_id op" using written_keeps(1) [OF wrote(6)] by (simp add: intake_part_def)
    show ?thesis
      using row_falls_update [OF _ g le] a res wrote(7) q id g
      by (auto simp: still_def holds_row_def)
  qed
qed

lemma lowers_weaken: "lowers sha cfg op p Q \<Longrightarrow> (\<And>x w. Q x w \<Longrightarrow> R x w) \<Longrightarrow> lowers sha cfg op p R"
  by (auto simp: lowers_def)

lemma lowers_write:
  assumes "\<And>now. can_transition (op_state op) dst \<Longrightarrow>
     row_rank cfg (written now dst sets (Some (lease_seconds cfg)) op) \<le> row_rank cfg op"
  shows "lowers sha cfg op (p_cas cfg op dst wid sets det) (still op)"
  by (rule lowers_weaken [OF lowers_p_cas [OF assms]]) simp_all

text \<open>A row of the same operation will do.\<close>

lemma still_trans: "lowers sha cfg op' p (still op') \<Longrightarrow> operation_id op' = operation_id op \<Longrightarrow> lowers sha cfg op' p (still op)"
  by (auto simp: still_def intro: lowers_weaken)

lemma lowers_write_bind:
  assumes "\<And>now. can_transition (op_state op) dst \<Longrightarrow>
     row_rank cfg (written now dst sets (Some (lease_seconds cfg)) op) \<le> row_rank cfg op"
    "\<And>op'. op_state op' = dst \<Longrightarrow> attempts op' = attempts (fold apply_set sets op) \<Longrightarrow> lowers sha cfg op' (f op') (still op')"
  shows "lowers sha cfg op (pbind (p_cas cfg op dst wid sets det) f) (still op)"
  by (rule lowers_bind [OF lowers_weaken [OF lowers_p_cas [OF assms(1)]], where
        S = "\<lambda>op'. op_state op' = dst \<and> attempts op' = attempts (fold apply_set sets op)"])
    (use assms(2) still_trans in \<open>auto simp: written_columns\<close>)

section \<open>The handlers\<close>

lemma lowers_advance:
  assumes "attempts (fold apply_set sets op) = attempts op" "dst \<noteq> SIGNING" "dst \<noteq> SIGNED"
  shows "lowers sha cfg op (p_cas cfg op dst wid sets det) (still op)"
proof (rule lowers_write)
  fix now assume t: "can_transition (op_state op) dst"
  show "row_rank cfg (written now dst sets (Some (lease_seconds cfg)) op) \<le> row_rank cfg op"
    using row_rank_forward [OF assms(1) t] row_rank_stay [OF assms(1)] assms(2,3)
    by (cases "dst = op_state op") (auto intro: less_imp_le)
qed

lemma lowers_rebuild:
  assumes "op_state op \<in> {SIGNED, BROADCASTING, BROADCAST}"
  shows "lowers sha cfg op (rebuild cfg op wid why ev) (still op)"
  unfolding rebuild_def
  by (rule lowers_write) (use row_rank_rebuild [OF _ assms] in \<open>simp add: less_imp_le\<close>)

lemma lowers_persist:
  assumes "op_state op = SIGNING" "attempts op < max_build_attempts cfg"
  shows "lowers sha cfg op (persist_and_sign sha cfg sg op wid u) (still op)"
  unfolding persist_and_sign_def
proof (rule lowers_write_bind)
  fix op1 :: operation assume op1: "op_state op1 = SIGNING" "attempts op1 = attempts (fold apply_set
    [Set_unsigned_tx (Some (ut_raw_data u)), Set_txid (Some (ut_txid u)),
     Set_tx_expiration (Some (ut_expiration u)), Set_signed_tx None] op)"
  have "lowers sha cfg op1 (p_cas cfg op1 SIGNED wid [Set_signed_tx (Some (to_json (sign sha sg u)))] []) (still op1)"
    by (rule lowers_write) (rule less_imp_le, rule row_rank_forward, use op1 assms in simp_all)
  then show "lowers sha cfg op1 (pbind (crash_here SIGN_MID) (\<lambda>_.
      p_cas cfg op1 SIGNED wid [Set_signed_tx (Some (to_json (sign sha sg u)))] [])) (still op1)"
    by (intro lowers_quiet) simp_all
qed (use assms in \<open>simp add: row_rank_stay\<close>)

lemma lowers_build_fresh:
  assumes "op_state op = SIGNING"
  shows "lowers sha cfg op (build_fresh sha cfg sg op wid) (still op)"
  unfolding build_fresh_def
  by (auto intro!: lowers_quiet lowers_persist lowers_advance assms simp: not_le)

lemma lowers_build_and_sign:
  assumes "op_state op \<in> {VALIDATED, SIGNING}"
  shows "lowers sha cfg op (build_and_sign sha cfg sg op wid) (still op)"
proof (cases "op_state op = VALIDATED")
  case True
  then show ?thesis
    unfolding build_and_sign_def
    by (simp, intro lowers_write_bind lowers_build_fresh less_imp_le row_rank_forward) simp_all
next
  case False
  then show ?thesis using assms lowers_build_fresh by (simp add: build_and_sign_def)
qed

lemma lowers_on_timeout [simp]: "lowers sha cfg op (on_timeout op e) (still op)"
  by (simp add: on_timeout_def split: exn.split)

lemma lowers_settle [simp]: "lowers sha cfg op (settle_broadcast_result cfg op wid g r) (still op)"
  unfolding settle_broadcast_result_def Let_def
  by (auto intro!: lowers_quiet lowers_advance)

lemma lowers_found [simp]:
  "lowers sha cfg op (mark_found cfg op wid g st) (still op)"
  "lowers sha cfg op (resend cfg op wid g) (still op)"
  "lowers sha cfg op (settle_inclusion cfg op wid g st) (still op)"
  "lowers sha cfg op (first_send cfg op wid g) (still op)"
  by (auto simp: mark_found_def resend_def settle_inclusion_def first_send_def split: option.split
      intro!: lowers_quiet lowers_quiet_catch lowers_advance)

lemma lowers_p_broadcast:
  assumes "op_state op = SIGNED"
  shows "lowers sha cfg op (p_broadcast cfg op wid) (still op)"
proof -
  have "lowers sha cfg op (pbind (p_cas cfg op BROADCASTING wid [] det) (\<lambda>op. first_send cfg op wid g)) (still op)" for det g
    by (intro lowers_write_bind less_imp_le row_rank_forward) (use assms in simp_all)
  then show ?thesis
    unfolding p_broadcast_def using assms by (auto intro!: lowers_quiet lowers_rebuild)
qed

lemma lowers_step: "lowers sha cfg op (pipeline_step sha cfg sg op wid) (still op)"
proof -
  have "lowers sha cfg op (reconcile_broadcast cfg op wid) (still op)" if "op_state op = BROADCASTING"
    unfolding reconcile_broadcast_def
    by (auto intro!: lowers_quiet lowers_quiet_catch lowers_rebuild simp: that)
  moreover have "lowers sha cfg op (await_confirmation cfg op wid) (still op)" if "op_state op = BROADCAST"
    unfolding await_confirmation_def
    by (auto intro!: lowers_quiet lowers_quiet_catch lowers_rebuild simp: that)
  moreover have "lowers sha cfg op (p_validate sha cfg op wid) (still op)"
    by (simp add: p_validate_def lowers_advance)
  ultimately show ?thesis
    using lowers_build_and_sign lowers_p_broadcast
    by (cases "op_state op") (simp_all add: pipeline_step_def)
qed

section \<open>A claim, driven to its end\<close>

definition exit_of :: "uuid \<Rightarrow> drive_exit \<Rightarrow> bool" where
  "exit_of i x = (case x of Left_Loop op a \<Rightarrow> operation_id op = i | Handler_Error op a \<Rightarrow> operation_id op = i
     | _ \<Rightarrow> True)"

lemma lowers_next:
  assumes "operation_id op' = operation_id op"
    "\<And>op adv. lowers sha cfg op (drive_loop sha cfg sg wid n op adv) (\<lambda>x w. exit_of (operation_id op) x)"
  shows "lowers sha cfg op' (let advanced' = if op_state op' \<noteq> op_state op then 1 else adv
      in if op_state op' \<in> set TERMINAL then Return Finished
         else if op_state op' = op_state op then Return (Left_Loop op' advanced')
         else drive_loop sha cfg sg wid n op' advanced') (\<lambda>x w. exit_of (operation_id op) x)"
  using assms(2) [of op'] assms(1) by (auto simp: Let_def lowers_def exit_of_def row_falls_same)

lemma lowers_drive_loop:
  "lowers sha cfg op (drive_loop sha cfg sg wid n op adv) (\<lambda>x w. exit_of (operation_id op) x)"
proof (induction n arbitrary: op adv)
  case (Suc n)
  show ?case
    unfolding drive_loop.simps
  proof (rule lowers_catch [where S = "\<lambda>_. True"], goal_cases step error rest)
    case step
    show ?case using lowers_step by simp
  next
    case (error e)
    show ?case by (auto simp: exit_of_def split: exn.split)
  next
    case (rest op')
    show ?case by (rule lowers_next [OF rest(1) Suc.IH])
  qed
qed (simp add: lowers_def exit_of_def row_falls_same)

lemma row_falls_release: "row_falls cfg i w (w\<lparr>w_store := release (w_clock w) (w_store w) i tok\<rparr>)"
proof (cases rule: release_cases [of "w_clock w" "w_store w" i tok])
  case 1
  then show ?thesis by (simp add: row_falls_same)
next
  case (2 r)
  have "rank_le cfg r (released (w_clock w) r)" by (simp add: rank_le_def) (simp add: released_def intake_part_def)
  then show ?thesis using 2 by (intro row_falls_update [OF 2(1)]) simp_all
qed

lemma row_falls_error_note:
  assumes "run sha (store_cas i tok src src [Set_last_error e] [] None who) w = (res, w')"
  shows "row_falls cfg i w w'"
proof -
  obtain r ms where c: "cas (w_clock w) (w_clock w) (w_store w) i tok src src [Set_last_error e] [] None who = (r, ms)"
    by fastforce
  have w': "w' = w\<lparr>w_store := ms\<rparr>" using assms c by (simp add: store_cas_def)
  from c show ?thesis
  proof (cases rule: cas_cases)
    case (wrote q)
    have "rank_le cfg q (written (w_clock w) src [Set_last_error e] None q)"
      using written_keeps(1) [OF wrote(6)] row_rank_stay [of "[Set_last_error e]" q src] wrote(3)
      by (simp add: rank_le_def)
    then show ?thesis using w' wrote by (intro row_falls_update) simp_all
  qed (simp add: w' row_falls_same)
qed

lemma row_falls_settle:
  assumes "exit_of i x" "run sha (settle_exit wid x) w = (res, w')"
  shows "row_falls cfg i w w'"
proof (cases x)
  case (Left_Loop op a)
  then show ?thesis
    using assms row_falls_release [of cfg i w] by (auto simp: exit_of_def settle_exit_def run_pbind)
next
  case (Handler_Error op a)
  let ?note = "store_cas i (fencing_token op) (op_state op) (op_state op)
      [Set_last_error (Some ''handler exception (see logs)'')] [] None (Some wid)"
  obtain r w1 where n: "run sha ?note w = (r, w1)" by fastforce
  have "w' = w1 \<or> w' = w1\<lparr>w_store := release (w_clock w1) (w_store w1) i (fencing_token op)\<rparr>"
    using assms n by (auto simp: Handler_Error exit_of_def settle_exit_def run_pbind split: sum.splits)
  then show ?thesis
    using row_falls_error_note [OF n] row_falls_release row_falls_trans by metis
qed (use assms in \<open>simp_all add: row_falls_same settle_exit_def\<close>)

lemma lowers_settle_exit:
  assumes "lowers sha cfg op p (\<lambda>x w. exit_of (operation_id op) x)" "holds_row w op"
    "run sha (pbind p (settle_exit wid)) w = (res, w')"
  shows "row_falls cfg (operation_id op) w w'"
proof -
  obtain r w1 where r: "run sha p w = (r, w1)" by fastforce
  note 1 = lowersD [OF assms(1,2) r]
  show ?thesis
  proof (cases r)
    case (Inl e)
    then show ?thesis using assms(3) r 1 by (simp add: run_pbind)
  next
    case (Inr x)
    then have "run sha (settle_exit wid x) w1 = (res, w')" using assms(3) r by (simp add: run_pbind)
    then show ?thesis using row_falls_settle row_falls_trans 1 Inr by blast
  qed
qed

lemma lowers_drive:
  "holds_row w op \<Longrightarrow> run sha (drive sha cfg sg wid op) w = (res, w') \<Longrightarrow> row_falls cfg (operation_id op) w w'"
  unfolding drive_eq by (rule lowers_settle_exit [OF lowers_drive_loop])

lemma others_hold:
  assumes "row_falls cfg (operation_id op) w w'" "distinct (map operation_id (op # ops))" "\<forall>x \<in> set ops. holds_row w x"
  shows "\<forall>x \<in> set ops. holds_row w' x"
proof
  fix x assume x: "x \<in> set ops"
  then have "operation_id x \<in> operation_id ` set ops" by (rule imageI)
  then have "operation_id x \<noteq> operation_id op" using assms(2) by auto
  then show "holds_row w' x" using assms(1,3) x by (simp add: row_falls_def holds_row_def)
qed

lemma lowers_drive_all:
  assumes "\<forall>op \<in> set ops. holds_row w op" "distinct (map operation_id ops)"
    "run sha (drive_all sha cfg sg wid ops acc) w = (res, w')"
  shows "rows_fall cfg w w'"
  using assms
proof (induction ops arbitrary: w acc)
  case (Cons op ops)
  obtain r w1 where r: "run sha (drive sha cfg sg wid op) w = (r, w1)" by fastforce
  have 1: "row_falls cfg (operation_id op) w w1" using lowers_drive [OF _ r] Cons.prems(1) by simp
  show ?case
  proof (cases r)
    case (Inl e)
    then show ?thesis using Cons.prems(3) r 1 by (simp add: run_pbind row_falls_def)
  next
    case (Inr n)
    have "\<forall>op \<in> set ops. holds_row w1 op"
      by (rule others_hold [OF 1]) (use Cons.prems(1,2) in simp_all)
    then have "rows_fall cfg w1 w'"
      using Cons.IH [of w1 "acc + n"] Cons.prems(2,3) r Inr by (simp add: run_pbind)
    then show ?thesis using 1 rows_fall_trans by (auto simp: row_falls_def)
  qed
qed (simp add: rows_fall_same)

end
