(* ===== verification/Overdue.thy ===== *)
theory Overdue
  imports Lone_Runs
begin

text \<open>
  One pass of a worker over a world in which the leases have run out, the envelopes have expired and the
  chain has solidified past them: the row that is claimed first loses rank and no other row gains any,
  because in such a world every handler moves its row on.
\<close>

section \<open>A world fit for recovery\<close>

definition recoverable :: "world \<Rightarrow> bool" where
  "recoverable w \<longleftrightarrow> orderly w \<and> healthy (w_node w) \<and> calm (w_crash w) \<and>
     (\<forall>i r. get (w_store w) i = Some r \<longrightarrow> (\<exists>u. py_str (amount_units r) = Inr u))"

lemma healthy_broadcast_step: "healthy nd \<Longrightarrow> broadcast sha clk nd g who = (r, nd') \<Longrightarrow> healthy nd'"
  by (auto simp: broadcast_def take_fault_def healthy_def log_it_def Let_def split: if_splits sum.splits)

lemma healthy_find_step: "healthy nd \<Longrightarrow> find_tx clk nd t = (r, nd') \<Longrightarrow> healthy nd'"
  by (auto simp: find_tx_def take_fault_def healthy_def Let_def split: if_splits option.splits)

lemma here_disarms: "here c q = (b, c') \<Longrightarrow> armed_count c' p \<le> armed_count c p"
  using here_count [of c q p] by (simp split: if_splits)

lemma calm_here: "calm c \<Longrightarrow> here c q = (b, c') \<Longrightarrow> calm c'"
  unfolding calm_def using here_disarms by (meson order_trans)

lemma healthy_calm_step1:
  assumes "healthy (w_node w)" "calm (w_crash w)" "step1 sha p w = Some (p', w')"
  shows "healthy (w_node w') \<and> calm (w_crash w')"
  using assms by (cases p)
    (auto simp: step1_def Let_def split: prod.splits intro: healthy_broadcast_step calm_here healthy_find_step)

lemma healthy_calm_run:
  assumes "run sha p w = (res, w')" "healthy (w_node w)" "calm (w_crash w)"
  shows "healthy (w_node w') \<and> calm (w_crash w')"
  using run_invariant [OF assms(1), of "\<lambda>p w. healthy (w_node w) \<and> calm (w_crash w)"] assms(2,3)
    healthy_calm_step1 by blast

lemma recoverable_run:
  assumes "recoverable w" "run sha p w = (res, w')" "signs p" "rows_fall cfg w w'"
  shows "recoverable w'"
proof -
  have "\<exists>u. py_str (amount_units r') = Inr u" if "get (w_store w') i = Some r'" for i r'
  proof -
    have "rel_option (rank_le cfg) (get (w_store w) i) (Some r')"
      using assms(4) that unfolding rows_fall_def by metis
    then obtain r where r: "get (w_store w) i = Some r" "rank_le cfg r r'" by (auto simp: option_rel_Some2)
    then have "amount_units r' = amount_units r" by (simp add: rank_le_def intake_part_def)
    then show ?thesis using assms(1) r(1) unfolding recoverable_def by simp
  qed
  then show ?thesis
    using assms orderly_run [OF assms(2,3)] healthy_calm_run [OF assms(2)] by (simp add: recoverable_def)
qed

section \<open>When every envelope has expired\<close>

text \<open>The clock is past every envelope, the solid time is past it by the margin, and what the node holds
  is in a solid block or will never be.\<close>

definition txs_settled :: "time \<Rightarrow> node \<Rightarrow> bool" where
  "txs_settled clk nd \<longleftrightarrow> (\<forall>k q. dict_get (nd_txs nd) k = Some q \<longrightarrow> (case rec_included_block q of
     None \<Rightarrow> st_expiration (rec_tx q) \<le> clk | Some b \<Rightarrow> b \<le> solid_block nd))"

definition overdue :: "config \<Rightarrow> world \<Rightarrow> bool" where
  "overdue cfg w \<longleftrightarrow> txs_settled (w_clock w) (w_node w) \<and>
     (\<forall>i r g. get (w_store w) i = Some r \<and> signed_tx r = Some (to_json g) \<longrightarrow> st_expiration g \<le> w_clock w \<and>
        (\<exists>t. solid_now (w_node w) = Inr t \<and> st_expiration g + expiration_safety_seconds cfg \<le> t))"

text \<open>A lookup then says that the transaction is in a solid block, or that it is unknown.\<close>

lemma overdue_lookup:
  assumes "overdue cfg w" "healthy (w_node w)"
  obtains (landed) b rcp where "run sha (node_find_tx t) w =
      (Inr \<lparr> ts_result = INCLUDED, ts_block = Some b, ts_solid = True, ts_receipt = rcp \<rparr>, w)"
  | (unknown) "run sha (node_find_tx t) w =
      (Inr \<lparr> ts_result = UNKNOWN, ts_block = None, ts_solid = False, ts_receipt = None \<rparr>, w)"
proof (cases "dict_get (nd_txs (w_node w)) t")
  case None
  then show thesis
    using unknown assms(2) by (simp add: find_tx_def take_fault_def healthy_def Let_def)
next
  case (Some q)
  then have q: "case rec_included_block q of None \<Rightarrow> st_expiration (rec_tx q) \<le> w_clock w
      | Some b \<Rightarrow> b \<le> solid_block (w_node w)"
    using assms(1) by (simp add: overdue_def txs_settled_def)
  show thesis
  proof (cases "rec_included_block q")
    case None
    then show thesis
      using Some q unknown assms(2) by (simp add: find_tx_def take_fault_def healthy_def Let_def)
  next
    case (Some b)
    then show thesis
      using landed included_find_tx [OF assms(2) \<open>dict_get (nd_txs (w_node w)) t = Some q\<close> Some, of "w_clock w"] q
      by simp
  qed
qed

definition steps_down :: "(bytes \<Rightarrow> bytes) \<Rightarrow> config \<Rightarrow> operation \<Rightarrow> operation prog \<Rightarrow> world \<Rightarrow> bool" where
  "steps_down sha cfg op p w \<longleftrightarrow>
     (case fst (run sha p w) of Inl e \<Rightarrow> False | Inr op' \<Rightarrow> row_rank cfg op' < row_rank cfg op)"

text \<open>The write of a handler that owns the row goes through; what it does to the rank is the caller's
  to say.\<close>

lemma run_write_lowers:
  assumes "holds_row w op" "can_transition (op_state op) dst" "op_state op \<notin> set TERMINAL" "mutable_sets sets"
    "\<And>now renew. row_rank cfg (written now dst sets renew op) < row_rank cfg op"
  shows "steps_down sha cfg op (p_cas cfg op dst wid sets det) w"
  by (rule run_p_cas [OF assms(1-4), of sha cfg wid det]) (use assms(5) in \<open>simp add: steps_down_def\<close>)

lemma run_advance_lowers:
  assumes "holds_row w op" "dst \<in> set (TRANSITIONS (op_state op))" "dst \<noteq> SIGNING" "dst \<noteq> SIGNED" "mutable_sets sets"
    "attempts (fold apply_set sets op) = attempts op"
  shows "steps_down sha cfg op (p_cas cfg op dst wid sets det) w"
proof (rule run_write_lowers [OF assms(1)])
  show t: "can_transition (op_state op) dst" using assms(2) by (simp add: can_transition_def)
  show "op_state op \<notin> set TERMINAL" using assms(2) by (auto simp: TERMINAL_def)
  have "dst \<noteq> op_state op" using assms(2) by (cases "op_state op") auto
  then show "row_rank cfg (written now dst sets renew op) < row_rank cfg op" for now renew
    using row_rank_forward [OF assms(6) t] assms(3,4) by blast
qed (rule assms(5))

lemma run_rebuild_lowers:
  assumes "holds_row w op" "op_state op \<in> {SIGNED, BROADCASTING, BROADCAST}"
  shows "steps_down sha cfg op (rebuild cfg op wid why ev) w"
  unfolding rebuild_def
  by (rule run_write_lowers [OF assms(1)])
    (use assms(2) row_rank_rebuild [OF _ assms(2)] in \<open>auto simp: handler_sets\<close>)

lemma steps_down_quiet:
  "run sha p w = (Inr x, w) \<Longrightarrow> steps_down sha cfg op (f x) w \<Longrightarrow> steps_down sha cfg op (pbind p f) w"
  by (simp add: steps_down_def run_pbind)

text \<open>One step of the pipeline on a row that is not finished.\<close>

lemma validate_lowers:
  assumes "holds_row w op" "op_state op = REQUESTED"
  shows "steps_down sha cfg op (p_validate sha cfg op wid) w"
  unfolding p_validate_def using assms by (auto intro!: run_advance_lowers simp: handler_sets)

lemma build_fresh_lowers:
  assumes op: "holds_row w op" "op_state op = SIGNING" and w: "node_wf (w_node w)" "calm (w_crash w)"
    and units: "py_str (amount_units op) = Inr units"
  shows "steps_down sha cfg op (build_fresh sha cfg sg op wid) w"
proof (cases "attempts op < max_build_attempts cfg")
  case True
  have ref: "\<exists>ref. ref_block (w_node w) = Inr ref"
    using w(1) by (auto simp: ref_block_def node_wf_def chain_wf_def Let_def)
  have c: "armed_count (w_crash w) SIGN_MID \<le> 0" using w(2) by (simp add: calm_def)
  obtain ref where r: "ref_block (w_node w) = Inr ref" using ref by blast
  obtain op' w' where b: "run sha (build_fresh sha cfg sg op wid) w = (Inr op', w')" "op_state op' = SIGNED"
      "attempts op' = attempts op"
    using run_build_fresh [OF op True r units c refl, of sha sg wid] by metis
  then show ?thesis using True op(2) by (auto simp: steps_down_def row_rank_def Let_def)
next
  case False
  then show ?thesis
    unfolding build_fresh_def using op by (auto intro!: run_advance_lowers simp: handler_sets)
qed

lemma build_lowers:
  assumes op: "holds_row w op" "op_state op \<in> {VALIDATED, SIGNING}"
    and w: "node_wf (w_node w)" "calm (w_crash w)" and units: "py_str (amount_units op) = Inr units"
  shows "steps_down sha cfg op (build_and_sign sha cfg sg op wid) w"
proof (cases "op_state op = VALIDATED")
  case True
  let ?op = "written (w_clock w) SIGNING [] (Some (lease_seconds cfg)) op"
  obtain w1 where r: "run sha (p_cas cfg op SIGNING wid [] []) w = (Inr ?op, w1)" "wrote_row w w1 ?op" "same_claim op ?op"
    using run_p_cas [OF op(1), of SIGNING "[]" sha cfg wid "[]"] True by (auto simp: handler_sets)
  have w1: "node_wf (w_node w1)" "calm (w_crash w1)" "py_str (amount_units ?op) = Inr units"
    using r(2,3) w units by (simp_all add: wrote_row_def same_claim_def intake_part_def)
  have lt: "row_rank cfg ?op < row_rank cfg op" using True by (intro row_rank_forward) (simp_all add: can_transition_def)
  have "steps_down sha cfg ?op (build_fresh sha cfg sg ?op wid) w1"
    by (rule build_fresh_lowers [OF wrote_row_holds [OF r(2)] _ w1]) (rule written_columns)
  then show ?thesis
    using True r(1) lt by (auto simp: steps_down_def build_and_sign_def run_pbind split: sum.splits)
next
  case False
  then show ?thesis using op build_fresh_lowers [OF op(1) _ w units] by (simp add: build_and_sign_def)
qed

text \<open>A sent envelope: found, or dead.\<close>

lemma overdue_dead:
  assumes "overdue cfg w" "holds_row w op" "signed_tx op = Some (to_json g)"
  shows "\<exists>ev. run sha (proof_of_death cfg g) w = (Inr (True, ev), w)" "st_expiration g \<le> w_clock w"
proof -
  have o: "st_expiration g \<le> w_clock w \<and> (\<exists>t. solid_now (w_node w) = Inr t \<and>
      st_expiration g + expiration_safety_seconds cfg \<le> t)"
    using assms unfolding overdue_def holds_row_def by blast
  then show "st_expiration g \<le> w_clock w" ..
  from o obtain t where "solid_now (w_node w) = Inr t" "st_expiration g + expiration_safety_seconds cfg \<le> t" by blast
  then show "\<exists>ev. run sha (proof_of_death cfg g) w = (Inr (True, ev), w)"
    by (simp add: proof_of_death_def run_pbind Let_def)
qed

lemma reconcile_lowers:
  assumes op: "holds_row w op" "op_state op = BROADCASTING" "signed_tx op = Some (to_json g)"
    and w: "overdue cfg w" "healthy (w_node w)"
  shows "steps_down sha cfg op (reconcile_broadcast cfg op wid) w"
  using w
proof (cases rule: overdue_lookup [where t = "st_txid g" and sha = sha])
  case (landed b rcp)
  have "steps_down sha cfg op (p_cas cfg op BROADCAST wid [Set_broadcast_at (Some at)] det) w" for at det
    using op by (intro run_advance_lowers) (auto simp: handler_sets)
  then show ?thesis
    using op landed unfolding steps_down_def
    by (simp add: reconcile_broadcast_def load_signed_def mark_found_def run_pbind run_catch split: option.split)
next
  case unknown
  obtain ev where "run sha (proof_of_death cfg g) w = (Inr (True, ev), w)"
    using overdue_dead(1) [OF w(1) op(1,3)] by blast
  then show ?thesis
    using op unknown run_rebuild_lowers [OF op(1)]
    by (simp add: steps_down_def reconcile_broadcast_def load_signed_def run_pbind run_catch)
qed

lemma await_lowers:
  assumes op: "holds_row w op" "op_state op = BROADCAST" "signed_tx op = Some (to_json g)"
    and w: "overdue cfg w" "healthy (w_node w)" "calm (w_crash w)"
  shows "steps_down sha cfg op (await_confirmation cfg op wid) w"
  using w(1,2)
proof (cases rule: overdue_lookup [where t = "st_txid g" and sha = sha])
  case (landed b rcp)
  have c: "armed_count (w_crash w) CONFIRM_PRE_WRITE \<le> 0" using w(3) by (simp add: calm_def)
  have "steps_down sha cfg op (settle_inclusion cfg op wid g st) w" for st
    unfolding settle_inclusion_def using op c
    by (auto simp: handler_sets intro!: steps_down_quiet run_advance_lowers)
  then show ?thesis
    using op landed by (simp add: steps_down_def await_confirmation_def load_signed_def run_pbind run_catch)
next
  case unknown
  obtain ev where "run sha (proof_of_death cfg g) w = (Inr (True, ev), w)"
    using overdue_dead(1) [OF w(1) op(1,3)] by blast
  then show ?thesis
    using op unknown run_rebuild_lowers [OF op(1)]
    by (simp add: steps_down_def await_confirmation_def load_signed_def run_pbind run_catch)
qed

lemma step_lowers:
  assumes op: "holds_row w op" "op_state op \<notin> set TERMINAL" and w: "recoverable w" "overdue cfg w"
  shows "steps_down sha cfg op (pipeline_step sha cfg sg op wid) w"
proof -
  have h: "node_wf (w_node w)" "healthy (w_node w)" "calm (w_crash w)" "row_signed op"
    using w(1) op(1) by (auto simp: recoverable_def orderly_def rows_signed_def holds_row_def)
  obtain units where units: "py_str (amount_units op) = Inr units"
    using w(1) op(1) by (auto simp: recoverable_def holds_row_def)
  show ?thesis
  proof (cases "op_state op \<in> {SIGNED, BROADCASTING, BROADCAST}")
    case True
    then obtain g where g: "signed_tx op = Some (to_json g)" using row_signed_loads [OF h(4)] by blast
    have "steps_down sha cfg op (p_broadcast cfg op wid) w"
      if "op_state op = SIGNED"
      using that g overdue_dead(2) [OF w(2) op(1) g] run_rebuild_lowers [OF op(1)]
      by (simp add: steps_down_def p_broadcast_def load_signed_def run_pbind)
    then show ?thesis
      using True reconcile_lowers [OF op(1) _ g w(2) h(2)] await_lowers [OF op(1) _ g w(2) h(2,3)]
      by (auto simp: pipeline_step_def)
  next
    case False
    then show ?thesis
      using op validate_lowers [OF op(1)] build_lowers [OF op(1) _ h(1,3) units]
      by (cases "op_state op") (simp_all add: pipeline_step_def)
  qed
qed

section \<open>A pass over an overdue world\<close>

text \<open>The first row of the claim loses rank: its first step does, and the rest of the pass does not give
  it back.\<close>

lemma drive_lowers:
  assumes op: "holds_row w op" "op_state op \<notin> set TERMINAL" and w: "recoverable w" "overdue cfg w"
    and r: "run sha (drive sha cfg sg wid op) w = (res, w')"
  shows "\<exists>r. get (w_store w') (operation_id op) = Some r \<and> row_rank cfg r < row_rank cfg op"
proof -
  obtain op1 w1 where s: "run sha (pipeline_step sha cfg sg op wid) w = (Inr op1, w1)" "row_rank cfg op1 < row_rank cfg op"
    using step_lowers [OF op w, of sha sg wid]
    by (cases "run sha (pipeline_step sha cfg sg op wid) w") (auto simp: steps_down_def split: sum.splits)
  have h1: "holds_row w1 op1" "operation_id op1 = operation_id op"
    using lowersD [OF lowers_step op(1) s(1)] by (simp_all add: still_def)
  let ?next = "let advanced' = if op_state op1 \<noteq> op_state op then 1 else 0
      in if op_state op1 \<in> set TERMINAL then Return Finished
         else if op_state op1 = op_state op then Return (Left_Loop op1 advanced')
         else drive_loop sha cfg sg wid 7 op1 advanced'"
  have eight: "(8 :: nat) = Suc 7" by simp
  have "run sha (drive_loop sha cfg sg wid 8 op 0) w = run sha ?next w1"
    unfolding eight drive_loop.simps run_catch s(1) by simp
  then have r1: "run sha (pbind ?next (settle_exit wid)) w1 = (res, w')"
    using r by (simp only: drive_eq run_pbind)
  have "row_falls cfg (operation_id op1) w1 w'"
    by (rule lowers_settle_exit [OF _ h1(1) r1]) (use lowers_next [OF h1(2) lowers_drive_loop] h1(2) in simp)
  then have "rel_option (rank_le cfg) (Some op1) (get (w_store w') (operation_id op))"
    using h1 unfolding row_falls_def rows_fall_def holds_row_def by metis
  then show ?thesis using s(2) by (auto simp: option_rel_Some1 rank_le_def)
qed

text \<open>The sum of the ranks.\<close>

definition store_rank :: "config \<Rightarrow> mstore \<Rightarrow> nat" where
  "store_rank cfg ms = (\<Sum>i \<in> dom (get ms). row_rank cfg (the (get ms i)))"

lemma finite_rows [simp]: "finite (dom (get ms))"
  unfolding get_def [abs_def] using finite_dom_map_of [of "ms_ops ms"] by simp

lemma store_rank_zero:
  "store_rank cfg ms = 0 \<longleftrightarrow> (\<forall>i r. get ms i = Some r \<longrightarrow> op_state r \<in> set TERMINAL)"
proof -
  have "store_rank cfg ms = 0 \<longleftrightarrow> (\<forall>i \<in> dom (get ms). row_rank cfg (the (get ms i)) = 0)"
    by (simp add: store_rank_def)
  then show ?thesis by (force simp: row_rank_zero simp del: TERMINAL_set)
qed

lemma rows_fall_rank:
  assumes "rows_fall cfg w w'"
  shows "store_rank cfg (w_store w') \<le> store_rank cfg (w_store w)"
    "get (w_store w) i = Some r \<Longrightarrow> get (w_store w') i = Some r' \<Longrightarrow> row_rank cfg r' < row_rank cfg r \<Longrightarrow>
       store_rank cfg (w_store w') < store_rank cfg (w_store w)"
proof -
  have d: "dom (get (w_store w')) = dom (get (w_store w))" using row_falls_dom [OF assms] .
  have le: "row_rank cfg (the (get (w_store w') j)) \<le> row_rank cfg (the (get (w_store w) j))"
    if j: "j \<in> dom (get (w_store w))" for j
  proof -
    obtain r where r: "get (w_store w) j = Some r" using j by blast
    then have "rel_option (rank_le cfg) (Some r) (get (w_store w') j)" using assms by (metis rows_fall_def)
    then show ?thesis using r by (auto simp: option_rel_Some1 rank_le_def)
  qed
  show "store_rank cfg (w_store w') \<le> store_rank cfg (w_store w)"
    unfolding store_rank_def d using le by (rule sum_mono)
  assume "get (w_store w) i = Some r" "get (w_store w') i = Some r'" "row_rank cfg r' < row_rank cfg r"
  then have "\<exists>j \<in> dom (get (w_store w)). row_rank cfg (the (get (w_store w') j)) < row_rank cfg (the (get (w_store w) j))"
    by force
  then show "store_rank cfg (w_store w') < store_rank cfg (w_store w)"
    unfolding store_rank_def d using le by (intro sum_strict_mono_ex1) auto
qed

text \<open>A claim hands out rows as they stand in the store, and changes no rank.\<close>

lemma claim_hands_out:
  assumes "store_wf (w_store w)" "claim (w_clock w) (w_store w) states limit wid d = (res, ms)"
  obtains ops where "res = Inr ops" "\<forall>op \<in> set ops. holds_row (w\<lparr>w_store := ms\<rparr>) op \<and> op_state op \<in> set states"
    "distinct (map operation_id ops)" "rows_fall cfg w (w\<lparr>w_store := ms\<rparr>)"
proof -
  obtain sel where sel: "res = Inr (map (\<lambda>(k, op). claimed (w_clock w) wid d op) sel)" "distinct (map fst sel)"
    "\<And>k r. (k, r) \<in> set sel \<Longrightarrow> get (w_store w) k = Some r \<and> op_state r \<in> set states \<and> lease_free (w_clock w) r"
    "\<And>i. get ms i = (case dict_get sel i of None \<Rightarrow> get (w_store w) i | Some r \<Rightarrow> Some (claimed (w_clock w) wid d r))"
    using claim_effect [OF assms] by metis
  have id: "operation_id r = k" if "(k, r) \<in> set sel" for k r
    using sel(3) [OF that] store_wf_row [OF assms(1)] by blast
  have ids: "map operation_id (map (\<lambda>(k, op). claimed (w_clock w) wid d op) sel) = map fst sel"
    using id by (auto simp: claimed_def)
  have rows: "holds_row (w\<lparr>w_store := ms\<rparr>) op \<and> op_state op \<in> set states"
    if op: "op \<in> set (map (\<lambda>(k, op). claimed (w_clock w) wid d op) sel)" for op
  proof -
    obtain k r where kr: "(k, r) \<in> set sel" "op = claimed (w_clock w) wid d r" using op by auto
    have "dict_get sel k = Some r" using sel(2) kr(1) by simp
    then show ?thesis
      using sel(3) [OF kr(1)] sel(4) [of k] id [OF kr(1)] kr(2) by (simp add: holds_row_def claimed_def)
  qed
  have "rel_option (rank_le cfg) (get (w_store w) i) (get ms i)" for i
  proof (cases "dict_get sel i")
    case (Some r)
    then have "get (w_store w) i = Some r" using sel(3) dict_get_mem by metis
    moreover have "rank_le cfg r (claimed (w_clock w) wid d r)"
      by (simp add: rank_le_def) (simp add: claimed_def intake_part_def)
    ultimately show ?thesis using sel(4) [of i] Some by simp
  qed (use sel(4) [of i] in \<open>simp add: option.rel_refl\<close>)
  then have f: "rows_fall cfg w (w\<lparr>w_store := ms\<rparr>)" by (simp add: rows_fall_def)
  show thesis by (rule that [OF sel(1) _ _ f]) (use rows sel(2) ids in \<open>auto simp only: simp_thms\<close>)
qed

lemma pass_keeps:
  assumes w: "recoverable w" and r: "run sha (run_once sha cfg sg wid) w = (res, w')"
  shows "recoverable w'" "rows_fall cfg w w'"
proof -
  obtain c ms where c: "claim (w_clock w) (w_store w) CLAIMABLE (claim_batch cfg) wid (lease_seconds cfg) = (c, ms)"
    by fastforce
  have wf: "store_wf (w_store w)" using w by (simp add: recoverable_def orderly_def)
  obtain ops where ops: "c = Inr ops" "\<forall>op \<in> set ops. holds_row (w\<lparr>w_store := ms\<rparr>) op \<and> op_state op \<in> set CLAIMABLE"
    "distinct (map operation_id ops)" "rows_fall cfg w (w\<lparr>w_store := ms\<rparr>)"
    by (rule claim_hands_out [OF wf c])
  have r1: "run sha (drive_all sha cfg sg wid ops 0) (w\<lparr>w_store := ms\<rparr>) = (res, w')"
    using r c ops(1) by (simp add: run_once_def store_claim_def lift_exn_def)
  show f: "rows_fall cfg w w'"
    using lowers_drive_all [OF _ ops(3) r1] ops(2) rows_fall_trans [OF ops(4)] by blast
  show "recoverable w'" by (rule recoverable_run [OF w r _ f]) simp
qed

text \<open>With a row left to do and every lease run out, the claim is not empty.\<close>

lemma claim_not_empty:
  assumes "store_wf ms" "claim now ms states limit wid d = (Inr ops, ms')" "0 < limit"
    "get ms i = Some r" "op_state r \<in> set states" "\<And>i r. get ms i = Some r \<Longrightarrow> lease_free now r"
  shows "ops \<noteq> []"
proof -
  obtain cs where cs: "candidates ms states = Inr cs" using candidates_total [OF assms(1)] by blast
  have mem: "set cs = set (filter (\<lambda>(k, op). op_state op \<in> set states) (ms_ops ms))"
    using candidates_set [OF cs] by (metis set_mset_mset)
  have "(i, r) \<in> set cs" using mem assms(4,5) by (auto simp: get_def dest: dict_get_mem)
  moreover have "lease_free now q" if "(k, q) \<in> set cs" for k q
    using that mem assms(1,6) by (auto simp: store_wf_def get_def)
  ultimately have "(i, r) \<in> set (filter (\<lambda>(k, op). lease_free now op) cs)" by simp
  then have "claim_selection now limit cs \<noteq> []"
    using assms(3) by (cases "filter (\<lambda>(k, op). lease_free now op) cs") (simp_all add: claim_selection_def)
  then show ?thesis
    using assms(2) cs by (auto simp: claim_def claim_loop_spec Let_def)
qed

lemma overdue_claim:
  assumes "overdue cfg w"
    "\<And>i r'. get ms i = Some r' \<Longrightarrow> \<exists>r. get (w_store w) i = Some r \<and> signed_tx r' = signed_tx r"
  shows "overdue cfg (w\<lparr>w_store := ms\<rparr>)"
proof -
  have "st_expiration g \<le> w_clock w \<and> (\<exists>t. solid_now (w_node w) = Inr t \<and>
      st_expiration g + expiration_safety_seconds cfg \<le> t)" if g: "get ms i = Some r'" "signed_tx r' = Some (to_json g)" for i r' g
  proof -
    obtain r where "get (w_store w) i = Some r" "signed_tx r = Some (to_json g)" using assms(2) [OF g(1)] g(2) by auto
    then show ?thesis using assms(1) unfolding overdue_def by blast
  qed
  then show ?thesis using assms(1) by (auto simp: overdue_def)
qed

lemma pass_lowers:
  assumes w: "recoverable w" "overdue cfg w" "0 < claim_batch cfg"
    and free: "\<And>i r. get (w_store w) i = Some r \<Longrightarrow> lease_free (w_clock w) r"
    and left: "store_rank cfg (w_store w) \<noteq> 0" and r: "run sha (run_once sha cfg sg wid) w = (res, w')"
  shows "store_rank cfg (w_store w') < store_rank cfg (w_store w)"
proof -
  obtain c ms where c: "claim (w_clock w) (w_store w) CLAIMABLE (claim_batch cfg) wid (lease_seconds cfg) = (c, ms)"
    by fastforce
  have wf: "store_wf (w_store w)" using w(1) by (simp add: recoverable_def orderly_def)
  obtain ops where ops: "c = Inr ops" "\<forall>op \<in> set ops. holds_row (w\<lparr>w_store := ms\<rparr>) op \<and> op_state op \<in> set CLAIMABLE"
    "distinct (map operation_id ops)" "rows_fall cfg w (w\<lparr>w_store := ms\<rparr>)"
    by (rule claim_hands_out [OF wf c])
  let ?w = "w\<lparr>w_store := ms\<rparr>"
  have rc: "run sha (store_claim CLAIMABLE (claim_batch cfg) wid (lease_seconds cfg)) w = (Inr ops, ?w)"
    using c ops(1) by (simp add: store_claim_def)
  obtain i q where "get (w_store w) i = Some q" "op_state q \<notin> set TERMINAL"
    using left by (auto simp: store_rank_zero simp del: TERMINAL_set)
  then have "ops \<noteq> []"
    using claim_not_empty [OF wf c [unfolded ops(1)] w(3)] free by (simp add: CLAIMABLE_def)
  then obtain op rest where o: "ops = op # rest" by (cases ops) auto
  have op: "holds_row ?w op" "op_state op \<notin> set TERMINAL" using ops(2) o by (auto simp: CLAIMABLE_def)
  have rec: "recoverable ?w" by (rule recoverable_run [OF w(1) rc _ ops(4)]) simp
  have "\<exists>r. get (w_store w) i = Some r \<and> signed_tx r' = signed_tx r" if "get ms i = Some r'" for i r'
  proof -
    obtain sel where sel: "\<And>k r. (k, r) \<in> set sel \<Longrightarrow> get (w_store w) k = Some r"
      "get ms i = (case dict_get sel i of None \<Rightarrow> get (w_store w) i | Some r \<Rightarrow> Some (claimed (w_clock w) wid (lease_seconds cfg) r))"
      using claim_effect [OF wf c] by metis
    from sel(2) have "(case dict_get sel i of None \<Rightarrow> get (w_store w) i
        | Some r \<Rightarrow> Some (claimed (w_clock w) wid (lease_seconds cfg) r)) = Some r'" using that by simp
    then show ?thesis using sel(1) by (cases "dict_get sel i") (auto dest!: dict_get_mem simp: claimed_def)
  qed
  then have due: "overdue cfg ?w" using overdue_claim [OF w(2)] by blast
  obtain d w1 where d: "run sha (drive sha cfg sg wid op) ?w = (d, w1)" by fastforce
  have f1: "rows_fall cfg ?w w1" using lowers_drive [OF op(1) d] by (simp add: row_falls_def)
  obtain q' where q': "get (w_store w1) (operation_id op) = Some q'" "row_rank cfg q' < row_rank cfg op"
    using drive_lowers [OF op rec due d] by blast
  have lt: "store_rank cfg (w_store w1) < store_rank cfg (w_store ?w)"
    using rows_fall_rank(2) [OF f1 _ q'(1)] op(1) q'(2) by (simp add: holds_row_def)
  have "rows_fall cfg w1 w'"
  proof (cases d)
    case (Inl e)
    then show ?thesis using r rc d o by (simp add: run_once_def run_pbind rows_fall_same)
  next
    case (Inr n)
    have "run sha (drive_all sha cfg sg wid rest n) w1 = (res, w')"
      using r rc d o Inr by (simp add: run_once_def run_pbind)
    moreover have "\<forall>x \<in> set rest. holds_row w1 x"
      by (rule others_hold [OF lowers_drive [OF op(1) d]]) (use ops(2,3) o in simp_all)
    ultimately show ?thesis using lowers_drive_all ops(3) o by fastforce
  qed
  then show ?thesis using rows_fall_rank(1) lt rows_fall_rank(1) [OF ops(4)] by (metis le_less_trans less_le_trans)
qed

end
