(* ===== verification/Safety.thy ===== *)
theory Safety
  imports Delivery
begin

text \<open>
  The safety theorems of the whole system, over every interleaving of workers, crashes, lost
  leases, timeouts and blocks that \<open>Fleet\<close> admits, and a concrete run of the system that reaches
  a confirmed withdrawal.
\<close>

section \<open>A run of the system\<close>

text \<open>The delivery of \<open>Delivery\<close> is a path of the system from its initial state.\<close>

lemma submit_is_step:
  "\<exists>s. sys_step sha cfg sg strict (initial_system clk lag delay nsg) s \<and>
     s_world s = submitted clk lag delay nsg (new_operation oid rh REQUESTED addr ass units)"
proof -
  let ?op = "new_operation oid rh REQUESTED addr ass units"
  let ?s = "initial_system clk lag delay nsg"
  obtain res ms where "insert_new clk clk (w_store (s_world ?s)) ?op = (res, ms)" by fastforce
  then show ?thesis
    using ss_submit [of clk clk ?s oid rh addr ass units res ms sha cfg sg strict]
    by (auto simp: submitted_def Let_def)
qed

lemma delivery_path:
  assumes op: "op = new_operation oid rh REQUESTED addr ass amount"
    and "payable sha cfg op" "py_str (amount_units op) = Inr units"
    and "0 < claim_batch cfg" "0 \<le> lag" "0 \<le> delay" "0 \<le> expiration_safety_seconds cfg"
    and "max 1 delay * milliseconds 1 < tx_ttl_seconds cfg" "CHR '':'' \<notin> set (key_id sg)"
    and s1: "s_world s1 = submitted clk lag delay sg op"
  obtains s r t where "(sys_step sha cfg sg True)\<^sup>*\<^sup>* s1 s"
    "only_row (w_store (s_world s)) r" "operation_id r = oid" "op_state r = CONFIRMED"
    "signed_tx r = Some (to_json t)" "st_txid t \<in> successful_txids (w_node (s_world s))"
proof -
  have new: "op_state op = REQUESTED" "lease_expires_at op = None" "operation_id op = oid"
    by (simp_all add: op new_operation_def)
  obtain w2 nd w3 op3 g where
    r: "run sha (run_once sha cfg sg ''a'') (submitted clk lag delay sg op) = (Inr 1, w2)" "w_clock w2 = clk"
    "solidify (\<lambda>_. clk) (w_node w2) = Inr nd"
    "run sha (run_once sha cfg sg ''b'') (w2\<lparr>w_node := nd\<rparr>) = (Inr 1, w3)"
    "only_row (w_store w3) op3" "intake_part op3 = intake_part (stamped clk op)" "op_state op3 = CONFIRMED"
    "signed_tx op3 = Some (to_json g)" "st_txid g \<in> successful_txids (w_node w3)"
    by (rule delivery [OF new(1) assms(2,3) new(2) assms(4-6,8,9), where wid = "''a''" and clk = clk
          and wid' = "''b''"]) blast
  let ?path = "(sys_step sha cfg sg True)\<^sup>*\<^sup>*"
  obtain ts2 where s2: "?path s1 \<lparr> s_world = w2, s_threads = ts2 \<rparr>"
    using run_once_is_path [OF assms(7), of sha sg "''a''" s1] r(1) s1 by metis
  let ?s2 = "\<lparr> s_world = w2, s_threads = ts2 \<rparr>"
  have s3: "?path ?s2 (?s2\<lparr>s_world := w2\<lparr>w_node := nd\<rparr>\<rparr>)"
    using blocks_are_path [of ?s2 _ nd sha cfg sg True] r(2,3) by (simp add: solidify_def)
  obtain ts4 where s4: "?path (?s2\<lparr>s_world := w2\<lparr>w_node := nd\<rparr>\<rparr>) \<lparr> s_world = w3, s_threads = ts4 \<rparr>"
    using run_once_is_path [OF assms(7), of sha sg "''b''" "?s2\<lparr>s_world := w2\<lparr>w_node := nd\<rparr>\<rparr>"] r(4) by auto
  have path: "?path s1 \<lparr> s_world = w3, s_threads = ts4 \<rparr>"
    using s2 s3 s4 by (meson rtranclp_trans)
  have "operation_id op3 = oid" using r(6) new(3) by (simp add: intake_part_def stamped_def)
  then show thesis by (intro that [OF path]) (use r in simp_all)
qed

lemma delivery_reachable:
  assumes "op = new_operation oid rh REQUESTED addr ass amount"
    and "payable sha cfg op" "py_str (amount_units op) = Inr units"
    and "0 < claim_batch cfg" "0 \<le> lag" "0 \<le> delay" "0 \<le> expiration_safety_seconds cfg"
    and "max 1 delay * milliseconds 1 < tx_ttl_seconds cfg" "CHR '':'' \<notin> set (key_id sg)"
  obtains s r t where "(sys_step sha cfg sg True)\<^sup>*\<^sup>* (initial_system clk lag delay sg) s"
    "only_row (w_store (s_world s)) r" "operation_id r = oid" "op_state r = CONFIRMED"
    "signed_tx r = Some (to_json t)" "st_txid t \<in> successful_txids (w_node (s_world s))"
proof -
  obtain s1 where s1: "sys_step sha cfg sg True (initial_system clk lag delay sg) s1"
      "s_world s1 = submitted clk lag delay sg op"
    using submit_is_step [of sha cfg sg True clk lag delay sg] assms(1) by blast
  show thesis
    by (rule delivery_path [OF assms s1(2)])
      (rule that [OF converse_rtranclp_into_rtranclp [of "sys_step sha cfg sg True", OF s1(1)]])
qed

lemma only_row_unshared: "only_row ms r \<Longrightarrow> unshared ms"
  unfolding only_row_def unshared_def by (metis empty_iff)

text \<open>The run used by the witnesses.\<close>

lemma sample_run:
  obtains s r t where
    "(sys_step sample_sha default_config default_signer True)\<^sup>*\<^sup>* (initial_system 0 19 1 default_signer) s"
    "unshared (w_store (s_world s))" "get (w_store (s_world s)) 7 = Some r" "op_state r = CONFIRMED"
    "PStr t \<in> all_txids (w_store (s_world s)) 7" "t \<in> included_txids (w_node (s_world s))"
proof -
  obtain s r g where
    s: "(sys_step sample_sha default_config default_signer True)\<^sup>*\<^sup>* (initial_system 0 19 1 default_signer) s"
    "only_row (w_store (s_world s)) r" "operation_id r = 7" "op_state r = CONFIRMED"
    "signed_tx r = Some (to_json g)" "st_txid g \<in> successful_txids (w_node (s_world s))"
    by (rule delivery_reachable [OF sample_request_def sample_request_good(1,4) sample_settings(1) _ _ sample_settings(4),
          of 19 1 default_signer 0]) (use sample_settings in auto)
  have uns: "unshared (w_store (s_world s))" using only_row_unshared [OF s(2)] .
  have row: "get (w_store (s_world s)) 7 = Some r" using s(2,3) by (simp add: only_row_def get_def)
  then have "carries (w_store (s_world s)) 7 g" using s(4,5) by (simp add: carries_def sent_states_def)
  then have "PStr (st_txid g) \<in> all_txids (w_store (s_world s)) 7"
    using carries_history sys_inv_reachable [OF s(1) uns]
    by (simp add: sys_inv_def world_inv_def history_def set_eq_iff subset_iff)
  moreover have "st_txid g \<in> included_txids (w_node (s_world s))"
    using s(6) by (auto simp: successful_txids_def included_txids_def)
  ultimately show thesis using s(1,4) uns row by (intro that)
qed

text \<open>The run that crashes between build and signature.\<close>

definition sample_claimed :: operation where
  "sample_claimed = claimed 0 ''w'' (lease_seconds default_config) (stamped 0 sample_request)"

lemma sample_claimed_good:
  "op_state sample_claimed = REQUESTED" "payable sample_sha default_config sample_claimed"
  "py_str (amount_units sample_claimed) = Inr (nat_str 5000000)" "operation_id sample_claimed = 7"
  using sample_request_good by (simp_all add: sample_claimed_def claimed_def stamped_def payable_def)
    (simp add: sample_request_def new_operation_def)

lemma submitted_world:
  "w_clock (submitted clk lag delay nsg op) = clk" "w_node (submitted clk lag delay nsg op) = new_node clk lag delay nsg"
  "w_crash (submitted clk lag delay nsg op) = new_crash_switch"
  by (simp_all add: submitted_def initial_system_def Let_def)

lemma sample_submission:
  "\<exists>s1. sys_step sample_sha default_config default_signer True (initial_system 0 19 1 nsg) s1 \<and>
     s_world s1 = submitted 0 19 1 nsg sample_request"
  unfolding sample_request_def by (rule submit_is_step)

text \<open>A pass over the sample request, with a node of any key and any crash point armed, is a drive of it.\<close>

lemma sample_pass:
  assumes w: "w = (submitted 0 19 1 nsg sample_request)\<lparr>w_crash := c\<rparr>"
  obtains ms where "only_row ms sample_claimed" "run sample_sha (run_once sample_sha default_config default_signer ''w'') w =
      run sample_sha (drive sample_sha default_config default_signer ''w'' sample_claimed) (w\<lparr>w_store := ms\<rparr>)"
    "holds_row (w\<lparr>w_store := ms\<rparr>) sample_claimed" "healthy (w_node w)" "ref_block (w_node w) = Inr (1000, block_hash 1000)"
proof -
  have fresh: "op_state (stamped 0 sample_request) \<in> set CLAIMABLE"
      "lease_expires_at (stamped 0 sample_request) = None"
    using sample_request_good by (simp_all add: stamped_def CLAIMABLE_def)
  obtain ms where ms: "only_row ms sample_claimed" "run sample_sha (run_once sample_sha default_config default_signer ''w'') w =
      run sample_sha (drive sample_sha default_config default_signer ''w'' sample_claimed) (w\<lparr>w_store := ms\<rparr>)"
    using only_row_run_once [of w "stamped 0 sample_request" default_config "''w''" sample_sha
        default_signer] submitted_only_row fresh sample_settings(1) by (auto simp: w submitted_world sample_claimed_def)
  show thesis
    by (rule that [OF ms]) (use ms(1) only_row_holds [of "w\<lparr>w_store := ms\<rparr>"] in
      \<open>simp_all add: w submitted_world healthy_def ref_block_def new_node_def heights_def solid_block_def\<close>)
qed

lemma sample_crash:
  obtains s r t where
    "(sys_step sample_sha default_config default_signer True)\<^sup>*\<^sup>* (initial_system 0 19 1 default_signer) s"
    "unshared (w_store (s_world s))" "get (w_store (s_world s)) 7 = Some r" "op_state r = SIGNING"
    "PStr t \<in> all_txids (w_store (s_world s)) 7"
proof -
  let ?sys = "sys_step sample_sha default_config default_signer True"
  let ?base = "submitted 0 19 1 default_signer sample_request"
  let ?w = "?base\<lparr>w_crash := arm (w_crash ?base) SIGN_MID 1\<rparr>"
  obtain s1 where s1: "?sys (initial_system 0 19 1 default_signer) s1" "s_world s1 = ?base"
    using sample_submission [of default_signer] by blast
  let ?s2 = "s1\<lparr>s_world := ?w\<rparr>"
  have s2: "?sys s1 ?s2" using ss_arm [of _ _ _ _ s1 SIGN_MID 1] s1(2) by simp
  obtain ms where ms: "only_row ms sample_claimed" "run sample_sha (run_once sample_sha default_config default_signer ''w'') ?w =
      run sample_sha (drive sample_sha default_config default_signer ''w'' sample_claimed) (?w\<lparr>w_store := ms\<rparr>)"
    "holds_row (?w\<lparr>w_store := ms\<rparr>) sample_claimed" "ref_block (w_node ?w) = Inr (1000, block_hash 1000)"
    by (rule sample_pass [OF refl])
  let ?w3 = "?w\<lparr>w_store := ms\<rparr>"
  have h3: "ref_block (w_node ?w3) = Inr (1000, block_hash 1000)" "0 < armed_count (w_crash ?w3) SIGN_MID"
    using ms(4) by (simp_all add: submitted_world armed_count_def new_crash_switch_def arm_def)
  obtain op' w' t where d: "run sample_sha (drive sample_sha default_config default_signer ''w'' sample_claimed) ?w3 =
      (Inl (SimulatedCrash SIGN_MID), w')"
    "get (w_store w') (operation_id sample_claimed) = Some op'" "op_state op' = SIGNING"
    "\<forall>j. j \<noteq> operation_id sample_claimed \<longrightarrow> history (w_store w') j = history (w_store ?w3) j"
    "t \<in> history (w_store w') (operation_id sample_claimed)" "w_node w' = w_node ?w3"
    by (rule crash_drive [OF ms(3) sample_claimed_good(1,2) h3(1) sample_claimed_good(3) h3(2)])
  obtain ts where "?sys\<^sup>*\<^sup>* ?s2 \<lparr> s_world = w', s_threads = ts \<rparr>"
    using run_once_is_path [OF sample_settings(4), of sample_sha default_signer "''w''" ?s2] ms(2) d(1) by auto
  then have path: "?sys\<^sup>*\<^sup>* (initial_system 0 19 1 default_signer) \<lparr> s_world = w', s_threads = ts \<rparr>"
    using s1(1) s2 by (meson sys_path_step)
  have "history (w_store w') j = {}" if "j \<noteq> operation_id sample_claimed" for j
    using that d(4) ms(1) by (simp add: only_row_def)
  then have "unshared (w_store w')" unfolding unshared_def by (metis empty_iff)
  then show thesis using d(2,3,5) sample_claimed_good(4) by (intro that [OF path]) (simp_all add: history_def)
qed

section \<open>Properties\<close>

text \<open>
  C1. No withdrawal is paid twice, on two conditions: whenever a worker reads the solidified timestamp, the
  tip of the chain is at most the safety margin later than at its last lookup of a txid (the timing
  condition, the flag \<open>True\<close> of the step relation), and no two operations were given the same txid
  (\<open>unshared\<close>).  Then in every state such a run reaches, with any number of workers, under every interleaving
  of their calls with crashes, expired leases, scripted faults, blocks, clock readings and intake, two
  txids that were ever written for one operation and are both in a block are the same.  Without the timing
  condition this is false, see \<open>Stale_Lookup\<close>.
\<close>

theorem no_double_spend:
  assumes "(sys_step sha cfg sg True)\<^sup>*\<^sup>* (initial_system clk lag delay nsg) s"
    and "unshared (w_store (s_world s))"
    and "PStr t \<in> all_txids (w_store (s_world s)) i" "t \<in> included_txids (w_node (s_world s))"
    and "PStr t' \<in> all_txids (w_store (s_world s)) i" "t' \<in> included_txids (w_node (s_world s))"
  shows "t = t'"
proof -
  have "landed_ok (s_world s)"
    using sys_inv_reachable [OF assms(1,2)] by (simp add: sys_inv_def world_inv_def)
  then show ?thesis
    using assms(3-6) carries_unique unfolding landed_ok_def history_def by blast
qed

theorem no_double_spend_witness:
  "\<exists>s t. (sys_step sample_sha default_config default_signer True)\<^sup>*\<^sup>* (initial_system 0 19 1 default_signer) s \<and>
     t \<in> included_txids (w_node (s_world s)) \<and> PStr t \<in> all_txids (w_store (s_world s)) 7 \<and>
     (\<forall>t' \<in> included_txids (w_node (s_world s)). PStr t' \<in> all_txids (w_store (s_world s)) 7 \<longrightarrow> t' = t)"
proof (rule sample_run)
  fix s r t
  assume s: "(sys_step sample_sha default_config default_signer True)\<^sup>*\<^sup>* (initial_system 0 19 1 default_signer) s"
    "unshared (w_store (s_world s))"
    and t: "PStr t \<in> all_txids (w_store (s_world s)) 7" "t \<in> included_txids (w_node (s_world s))"
  have "t' = t" if "t' \<in> included_txids (w_node (s_world s))" "PStr t' \<in> all_txids (w_store (s_world s)) 7" for t'
    using no_double_spend [OF s that(2,1) t] .
  then show ?thesis using s t by blast
qed

text \<open>
  C2. Confirmed means paid, once: in every state reached by a run that meets the timing condition, and where
  no two operations share a txid, an operation in state \<open>confirmed\<close> has a txid of its own that executed
  successfully on the chain, and no other txid ever written for it is in any block.
\<close>

theorem confirmed_is_paid_once:
  assumes "(sys_step sha cfg sg True)\<^sup>*\<^sup>* (initial_system clk lag delay nsg) s"
    and "unshared (w_store (s_world s))"
    and "get (w_store (s_world s)) i = Some r" "op_state r = CONFIRMED"
  shows "\<exists>t. PStr t \<in> all_txids (w_store (s_world s)) i \<and> t \<in> successful_txids (w_node (s_world s)) \<and>
    (\<forall>t'. PStr t' \<in> all_txids (w_store (s_world s)) i \<and> t' \<in> included_txids (w_node (s_world s)) \<longrightarrow>
       t' = t)"
proof -
  have inv: "world_inv (s_world s)"
    using sys_inv_reachable [OF assms(1,2)] by (simp add: sys_inv_def)
  then obtain g where g: "signed_tx r = Some (to_json g)" "st_txid g \<in> successful_txids (w_node (s_world s))"
    using assms(3,4) unfolding world_inv_def confirmed_ok_def by blast
  then have car: "carries (w_store (s_world s)) i g"
    using assms(3,4) by (simp add: carries_def sent_states_def)
  then have "st_txid g \<in> history (w_store (s_world s)) i"
    using carries_history inv by (simp add: world_inv_def)
  moreover have "t' = st_txid g"
    if "t' \<in> history (w_store (s_world s)) i" "t' \<in> included_txids (w_node (s_world s))" for t'
    using inv that carries_unique [OF car] unfolding world_inv_def landed_ok_def by blast
  ultimately show ?thesis using g(2) unfolding history_def by blast
qed

theorem confirmed_is_paid_once_witness:
  "\<exists>s r t. (sys_step sample_sha default_config default_signer True)\<^sup>*\<^sup>* (initial_system 0 19 1 default_signer) s \<and>
     get (w_store (s_world s)) 7 = Some r \<and> op_state r = CONFIRMED \<and>
     t \<in> successful_txids (w_node (s_world s))"
proof (rule sample_run)
  fix s r t
  assume s: "(sys_step sample_sha default_config default_signer True)\<^sup>*\<^sup>* (initial_system 0 19 1 default_signer) s"
    "unshared (w_store (s_world s))" "get (w_store (s_world s)) 7 = Some r" "op_state r = CONFIRMED"
  then show ?thesis using confirmed_is_paid_once [OF s] by blast
qed

text \<open>
  C9. Nothing is on the chain before the write-ahead: in every state reached by a run that meets the timing
  condition, and where no two operations share a txid, while an operation is requested, validated,
  signing (also again, after a rebuild), signed or rejected, no txid ever written for it is in any block.
\<close>

theorem unsent_never_landed:
  assumes "(sys_step sha cfg sg True)\<^sup>*\<^sup>* (initial_system clk lag delay nsg) s"
    and "unshared (w_store (s_world s))"
    and "get (w_store (s_world s)) i = Some r" "op_state r \<in> {REQUESTED, VALIDATED, SIGNING, SIGNED, REJECTED}"
    and "PStr t \<in> all_txids (w_store (s_world s)) i"
  shows "t \<notin> included_txids (w_node (s_world s))"
proof
  assume "t \<in> included_txids (w_node (s_world s))"
  then obtain g where "carries (w_store (s_world s)) i g"
    using sys_inv_reachable [OF assms(1,2)] assms(5)
    unfolding sys_inv_def world_inv_def landed_ok_def history_def by blast
  then show False using assms(3,4) by (auto simp: carries_def sent_states_def)
qed

theorem unsent_never_landed_witness:
  "\<exists>s r t. (sys_step sample_sha default_config default_signer True)\<^sup>*\<^sup>* (initial_system 0 19 1 default_signer) s \<and>
     get (w_store (s_world s)) 7 = Some r \<and> op_state r = SIGNING \<and>
     PStr t \<in> all_txids (w_store (s_world s)) 7 \<and> t \<notin> included_txids (w_node (s_world s))"
proof (rule sample_crash)
  fix s r t
  assume s: "(sys_step sample_sha default_config default_signer True)\<^sup>*\<^sup>* (initial_system 0 19 1 default_signer) s"
    "unshared (w_store (s_world s))" "get (w_store (s_world s)) 7 = Some r" "op_state r = SIGNING"
    and t: "PStr t \<in> all_txids (w_store (s_world s)) 7"
  then show ?thesis using unsent_never_landed [OF s(1-3) _ t] by auto
qed

end
