(* ===== verification/Stale_Lookup.thy ===== *)
theory Stale_Lookup
  imports Safety
begin

text \<open>
  The timing condition of the safety theorems is needed.  A worker may be paused right before it
  sends; another worker claims the row, looks the transaction up and does not find it; now the first one
  sends, the transaction lands and the chain moves past its expiration; the second one reads the
  solidified timestamp, takes the transaction for dead and pays again.  The fencing token stops the
  first worker at its next write only, after the send.
\<close>

section \<open>Partial runs\<close>

definition goes :: "(bytes \<Rightarrow> bytes) \<Rightarrow> 'a prog \<times> world \<Rightarrow> 'a prog \<times> world \<Rightarrow> bool" where
  "goes sha = (\<lambda>(p, w) (p', w'). step1 sha p w = Some (p', w'))\<^sup>*\<^sup>*"

lemma goes_refl [simp]: "goes sha x x"
  by (simp add: goes_def)

lemma goes_trans: "goes sha x y \<Longrightarrow> goes sha y z \<Longrightarrow> goes sha x z"
  unfolding goes_def by (rule rtranclp_trans)

lemma goes_step1: "step1 sha p w = Some (p', w') \<Longrightarrow> goes sha (p', w') y \<Longrightarrow> goes sha (p, w) y"
  unfolding goes_def by (rule converse_rtranclp_into_rtranclp) auto

lemma step1_under:
  "step1 sha p w = Some (p', w') \<Longrightarrow> step1 sha (pbind p f) w = Some (pbind p' f, w')"
  "step1 sha p w = Some (p', w') \<Longrightarrow> step1 sha (catch p h k) w = Some (catch p' h k, w')"
  by (cases p; auto simp: step1_def Let_def split: prod.splits)+

lemma goes_under:
  assumes "goes sha (p, w) (p', w')"
  shows "goes sha (pbind p f, w) (pbind p' f, w')" "goes sha (catch p h k, w) (catch p' h k, w')"
proof -
  have "goes sha (pbind p f, w) (pbind (fst y) f, snd y) \<and> goes sha (catch p h k, w) (catch (fst y) h k, snd y)"
    if "goes sha (p, w) y" for y
    using that unfolding goes_def [of sha, where 'a = 'a]
  proof (induction rule: rtranclp_induct)
    case (step y z)
    have "step1 sha (fst y) (snd y) = Some (fst z, snd z)" using step.hyps(2) by (cases y, cases z) simp
    from step1_under [OF this] show ?case
      using step.IH goes_trans goes_step1 goes_refl by (metis (no_types, lifting))
  qed simp
  from this [OF assms] show "goes sha (pbind p f, w) (pbind p' f, w')" "goes sha (catch p h k, w) (catch p' h k, w')"
    by simp_all
qed

lemma run_goes:
  "run sha p w = (res, w') \<Longrightarrow> goes sha (p, w) (case res of Inl e \<Rightarrow> Raise e | Inr x \<Rightarrow> Return x, w')"
proof (induction p arbitrary: w rule: prog_step_induct [where sha = sha])
  case (step p)
  show ?case
  proof (cases "step1 sha p w")
    case None
    then show ?thesis using step.prems by (auto simp: step1_None_iff)
  next
    case (Some x)
    then obtain p' w1 where st: "step1 sha p w = Some (p', w1)" by (cases x) auto
    show ?thesis
      using goes_step1 [OF st] step.IH [OF st] step.prems run_step1 [OF st] by metis
  qed
qed

lemma goes_pbind: "run sha p w = (Inr x, w') \<Longrightarrow> goes sha (pbind p f, w) (f x, w')"
  using goes_under(1) [OF run_goes, of sha p w "Inr x" w' f] by simp

lemma goes_catch: "run sha p w = (Inr x, w') \<Longrightarrow> goes sha (catch p h k, w) (k x, w')"
  using goes_under(2) [OF run_goes, of sha p w "Inr x" w' h k] by simp

lemma goes_is_path:
  assumes "goes sha (t_prog (s_threads s ! n), s_world s) (p', w')" "n < length (s_threads s)"
  shows "\<exists>ts. (sys_step sha cfg sg False)\<^sup>*\<^sup>* s \<lparr> s_world = w', s_threads = ts \<rparr> \<and>
    length ts = length (s_threads s) \<and> t_prog (ts ! n) = p' \<and>
    (\<forall>m. m \<noteq> n \<longrightarrow> ts ! m = s_threads s ! m)"
proof -
  have "\<exists>ts. (sys_step sha cfg sg False)\<^sup>*\<^sup>* s \<lparr> s_world = snd y, s_threads = ts \<rparr> \<and>
    length ts = length (s_threads s) \<and> t_prog (ts ! n) = fst y \<and> (\<forall>m. m \<noteq> n \<longrightarrow> ts ! m = s_threads s ! m)"
    if "goes sha (t_prog (s_threads s ! n), s_world s) y" for y
    using that unfolding goes_def
  proof (induction rule: rtranclp_induct)
    case base
    show ?case by (intro exI [of _ "s_threads s"]) (cases s, simp)
  next
    case (step y z)
    then obtain ts where ts: "(sys_step sha cfg sg False)\<^sup>*\<^sup>* s \<lparr> s_world = snd y, s_threads = ts \<rparr>"
        "length ts = length (s_threads s)" "t_prog (ts ! n) = fst y" "\<forall>m. m \<noteq> n \<longrightarrow> ts ! m = s_threads s ! m"
      by blast
    have "sys_step sha cfg sg False \<lparr> s_world = snd y, s_threads = ts \<rparr>
        \<lparr> s_world = snd z, s_threads = ts[n := advance_thread (ts ! n) (fst z) (snd y)] \<rparr>"
      using ss_thread [of n "\<lparr> s_world = snd y, s_threads = ts \<rparr>" "ts ! n" sha "fst z" "snd z" False cfg sg]
        step.hyps(2) ts(2,3) assms(2) by (cases y, cases z) simp
    then show ?case
      using ts assms(2) by (intro exI [of _ "ts[n := advance_thread (ts ! n) (fst z) (snd y)]"])
        (auto simp: advance_thread_def)
  qed
  from this [OF assms(1)] show ?thesis by simp
qed

lemma history_path:
  "(sys_step sha cfg sg strict)\<^sup>*\<^sup>* s s' \<Longrightarrow> history (w_store (s_world s)) i \<subseteq> history (w_store (s_world s')) i"
  by (induction rule: rtranclp_induct) (use history_sys_step in blast)+

section \<open>The handlers on the way\<close>

text \<open>A pass up to the moment before the bytes leave: the write-ahead is durable.\<close>

lemma first_send_paused:
  assumes op: "holds_row w op" "op_state op = SIGNED" "signed_tx op = Some (to_json g)"
    and live: "w_clock w < st_expiration g" and calm: "armed_count (w_crash w) BROADCAST_PRE_SEND \<le> 0"
  obtains op' w' k where "goes sha (p_broadcast cfg op wid, w) (Node_Broadcast g (Some wid) k, w')"
    "wrote_row w w' op'" "same_claim op op'" "op_state op' = BROADCASTING" "signed_tx op' = Some (to_json g)"
    "attempts op' = attempts op" "lease_expires_at op' = Some (w_clock w + lease_seconds cfg)"
    "st_txid g \<in> history (w_store w') (operation_id op)"
proof -
  let ?d = "[(''txid'', PStr (st_txid g)), (''reason'', PStr ''write-ahead'')]"
  let ?op = "written (w_clock w) BROADCASTING [] (Some (lease_seconds cfg)) op"
  obtain w1 where r: "run sha (p_cas cfg op BROADCASTING wid [] ?d) w = (Inr ?op, w1)" "wrote_row w w1 ?op"
    "same_claim op ?op" "detail_txids ?d \<subseteq> history (w_store w1) (operation_id op)"
    using run_p_cas [OF op(1), of BROADCASTING "[]" sha cfg wid ?d] op(2) by (auto simp: handler_sets)
  have c: "armed_count (w_crash w1) BROADCAST_PRE_SEND \<le> 0" using r(2) calm by (simp add: wrote_row_def)
  let ?F = "\<lambda>now. if now \<ge> st_expiration g
      then rebuild cfg op wid ''expired before first send''
        [(''rule'', PStr ''never-broadcast envelope; local expiry check'')]
      else pbind (p_cas cfg op BROADCASTING wid [] ?d) (\<lambda>op. first_send cfg op wid g)"
  have "p_broadcast cfg op wid = pbind clock_now ?F"
    using op(3) by (simp add: p_broadcast_def load_signed_def lift_exn_def)
  then have "goes sha (p_broadcast cfg op wid, w) (pbind (p_cas cfg op BROADCASTING wid [] ?d)
      (\<lambda>op. first_send cfg op wid g), w)"
    using goes_pbind [OF run_calls(1), of sha ?F w] live by simp
  then have "goes sha (p_broadcast cfg op wid, w) (first_send cfg ?op wid g, w1)"
    by (rule goes_trans) (rule goes_pbind [OF r(1)])
  then have "goes sha (p_broadcast cfg op wid, w) (catch (node_broadcast g (Some wid)) (on_timeout ?op)
      (\<lambda>result. pbind (crash_here BROADCAST_POST_SEND) (\<lambda>_. settle_broadcast_result cfg ?op wid g result)), w1)"
    unfolding first_send_def by (rule goes_trans) (rule goes_pbind [OF run_crash_unarmed [OF c]])
  then obtain k where "goes sha (p_broadcast cfg op wid, w) (Node_Broadcast g (Some wid) k, w1)"
    by (simp add: node_broadcast_def)
  then show thesis
    by (rule that [OF _ r(2,3)]) (use r(4) op in \<open>simp_all add: written_def Let_def detail_txids_def\<close>)
qed

lemma goes_drive_loop:
  assumes "run sha (pipeline_step sha cfg sg op wid) w = (Inr op', w1)"
    "op_state op' \<noteq> op_state op" "op_state op' \<notin> set TERMINAL"
  shows "goes sha (drive_loop sha cfg sg wid (Suc n) op adv, w) (drive_loop sha cfg sg wid n op' 1, w1)"
  unfolding drive_loop.simps
  by (rule goes_trans [OF goes_catch [OF assms(1)]]) (use assms(2,3) in simp)

text \<open>The first worker, from intake to its pause.\<close>

lemma drive_paused:
  assumes op: "holds_row w op" "op_state op = REQUESTED" "payable sha cfg op"
    and node: "ref_block (w_node w) = Inr ref" "py_str (amount_units op) = Inr units"
    and g: "g = sign sha sg (unsigned_envelope sha cfg op units ref (w_clock w))"
    and "0 < tx_ttl_seconds cfg" "calm (w_crash w)"
  obtains op' w' k where "goes sha (drive sha cfg sg wid op, w) (Node_Broadcast g (Some wid) k, w')"
    "wrote_row w w' op'" "same_claim op op'" "op_state op' = BROADCASTING" "signed_tx op' = Some (to_json g)"
    "attempts op' = attempts op" "lease_expires_at op' = Some (w_clock w + lease_seconds cfg)"
    "st_txid g \<in> history (w_store w') (operation_id op)"
proof -
  obtain op1 w1 op3 w3 where s3: "run sha (pipeline_step sha cfg sg op wid) w = (Inr op1, w1)" "op_state op1 = VALIDATED"
      "run sha (pipeline_step sha cfg sg op1 wid) w1 = (Inr op3, w3)" "wrote_row w w3 op3" "same_claim op op3"
      "op_state op3 = SIGNED" "signed_tx op3 = Some (to_json g)" "attempts op3 = attempts op"
    by (rule run_to_signed [OF op node _ g]) (use assms(8) in \<open>simp add: calm_def\<close>)
  have c3: "w_clock w3 = w_clock w" "w_crash w3 = w_crash w" using s3(4) by (simp_all add: wrote_row_def)
  have exp: "w_clock w3 < st_expiration g" "armed_count (w_crash w3) BROADCAST_PRE_SEND \<le> 0"
    using assms c3 by (simp_all add: unsigned_envelope_def Let_def calm_def)
  obtain op' w' k where s4: "goes sha (p_broadcast cfg op3 wid, w3) (Node_Broadcast g (Some wid) k, w')"
    "wrote_row w3 w' op'" "same_claim op3 op'" "op_state op' = BROADCASTING" "signed_tx op' = Some (to_json g)"
    "attempts op' = attempts op3" "lease_expires_at op' = Some (w_clock w3 + lease_seconds cfg)"
    "st_txid g \<in> history (w_store w') (operation_id op3)"
    by (rule first_send_paused [OF wrote_row_holds [OF s3(4)] s3(6,7) exp])
  have l: "goes sha (drive_loop sha cfg sg wid 8 op 0, w) (drive_loop sha cfg sg wid 6 op3 1, w3)"
  proof (rule goes_trans)
    show "goes sha (drive_loop sha cfg sg wid 8 op 0, w) (drive_loop sha cfg sg wid 7 op1 1, w1)"
      using goes_drive_loop [OF s3(1), of 7 0] op(2) s3(2)
      by (simp add: TERMINAL_def eval_nat_numeral del: drive_loop.simps)
    show "goes sha (drive_loop sha cfg sg wid 7 op1 1, w1) (drive_loop sha cfg sg wid 6 op3 1, w3)"
      using goes_drive_loop [OF s3(3), of 6 1] s3(2,6)
      by (simp add: TERMINAL_def eval_nat_numeral del: drive_loop.simps)
  qed
  have "\<exists>k. goes sha (drive_loop sha cfg sg wid 6 op3 1, w3) (Node_Broadcast g (Some wid) k, w')"
    using goes_under(2) [OF s4(1)] s3(6) by (simp add: pipeline_step_def eval_nat_numeral) blast
  then obtain k' where "goes sha (drive_loop sha cfg sg wid 8 op 0, w) (Node_Broadcast g (Some wid) k', w')"
    using goes_trans [OF l] by blast
  from goes_under(1) [OF this, of "settle_exit wid"]
  obtain k'' where d: "goes sha (drive sha cfg sg wid op, w) (Node_Broadcast g (Some wid) k'', w')"
    unfolding drive_eq by auto
  show thesis
  proof (rule that [OF d])
    show "wrote_row w w' op'"
      using s3(4) s4(2) same_claim_id [OF s4(3)] by (simp add: wrote_row_def)
    show "same_claim op op'" using s3(5) s4(3) by (simp add: same_claim_def)
  qed (use s4 s3(8) same_claim_id [OF s3(5)] c3 in simp_all)
qed

text \<open>The second worker, up to its pause between the lookup and the solid time; and how it goes on when
  it then finds the transaction expired.\<close>

lemma lookup_paused:
  assumes op: "op_state op = BROADCASTING" "signed_tx op = Some (to_json g)"
    and node: "healthy (w_node w)" "dict_get (nd_txs (w_node w)) (st_txid g) = None"
  obtains p where "goes sha (drive sha cfg sg wid op, w) (p, w)"
    "\<And>w1 t op' w2. solid_now (w_node w1) = Inr t \<Longrightarrow> st_expiration g + expiration_safety_seconds cfg \<le> t \<Longrightarrow>
       (\<And>why ev. run sha (rebuild cfg op wid why ev) w1 = (Inr (op' why ev), w2 why ev) \<and>
          op_state (op' why ev) = SIGNING) \<Longrightarrow>
       \<exists>why ev. run sha p w1 = run sha (pbind (drive_loop sha cfg sg wid 7 (op' why ev) 1) (settle_exit wid)) (w2 why ev)"
proof -
  let ?C = "\<lambda>(dead, evidence). if \<not> dead then resend cfg op wid g
       else rebuild cfg op wid ''expired unseen; provably dead'' evidence"
  let ?r = "pbind (proof_of_death cfg g) ?C"
  let ?p = "pbind (catch ?r
       (\<lambda>e. case e of
          LostClaim _ _ _ \<Rightarrow> Return (Lost_Claim 0)
        | _ \<Rightarrow> if is_Exception e then Return (Handler_Error op 0) else Raise e)
       (\<lambda>op'.
          let advanced' = (if op_state op' \<noteq> op_state op then 1 else 0) in
          if op_state op' \<in> set TERMINAL then Return Finished
          else if op_state op' = op_state op then Return (Left_Loop op' advanced')
          else drive_loop sha cfg sg wid 7 op' advanced')) (settle_exit wid)"
  have f: "run sha (node_find_tx (st_txid g)) w =
      (Inr \<lparr> ts_result = UNKNOWN, ts_block = None, ts_solid = False, ts_receipt = None \<rparr>, w)"
    using node by (simp add: find_tx_def take_fault_def healthy_def Let_def)
  have "reconcile_broadcast cfg op wid = catch (node_find_tx (st_txid g)) (on_timeout op) (\<lambda>status.
      if ts_result status \<in> {INCLUDED, PENDING} then mark_found cfg op wid g status else ?r)"
    using op(2) by (simp add: reconcile_broadcast_def load_signed_def lift_exn_def)
  then have "goes sha (pipeline_step sha cfg sg op wid, w) (?r, w)"
    using goes_catch [OF f, of "on_timeout op" "\<lambda>status. if ts_result status \<in> {INCLUDED, PENDING}
      then mark_found cfg op wid g status else ?r"] op(1) by (simp add: pipeline_step_def)
  note step = this
  have eight: "(8 :: nat) = Suc 7" by simp
  have d: "goes sha (drive sha cfg sg wid op, w)
      (?p, w)"
    unfolding drive_eq eight drive_loop.simps by (rule goes_under(1) [OF goes_under(2) [OF step]])
  show thesis
  proof (rule that [OF d])
    fix w1 t op' w2
    assume t: "solid_now (w_node w1) = Inr t" "st_expiration g + expiration_safety_seconds cfg \<le> t"
      and rb: "\<And>why ev. run sha (rebuild cfg op wid why ev) w1 = (Inr (op' why ev), w2 why ev) \<and>
          op_state (op' why ev) = SIGNING"
    obtain ev where "run sha (proof_of_death cfg g) w1 = (Inr (True, ev), w1)"
      using t by (simp add: proof_of_death_def run_pbind Let_def)
    then have "run sha ?r w1 = (Inr (op' ''expired unseen; provably dead'' ev),
        w2 ''expired unseen; provably dead'' ev)"
      using rb by (simp add: run_pbind)
    then have "run sha ?p w1 = run sha (pbind (drive_loop sha cfg sg wid 7 (op' ''expired unseen; provably dead'' ev) 1)
        (settle_exit wid)) (w2 ''expired unseen; provably dead'' ev)"
      using rb [of "''expired unseen; provably dead''" ev] op(1)
      by (simp add: run_pbind run_catch Let_def TERMINAL_def)
    then show "\<exists>why ev. run sha ?p w1 = run sha (pbind (drive_loop sha cfg sg wid 7 (op' why ev) 1)
        (settle_exit wid)) (w2 why ev)" by blast
  qed
qed

text \<open>The second worker builds, sends and parks once more.\<close>

lemma pays_again:
  assumes op: "holds_row w op" "op_state op = SIGNING" "attempts op < max_build_attempts cfg"
    and node: "healthy (w_node w)" "nd_signer (w_node w) = sg" "CHR '':'' \<notin> set (key_id sg)"
      "ref_block (w_node w) = Inr ref" "py_str (amount_units op) = Inr units"
    and g: "g = sign sha sg (unsigned_envelope sha cfg op units ref (w_clock w))"
      "dict_get (nd_txs (w_node w)) (st_txid g) = None"
    and "0 < tx_ttl_seconds cfg" "calm (w_crash w)"
  obtains op' w' where "run sha (pbind (drive_loop sha cfg sg wid 7 op 1) (settle_exit wid)) w = (Inr 1, w')"
    "wrote_row (w\<lparr>w_node := accepts (w_node w) g wid\<rparr>) w' op'" "operation_id op' = operation_id op"
    "st_txid g \<in> history (w_store w') (operation_id op)"
proof -
  have sm: "armed_count (w_crash w) SIGN_MID \<le> 0" using assms(12) by (simp add: calm_def)
  obtain op2 w2 where s2: "run sha (build_fresh sha cfg sg op wid) w = (Inr op2, w2)" "wrote_row w w2 op2"
      "same_claim op op2" "op_state op2 = SIGNED" "signed_tx op2 = Some (to_json g)"
      "st_txid g \<in> history (w_store w2) (operation_id op)"
    by (rule run_build_fresh [OF op node(4,5) sm refl, of sha sg wid]) (use g(1) in simp)
  have c2: "w_clock w2 = w_clock w" "w_node w2 = w_node w" "w_crash w2 = w_crash w"
    using s2(2) by (simp_all add: wrote_row_def)
  have exp: "w_clock w < st_expiration g" using assms by (simp add: unsigned_envelope_def Let_def)
  obtain op3 w3 where s3: "run sha (pipeline_step sha cfg sg op2 wid) w2 = (Inr op3, w3)"
      "wrote_row (w2\<lparr>w_node := accepts (w_node w2) g wid\<rparr>) w3 op3" "same_claim op2 op3" "op_state op3 = BROADCAST"
      "run sha (pipeline_step sha cfg sg op3 wid) w3 = (Inr op3, w3)"
    by (rule send_and_park [OF wrote_row_holds [OF s2(2)] s2(4,5), where sha = sha and wid = wid and cfg = cfg and sg = sg])
      (use assms exp c2 verify_sign in simp_all)
  have steps: "run sha (pipeline_step sha cfg sg op wid) w = (Inr op2, w2)"
    using s2 op(2) by (simp add: pipeline_step_def build_and_sign_def run_pbind)
  have loop: "run sha (drive_loop sha cfg sg wid 7 op 1) w = (Inr (Left_Loop op3 1), w3)"
    using drive_loop_moves [OF steps, of 6] drive_loop_moves [OF s3(1), of 5] drive_loop_parks [OF s3(5), of 4]
      op(2) s2(4) s3(4) by (simp add: TERMINAL_def eval_nat_numeral del: drive_loop.simps)
  let ?w' = "w3\<lparr>w_store := release (w_clock w3) (w_store w3) (operation_id op3) (fencing_token op3)\<rparr>"
  have rel: "wrote_row w3 ?w' (released (w_clock w3) op3)"
    using release_own wrote_row_holds [OF s3(2)] by blast
  have fin: "run sha (pbind (drive_loop sha cfg sg wid 7 op 1) (settle_exit wid)) w = (Inr 1, ?w')"
    using loop by (simp add: run_pbind settle_exit_def)
  have id: "operation_id op3 = operation_id op" "operation_id op2 = operation_id op"
    using same_claim_id [OF s2(3)] same_claim_id [OF s3(3)] by simp_all
  have wr: "wrote_row (w\<lparr>w_node := accepts (w_node w) g wid\<rparr>) ?w' (released (w_clock w3) op3)"
    using rel s2(2) s3(2) c2 id by (simp add: wrote_row_def released_def)
  have "st_txid g \<in> history (w_store w3) (operation_id op)"
    using s2(6) history_run [OF s3(1)] by blast
  then have filed: "st_txid g \<in> history (w_store ?w') (operation_id op)"
    using history_run [OF run_calls(7) [of sha "operation_id op3" "fencing_token op3" w3], of "operation_id op"] by blast
  show thesis by (rule that [OF fin wr _ filed]) (simp add: released_def id)
qed

section \<open>Blocks without reverts\<close>

definition landing :: "int \<Rightarrow> time \<Rightarrow> int \<Rightarrow> tx_record \<Rightarrow> tx_record" where
  "landing h t delay r = (if rec_included_block r = None \<and> t < st_expiration (rec_tx r) \<and> delay \<le> h - accepted_at_block r
     then r\<lparr>rec_included_block := Some h, receipt := Some ''SUCCESS''\<rparr> else r)"

lemma include_landing:
  assumes "dict_get faults ''receipt'' \<in> {None, Some []}"
  shows "\<exists>f. include_txs h t delay txs faults = (map (\<lambda>(k, r). (k, landing h t delay r)) txs, f) \<and>
    dict_get f ''receipt'' \<in> {None, Some []} \<and> dict_get f ''broadcast'' = dict_get faults ''broadcast'' \<and>
    dict_get f ''query'' = dict_get faults ''query''"
  using assms
proof (induction txs arbitrary: faults)
  case (Cons x txs)
  obtain k r where x: "x = (k, r)" by fastforce
  have "\<exists>f. include_one h t delay r faults = (landing h t delay r, f) \<and>
    dict_get f ''receipt'' \<in> {None, Some []} \<and> dict_get f ''broadcast'' = dict_get faults ''broadcast'' \<and>
    dict_get f ''query'' = dict_get faults ''query''"
  proof (rule pop_revert_none [of "(new_node 0 0 0 default_signer)\<lparr>nd_faults := faults\<rparr>"])
    fix f assume "pop_revert (nd_faults ((new_node 0 0 0 default_signer)\<lparr>nd_faults := faults\<rparr>)) = (False, f)"
      "dict_get f ''receipt'' = Some []"
      "dict_get f ''broadcast'' = dict_get (nd_faults ((new_node 0 0 0 default_signer)\<lparr>nd_faults := faults\<rparr>)) ''broadcast''"
      "dict_get f ''query'' = dict_get (nd_faults ((new_node 0 0 0 default_signer)\<lparr>nd_faults := faults\<rparr>)) ''query''"
    then show ?thesis
      using Cons.prems by (auto simp: include_one_def landing_def)
  qed (use Cons.prems in \<open>simp add: no_reverts_def\<close>)
  then obtain f where f: "include_one h t delay r faults = (landing h t delay r, f)"
    "dict_get f ''receipt'' \<in> {None, Some []}" "dict_get f ''broadcast'' = dict_get faults ''broadcast''"
    "dict_get f ''query'' = dict_get faults ''query''" by blast
  then show ?case using Cons.IH [OF f(2)] x by auto
qed simp

lemma block_lands:
  assumes "dict_get (block_time nd) (nd_head nd) = Some prev" "healthy nd" "no_reverts nd"
  obtains f where "produce_block clk nd = Inr (nd\<lparr>nd_head := nd_head nd + 1,
      block_time := dict_set (block_time nd) (nd_head nd + 1) (next_block_time clk prev),
      nd_txs := map (\<lambda>(k, r). (k, landing (nd_head nd + 1) (next_block_time clk prev) (inclusion_delay nd) r)) (nd_txs nd),
      nd_faults := f\<rparr>)" "healthy (nd\<lparr>nd_faults := f\<rparr>)" "no_reverts (nd\<lparr>nd_faults := f\<rparr>)"
proof -
  obtain f where "include_txs (nd_head nd + 1) (next_block_time clk prev) (inclusion_delay nd) (nd_txs nd) (nd_faults nd) =
      (map (\<lambda>(k, r). (k, landing (nd_head nd + 1) (next_block_time clk prev) (inclusion_delay nd) r)) (nd_txs nd), f)"
    "dict_get f ''receipt'' \<in> {None, Some []}" "dict_get f ''broadcast'' = dict_get (nd_faults nd) ''broadcast''"
    "dict_get f ''query'' = dict_get (nd_faults nd) ''query''"
    using include_landing assms(3) unfolding no_reverts_def by blast
  then show thesis
    using assms by (intro that [of f]) (simp_all add: produce_block_def healthy_def no_reverts_def Let_def)
qed

section \<open>The run\<close>

lemma only_row_claims:
  assumes "only_row ms op" "op_state op \<in> set states" "lease_free now op" "0 < limit"
  obtains ms' where "claim now ms states limit wid d = (Inr [claimed now wid d op], ms')"
    "only_row ms' (claimed now wid d op)" "history ms' = history ms"
  using assms history_cong [of "ms\<lparr>ms_ops := _\<rparr>" ms]
  by (auto simp: claim_def candidates_def only_row_def claimed_def lease_free_def Let_def split: option.splits)

lemma claims_and_drives:
  assumes "only_row (w_store w) op" "op_state op \<in> set CLAIMABLE" "lease_free (w_clock w) op" "0 < claim_batch cfg"
  obtains ms' where "only_row ms' (claimed (w_clock w) wid (lease_seconds cfg) op)"
    "goes sha (run_once sha cfg sg wid, w) (pbind (drive sha cfg sg wid (claimed (w_clock w) wid (lease_seconds cfg) op))
       (\<lambda>n. Return (0 + n)), w\<lparr>w_store := ms'\<rparr>)"
proof -
  obtain ms' where c: "claim (w_clock w) (w_store w) CLAIMABLE (claim_batch cfg) wid (lease_seconds cfg) =
      (Inr [claimed (w_clock w) wid (lease_seconds cfg) op], ms')"
      "only_row ms' (claimed (w_clock w) wid (lease_seconds cfg) op)"
    using only_row_claims [OF assms] by metis
  have "run sha (store_claim CLAIMABLE (claim_batch cfg) wid (lease_seconds cfg)) w =
      (Inr [claimed (w_clock w) wid (lease_seconds cfg) op], w\<lparr>w_store := ms'\<rparr>)"
    using c(1) by (simp add: store_claim_def lift_exn_def)
  from goes_pbind [OF this, of "\<lambda>ops. drive_all sha cfg sg wid ops 0"]
  show thesis by (intro that [OF c(2)]) (simp add: run_once_def)
qed

lemma start_goes:
  assumes "goes sha (run_once sha cfg sg wid, s_world s) (p', w')"
  obtains ts where "(sys_step sha cfg sg False)\<^sup>*\<^sup>* s \<lparr> s_world = w', s_threads = ts \<rparr>"
    "length ts = Suc (length (s_threads s))" "t_prog (ts ! length (s_threads s)) = p'"
    "\<forall>m < length (s_threads s). ts ! m = s_threads s ! m"
proof -
  let ?s = "s\<lparr>s_threads := s_threads s @ [\<lparr> t_prog = run_once sha cfg sg wid, t_own = {}, t_lookup = 0 \<rparr>]\<rparr>"
  have "goes sha (t_prog (s_threads ?s ! length (s_threads s)), s_world ?s) (p', w')" using assms by simp
  then obtain ts where ts: "(sys_step sha cfg sg False)\<^sup>*\<^sup>* ?s \<lparr> s_world = w', s_threads = ts \<rparr>"
      "length ts = length (s_threads ?s)" "t_prog (ts ! length (s_threads s)) = p'"
      "\<forall>m. m \<noteq> length (s_threads s) \<longrightarrow> ts ! m = s_threads ?s ! m"
    using goes_is_path [of sha ?s "length (s_threads s)" p' w' cfg sg] by auto
  show thesis
    by (rule that [OF sys_path_step [OF ss_start ts(1)]]) (use ts(2-4) in \<open>simp_all add: nth_append\<close>)
qed

text \<open>The envelope a worker builds for the request of the run.\<close>

definition pause_envelope :: "string \<Rightarrow> int \<Rightarrow> time \<Rightarrow> raw_data" where
  "pause_envelope addr n now =
     build_envelope default_config (new_operation 7 [] REQUESTED addr ''USDT-TRC20'' 5000000) (nat_str 5000000)
       (n, block_hash n) now (now + tx_ttl_seconds default_config)"

lemma pause_txid:
  "to_address e = addr \<Longrightarrow> ut_txid (unsigned_envelope sha default_config e (nat_str 5000000) (n, block_hash n) now) =
     compute_txid sha (pause_envelope addr n now)"
  by (simp add: unsigned_envelope_def pause_envelope_def build_envelope_def new_operation_def Let_def)

text \<open>The chain between the two pauses: the sent transaction lands at 30 s and the next block is stamped 90 s.\<close>

lemma chain_moves_on:
  assumes nd: "nd = accepts (new_node 0 0 1 sg) g wid" and exp: "st_expiration g = seconds 60"
  obtains nd1 nd2 q where "produce_block (seconds 30) nd = Inr nd1" "produce_block (seconds 90) nd1 = Inr nd2"
    "healthy nd2" "no_reverts nd2" "nd_signer nd2 = sg" "inclusion_delay nd2 = 1" "nd_head nd2 = 1002"
    "ref_block nd2 = Inr (1002, block_hash 1002)" "solid_now nd2 = Inr (seconds 90)"
    "dict_get (block_time nd2) 1002 = Some (seconds 90)"
    "nd_txs nd2 = [(st_txid g, q)]" "rec_included_block q = Some 1001"
proof -
  have fields: "nd_head nd = 1000" "block_time nd = [(1000, 0)]" "nd_txs nd = [(st_txid g, fresh_record nd g)]"
      "inclusion_delay nd = 1" "solidity_lag nd = 0" "nd_signer nd = sg" "healthy nd" "no_reverts nd"
    by (simp_all add: nd accepts_def log_it_def new_node_def healthy_def no_reverts_def fresh_record_def)
  have tip: "dict_get (block_time nd) (nd_head nd) = Some 0" by (simp add: fields)
  obtain f where f: "produce_block (seconds 30) nd = Inr (nd\<lparr>nd_head := 1001,
      block_time := [(1000, 0), (1001, seconds 30)],
      nd_txs := [(st_txid g, landing 1001 (seconds 30) 1 (fresh_record nd g))], nd_faults := f\<rparr>)"
      "healthy (nd\<lparr>nd_faults := f\<rparr>)" "no_reverts (nd\<lparr>nd_faults := f\<rparr>)"
    by (rule block_lands [OF tip fields(7,8), of "seconds 30"])
      (simp add: fields next_block_time_def seconds_def)
  let ?q = "landing 1001 (seconds 30) 1 (fresh_record nd g)"
  let ?nd1 = "nd\<lparr>nd_head := 1001, block_time := [(1000, 0), (1001, seconds 30)],
      nd_txs := [(st_txid g, ?q)], nd_faults := f\<rparr>"
  have q: "rec_included_block ?q = Some 1001"
    using exp by (simp add: landing_def fresh_record_def fields seconds_def)
  then have q': "landing 1002 (seconds 90) 1 ?q = ?q" by (simp add: landing_def [of 1002])
  have h1: "dict_get (block_time ?nd1) (nd_head ?nd1) = Some (seconds 30)" "healthy ?nd1" "no_reverts ?nd1"
    using f(2,3) by (simp_all add: healthy_def no_reverts_def)
  obtain f' where f': "produce_block (seconds 90) ?nd1 = Inr (?nd1\<lparr>nd_head := 1002,
      block_time := [(1000, 0), (1001, seconds 30), (1002, seconds 90)], nd_txs := [(st_txid g, ?q)], nd_faults := f'\<rparr>)"
      "healthy (?nd1\<lparr>nd_faults := f'\<rparr>)" "no_reverts (?nd1\<lparr>nd_faults := f'\<rparr>)"
    by (rule block_lands [OF h1, of "seconds 90"])
      (use q' in \<open>simp add: fields next_block_time_def seconds_def\<close>)
  show thesis
    by (rule that [OF f(1) f'(1), of ?q]) (use q f'(2,3) in
      \<open>simp_all add: fields healthy_def no_reverts_def ref_block_def solid_now_def heights_def solid_block_def\<close>)
qed

text \<open>Both workers paused: the first before its send, the second after its lookup.\<close>

definition resumes :: "(bytes \<Rightarrow> bytes) \<Rightarrow> config \<Rightarrow> mock_signer \<Rightarrow> string \<Rightarrow> operation \<Rightarrow> signedtx \<Rightarrow> int prog \<Rightarrow> bool" where
  "resumes sha cfg sg wid op g p \<longleftrightarrow> (\<forall>w1 t op' w2. solid_now (w_node w1) = Inr t \<longrightarrow>
     st_expiration g + expiration_safety_seconds cfg \<le> t \<longrightarrow>
     (\<forall>why ev. run sha (rebuild cfg op wid why ev) w1 = (Inr (op' why ev), w2 why ev) \<and>
        op_state (op' why ev) = SIGNING) \<longrightarrow>
     (\<exists>why ev. run sha p w1 =
        run sha (pbind (drive_loop sha cfg sg wid 7 (op' why ev) 1) (settle_exit wid)) (w2 why ev)))"

abbreviation pause_path :: "(bytes \<Rightarrow> bytes) \<Rightarrow> system \<Rightarrow> system \<Rightarrow> bool" where
  "pause_path sha \<equiv> (sys_step sha default_config default_signer False)\<^sup>*\<^sup>*"

lemma first_paused:
  assumes "is_valid sha addr"
  obtains s op g k n e where "pause_path sha (initial_system 0 0 1 default_signer) s"
    "w_clock (s_world s) = 0" "w_node (s_world s) = new_node 0 0 1 default_signer"
    "w_crash (s_world s) = new_crash_switch" "only_row (w_store (s_world s)) op" "operation_id op = 7"
    "op_state op = BROADCASTING" "attempts op = 0" "amount_units op = 5000000" "signed_tx op = Some (to_json g)"
    "lease_expires_at op = Some (seconds 30)" "st_txid g \<in> history (w_store (s_world s)) 7"
    "n < length (s_threads s)" "t_prog (s_threads s ! n) = Node_Broadcast g (Some ''a'') k"
    "g = sign sha default_signer (unsigned_envelope sha default_config e (nat_str 5000000) (1000, block_hash 1000) 0)"
    "to_address e = addr" "to_address op = addr"
proof -
  let ?cfg = default_config and ?sg = default_signer
  let ?op = "new_operation 7 [] REQUESTED addr ''USDT-TRC20'' 5000000"
  obtain s1 where s1: "sys_step sha ?cfg ?sg False (initial_system 0 0 1 ?sg) s1"
      "s_world s1 = submitted 0 0 1 ?sg ?op"
    using submit_is_step by blast
  have w: "w_clock (s_world s1) = 0" "w_node (s_world s1) = new_node 0 0 1 ?sg" "w_crash (s_world s1) = new_crash_switch"
    by (simp_all add: s1(2) submitted_def initial_system_def Let_def)
  let ?cop = "claimed 0 ''a'' (lease_seconds ?cfg) (stamped 0 ?op)"
  have row: "only_row (w_store (s_world s1)) (stamped 0 ?op)" unfolding s1(2) by (rule submitted_only_row)
  obtain ms where ms: "only_row ms ?cop" "goes sha (run_once sha ?cfg ?sg ''a'', s_world s1)
      (pbind (drive sha ?cfg ?sg ''a'' ?cop) (\<lambda>n. Return (0 + n)), (s_world s1)\<lparr>w_store := ms\<rparr>)"
    by (rule claims_and_drives [OF row, of ?cfg "''a''" sha ?sg])
      (use w(1) in \<open>simp_all add: stamped_def new_operation_def CLAIMABLE_def lease_free_def default_config_def\<close>)
  let ?w = "(s_world s1)\<lparr>w_store := ms\<rparr>"
  define g where "g = sign sha ?sg (unsigned_envelope sha ?cfg ?cop (nat_str 5000000) (1000, block_hash 1000) 0)"
  have len: "length (nat_str 5000000) = 7" by (simp add: nat_str.simps)
  have pre: "op_state ?cop = REQUESTED" "payable sha ?cfg ?cop" "ref_block (w_node ?w) = Inr (1000, block_hash 1000)"
      "py_str (amount_units ?cop) = Inr (nat_str 5000000)" "0 < tx_ttl_seconds ?cfg" "calm (w_crash ?w)"
      "operation_id ?cop = 7"
    using assms w len by (simp_all add: claimed_def stamped_def new_operation_def payable_def default_config_def
      ref_block_def new_node_def heights_def solid_block_def py_str_def int_str_def max_str_digits_def seconds_def
      calm_def armed_count_def new_crash_switch_def)
  obtain op' w' k where d: "goes sha (drive sha ?cfg ?sg ''a'' ?cop, ?w) (Node_Broadcast g (Some ''a'') k, w')"
    "wrote_row ?w w' op'" "same_claim ?cop op'" "op_state op' = BROADCASTING" "signed_tx op' = Some (to_json g)"
    "attempts op' = attempts ?cop" "lease_expires_at op' = Some (w_clock ?w + lease_seconds ?cfg)"
    "st_txid g \<in> history (w_store w') (operation_id ?cop)"
    by (rule drive_paused [OF only_row_holds pre(1-4) _ pre(5,6), of g ?sg "''a''"])
      (use ms(1) w(1) g_def in simp_all)
  obtain k' where "goes sha (run_once sha ?cfg ?sg ''a'', s_world s1) (Node_Broadcast g (Some ''a'') k', w')"
    using goes_trans [OF ms(2) goes_under(1) [OF d(1)]] by auto
  then obtain ts where ts: "pause_path sha s1 \<lparr> s_world = w', s_threads = ts \<rparr>"
      "length ts = Suc (length (s_threads s1))" "t_prog (ts ! length (s_threads s1)) = Node_Broadcast g (Some ''a'') k'"
    by (rule start_goes)
  have id: "operation_id op' = 7" "amount_units op' = 5000000" "to_address op' = addr"
    using d(3) pre(7) by (simp_all add: same_claim_def intake_part_def claimed_def stamped_def new_operation_def)
  show thesis
  proof (rule that [OF sys_path_step [OF s1(1) ts(1)], where g = g and op = op' and k = k' and e = ?cop
        and n = "length (s_threads s1)"])
    show "only_row (w_store (s_world \<lparr> s_world = w', s_threads = ts \<rparr>)) op'"
      using only_row_wrote [of ?w ?cop w' op'] ms(1) d(2) id(1) pre(7) by simp
    show "attempts op' = 0" "to_address ?cop = addr" using d(6) by (simp_all add: claimed_def stamped_def new_operation_def)
  qed (use d w id ts g_def pre(7) in \<open>simp_all add: wrote_row_def default_config_def\<close>)
qed

lemma both_paused:
  assumes "is_valid sha addr"
  obtains s op g k p n m e where "pause_path sha (initial_system 0 0 1 default_signer) s"
    "w_clock (s_world s) = seconds 30" "w_node (s_world s) = new_node 0 0 1 default_signer"
    "w_crash (s_world s) = new_crash_switch" "only_row (w_store (s_world s)) op" "operation_id op = 7"
    "op_state op = BROADCASTING" "attempts op = 0" "amount_units op = 5000000"
    "st_txid g \<in> history (w_store (s_world s)) 7" "n < length (s_threads s)" "m < length (s_threads s)" "n \<noteq> m"
    "t_prog (s_threads s ! n) = Node_Broadcast g (Some ''a'') k"
    "t_prog (s_threads s ! m) = pbind p (\<lambda>n. Return (0 + n))"
    "resumes sha default_config default_signer ''b'' op g p"
    "g = sign sha default_signer (unsigned_envelope sha default_config e (nat_str 5000000) (1000, block_hash 1000) 0)"
    "to_address e = addr" "to_address op = addr"
proof -
  let ?cfg = default_config and ?sg = default_signer
  obtain s op g k n e where s: "pause_path sha (initial_system 0 0 1 ?sg) s"
    "w_clock (s_world s) = 0" "w_node (s_world s) = new_node 0 0 1 ?sg"
    "w_crash (s_world s) = new_crash_switch" "only_row (w_store (s_world s)) op" "operation_id op = 7"
    "op_state op = BROADCASTING" "attempts op = 0" "amount_units op = 5000000" "signed_tx op = Some (to_json g)"
    "lease_expires_at op = Some (seconds 30)" "st_txid g \<in> history (w_store (s_world s)) 7"
    "n < length (s_threads s)" "t_prog (s_threads s ! n) = Node_Broadcast g (Some ''a'') k"
    "g = sign sha ?sg (unsigned_envelope sha ?cfg e (nat_str 5000000) (1000, block_hash 1000) 0)"
    "to_address e = addr" "to_address op = addr"
    by (rule first_paused [OF assms])
  let ?w = "(s_world s)\<lparr>w_clock := seconds 30\<rparr>"
  let ?s1 = "s\<lparr>s_world := ?w\<rparr>"
  let ?op = "claimed (seconds 30) ''b'' (lease_seconds ?cfg) op"
  have c: "only_row (w_store ?w) op" "op_state op \<in> set CLAIMABLE" "lease_free (w_clock ?w) op" "0 < claim_batch ?cfg"
    using s(5,7,11) by (simp_all add: CLAIMABLE_def lease_free_def default_config_def)
  obtain ms where ms: "only_row ms ?op" "goes sha (run_once sha ?cfg ?sg ''b'', ?w)
      (pbind (drive sha ?cfg ?sg ''b'' ?op) (\<lambda>n. Return (0 + n)), ?w\<lparr>w_store := ms\<rparr>)"
    by (rule claims_and_drives [OF c, of "''b''" sha ?sg]) simp
  have l: "op_state ?op = BROADCASTING" "signed_tx ?op = Some (to_json g)" "healthy (w_node (?w\<lparr>w_store := ms\<rparr>))"
      "dict_get (nd_txs (w_node (?w\<lparr>w_store := ms\<rparr>))) (st_txid g) = None"
    using s by (simp_all add: claimed_def healthy_def new_node_def)
  obtain p where p: "goes sha (drive sha ?cfg ?sg ''b'' ?op, ?w\<lparr>w_store := ms\<rparr>) (p, ?w\<lparr>w_store := ms\<rparr>)"
      "resumes sha ?cfg ?sg ''b'' ?op g p"
    unfolding resumes_def by (rule lookup_paused [OF l, of sha ?cfg ?sg "''b''"]) blast
  have "goes sha (run_once sha ?cfg ?sg ''b'', s_world ?s1) (pbind p (\<lambda>n. Return (0 + n)), ?w\<lparr>w_store := ms\<rparr>)"
    using goes_trans [OF ms(2) goes_under(1) [OF p(1)]] by simp
  then obtain ts where ts: "pause_path sha ?s1 \<lparr> s_world = ?w\<lparr>w_store := ms\<rparr>, s_threads = ts \<rparr>"
      "length ts = Suc (length (s_threads ?s1))" "t_prog (ts ! length (s_threads ?s1)) = pbind p (\<lambda>n. Return (0 + n))"
      "\<forall>m < length (s_threads ?s1). ts ! m = s_threads ?s1 ! m"
    by (rule start_goes)
  have path: "pause_path sha s \<lparr> s_world = ?w\<lparr>w_store := ms\<rparr>, s_threads = ts \<rparr>"
    using sys_path_step [OF ss_clock ts(1)] .
  have "st_txid g \<in> history ms 7" using history_path [OF path, of 7] s(12) by auto
  then show thesis
    by (intro that [OF rtranclp_trans [OF s(1) path], where op = ?op and g = g and k = k and p = p and n = n
        and m = "length (s_threads s)" and e = e]) (use s ms(1) ts(2-4) p(2) in \<open>simp_all add: claimed_def\<close>)
qed

text \<open>The first worker sends, its transaction lands, and the chain passes the deadline.\<close>

lemma landed_meanwhile:
  assumes "is_valid sha addr"
  obtains s op g p m e q where "pause_path sha (initial_system 0 0 1 default_signer) s"
    "w_clock (s_world s) = seconds 90" "w_crash (s_world s) = new_crash_switch"
    "healthy (w_node (s_world s))" "no_reverts (w_node (s_world s))" "nd_signer (w_node (s_world s)) = default_signer"
    "inclusion_delay (w_node (s_world s)) = 1" "nd_head (w_node (s_world s)) = 1002"
    "ref_block (w_node (s_world s)) = Inr (1002, block_hash 1002)" "solid_now (w_node (s_world s)) = Inr (seconds 90)"
    "dict_get (block_time (w_node (s_world s))) 1002 = Some (seconds 90)"
    "nd_txs (w_node (s_world s)) = [(st_txid g, q)]" "rec_included_block q = Some 1001"
    "only_row (w_store (s_world s)) op" "operation_id op = 7" "op_state op = BROADCASTING" "attempts op = 0"
    "amount_units op = 5000000" "st_txid g \<in> history (w_store (s_world s)) 7" "m < length (s_threads s)"
    "t_prog (s_threads s ! m) = pbind p (\<lambda>n. Return (0 + n))" "resumes sha default_config default_signer ''b'' op g p"
    "g = sign sha default_signer (unsigned_envelope sha default_config e (nat_str 5000000) (1000, block_hash 1000) 0)"
    "to_address e = addr" "to_address op = addr"
proof -
  let ?cfg = default_config and ?sg = default_signer
  obtain s op g k p n m e where s: "pause_path sha (initial_system 0 0 1 ?sg) s"
    "w_clock (s_world s) = seconds 30" "w_node (s_world s) = new_node 0 0 1 ?sg"
    "w_crash (s_world s) = new_crash_switch" "only_row (w_store (s_world s)) op" "operation_id op = 7"
    "op_state op = BROADCASTING" "attempts op = 0" "amount_units op = 5000000"
    "st_txid g \<in> history (w_store (s_world s)) 7" "n < length (s_threads s)" "m < length (s_threads s)" "n \<noteq> m"
    "t_prog (s_threads s ! n) = Node_Broadcast g (Some ''a'') k"
    "t_prog (s_threads s ! m) = pbind p (\<lambda>n. Return (0 + n))" "resumes sha ?cfg ?sg ''b'' op g p"
    "g = sign sha ?sg (unsigned_envelope sha ?cfg e (nat_str 5000000) (1000, block_hash 1000) 0)"
    "to_address e = addr" "to_address op = addr"
    by (rule both_paused [OF assms])
  let ?nd = "accepts (new_node 0 0 1 ?sg) g ''a''"
  have exp: "st_expiration g = seconds 60"
    by (simp add: s(17) unsigned_envelope_def Let_def default_config_def)
  have "broadcast sha (seconds 30) (new_node 0 0 1 ?sg) g (Some ''a'') =
      (Inr \<lparr> br_code = code_value SUCCESS, br_message = [] \<rparr>, ?nd)"
    by (rule healthy_broadcast) (use exp verify_sign [of ?sg] sample_settings(3) in
      \<open>simp_all add: healthy_def new_node_def seconds_def s(17)\<close>)
  then have "\<exists>p'. step1 sha (t_prog (s_threads s ! n)) (s_world s) = Some (p', (s_world s)\<lparr>w_node := ?nd\<rparr>)"
    using s(2,3,14) by (simp add: step1_def)
  then obtain p' where "goes sha (t_prog (s_threads s ! n), s_world s) (p', (s_world s)\<lparr>w_node := ?nd\<rparr>)"
    using goes_step1 goes_refl by blast
  then obtain ts where ts: "pause_path sha s \<lparr> s_world = (s_world s)\<lparr>w_node := ?nd\<rparr>, s_threads = ts \<rparr>"
      "length ts = length (s_threads s)" "\<forall>m. m \<noteq> n \<longrightarrow> ts ! m = s_threads s ! m"
    using goes_is_path [OF _ s(11)] by metis
  obtain nd1 nd2 q where nd: "produce_block (seconds 30) ?nd = Inr nd1" "produce_block (seconds 90) nd1 = Inr nd2"
    "healthy nd2" "no_reverts nd2" "nd_signer nd2 = ?sg" "inclusion_delay nd2 = 1" "nd_head nd2 = 1002"
    "ref_block nd2 = Inr (1002, block_hash 1002)" "solid_now nd2 = Inr (seconds 90)"
    "dict_get (block_time nd2) 1002 = Some (seconds 90)"
    "nd_txs nd2 = [(st_txid g, q)]" "rec_included_block q = Some 1001"
    by (rule chain_moves_on [OF refl exp])
  let ?s1 = "\<lparr> s_world = (s_world s)\<lparr>w_node := ?nd\<rparr>, s_threads = ts \<rparr>"
  let ?s2 = "\<lparr> s_world = (s_world s)\<lparr>w_node := nd1\<rparr>, s_threads = ts \<rparr>"
  let ?s3 = "\<lparr> s_world = (s_world s)\<lparr>w_node := nd1, w_clock := seconds 90\<rparr>, s_threads = ts \<rparr>"
  let ?s4 = "\<lparr> s_world = (s_world s)\<lparr>w_clock := seconds 90, w_node := nd2\<rparr>, s_threads = ts \<rparr>"
  have "sys_step sha ?cfg ?sg False ?s1 ?s2" using ss_block [of ?s1 nd1] nd(1) s(2) by simp
  moreover have "sys_step sha ?cfg ?sg False ?s2 ?s3" using ss_clock [of sha ?cfg ?sg False ?s2 "seconds 90"] by simp
  moreover have "sys_step sha ?cfg ?sg False ?s3 ?s4" using ss_block [of ?s3 nd2] nd(2) by simp
  ultimately have path: "pause_path sha s ?s4" using ts(1) by (meson rtranclp.rtrancl_into_rtrancl)
  show thesis
    by (intro that [OF rtranclp_trans [OF s(1) path], where op = op and g = g and p = p and m = m and e = e and q = q])
      (use s nd ts(2,3) in simp_all)
qed

text \<open>The second worker takes the transaction for dead and builds another one.\<close>

lemma run_rebuild:
  assumes "holds_row w op" "op_state op = BROADCASTING"
  obtains op' w' where
    "\<And>why ev. run sha (rebuild cfg op wid why ev) w = (Inr (op' why ev), w' why ev) \<and>
       wrote_row w (w' why ev) (op' why ev) \<and> same_claim op (op' why ev) \<and>
       op_state (op' why ev) = SIGNING \<and> attempts (op' why ev) = attempts op + 1"
proof -
  have "\<exists>op' w'. run sha (rebuild cfg op wid why ev) w = (Inr op', w') \<and> wrote_row w w' op' \<and>
      same_claim op op' \<and> op_state op' = SIGNING \<and> attempts op' = attempts op + 1" for why ev
  proof -
    let ?sets = "[Set_attempts (attempts op + 1), Set_last_error (Some why), Set_signed_tx None,
        Set_unsigned_tx None, Set_txid None, Set_tx_expiration None]"
    let ?d = "[(''retired_txid'', opt_str (op_txid op)), (''reason'', PStr why), (''expiry_evidence'', PDict ev)]"
    let ?op = "written (w_clock w) SIGNING ?sets (Some (lease_seconds cfg)) op"
    obtain w' where "run sha (p_cas cfg op SIGNING wid ?sets ?d) w = (Inr ?op, w')" "wrote_row w w' ?op" "same_claim op ?op"
      using run_p_cas [OF assms(1), of SIGNING ?sets sha cfg wid ?d] assms(2) by (auto simp: handler_sets)
    moreover have "op_state ?op = SIGNING" "attempts ?op = attempts op + 1" by (simp_all add: written_def Let_def)
    ultimately show ?thesis unfolding rebuild_def by blast
  qed
  then show thesis using that by metis
qed

lemma second_payment:
  assumes row: "only_row (w_store w) op" "op_state op = BROADCASTING" "attempts op = 0" "amount_units op = 5000000"
    and node: "healthy (w_node w)" "nd_signer (w_node w) = default_signer" "ref_block (w_node w) = Inr ref"
      "solid_now (w_node w) = Inr t" "st_expiration g + expiration_safety_seconds default_config \<le> t"
    and p: "resumes sha default_config default_signer ''b'' op g p" and calm: "calm (w_crash w)"
    and other: "\<And>e. to_address e = to_address op \<Longrightarrow> dict_get (nd_txs (w_node w))
        (ut_txid (unsigned_envelope sha default_config e (nat_str 5000000) ref (w_clock w))) = None"
  obtains op' w' g' e where "run sha (pbind p (\<lambda>n. Return (0 + n))) w = (Inr 1, w')"
    "wrote_row (w\<lparr>w_node := accepts (w_node w) g' ''b''\<rparr>) w' op'" "operation_id op' = operation_id op"
    "st_txid g' \<in> history (w_store w') (operation_id op)"
    "g' = sign sha default_signer (unsigned_envelope sha default_config e (nat_str 5000000) ref (w_clock w))"
    "to_address e = to_address op"
proof -
  let ?cfg = default_config and ?sg = default_signer
  obtain op1 w1 where rb: "\<And>why ev. run sha (rebuild ?cfg op ''b'' why ev) w = (Inr (op1 why ev), w1 why ev) \<and>
       wrote_row w (w1 why ev) (op1 why ev) \<and> same_claim op (op1 why ev) \<and>
       op_state (op1 why ev) = SIGNING \<and> attempts (op1 why ev) = attempts op + 1"
    by (rule run_rebuild [OF only_row_holds [OF row(1)] row(2)]) blast
  then obtain why ev where r: "run sha p w =
      run sha (pbind (drive_loop sha ?cfg ?sg ''b'' 7 (op1 why ev) 1) (settle_exit ''b'')) (w1 why ev)"
    using p [unfolded resumes_def, rule_format, OF node(4,5), of op1 w1] by blast
  let ?op = "op1 why ev" and ?w = "w1 why ev"
  have b: "wrote_row w ?w ?op" "same_claim op ?op" "op_state ?op = SIGNING" "attempts ?op = 1" using rb row(3) by simp_all
  have c: "w_clock ?w = w_clock w" "w_node ?w = w_node w" "w_crash ?w = w_crash w" using b(1) by (simp_all add: wrote_row_def)
  have len: "length (nat_str 5000000) = 7" by (simp add: nat_str.simps)
  have amt: "amount_units ?op = 5000000" "to_address ?op = to_address op" using b(2) row(4) by (simp_all add: same_claim_def intake_part_def)
  then have units: "py_str (amount_units ?op) = Inr (nat_str 5000000)" "attempts ?op < max_build_attempts ?cfg"
      "0 < tx_ttl_seconds ?cfg"
    using len b(4) by (simp_all add: py_str_def int_str_def max_str_digits_def default_config_def seconds_def)
  define g' where "g' = sign sha ?sg (unsigned_envelope sha ?cfg ?op (nat_str 5000000) ref (w_clock w))"
  have pre: "holds_row ?w ?op" "healthy (w_node ?w)" "nd_signer (w_node ?w) = ?sg" "ref_block (w_node ?w) = Inr ref"
      "dict_get (nd_txs (w_node ?w)) (st_txid g') = None" "calm (w_crash ?w)"
    using node c calm wrote_row_holds [OF b(1)] other [OF amt(2)] by (simp_all add: g'_def)
  obtain op' w' where d: "run sha (pbind (drive_loop sha ?cfg ?sg ''b'' 7 ?op 1) (settle_exit ''b'')) ?w = (Inr 1, w')"
    "wrote_row (?w\<lparr>w_node := accepts (w_node ?w) g' ''b''\<rparr>) w' op'" "operation_id op' = operation_id ?op"
    "st_txid g' \<in> history (w_store w') (operation_id ?op)"
    by (rule pays_again [OF pre(1) b(3) units(2) pre(2,3) sample_settings(3) pre(4) units(1) _ pre(5) units(3) pre(6)])
      (simp add: g'_def c)
  have id: "operation_id ?op = operation_id op" using same_claim_id [OF b(2)] .
  show thesis
  proof (rule that [of w' g' op' ?op])
    show "run sha (pbind p (\<lambda>n. Return (0 + n))) w = (Inr 1, w')" using r d(1) by (simp add: run_pbind)
    show "wrote_row (w\<lparr>w_node := accepts (w_node w) g' ''b''\<rparr>) w' op'"
      using d(2,3) b(1) c id by (simp add: wrote_row_def)
  qed (use d(3,4) id g'_def amt(2) in simp_all)
qed

section \<open>Properties\<close>

text \<open>The next block takes up the second transaction beside the first.\<close>

lemma both_included:
  assumes nd: "healthy nd" "no_reverts nd" "nd_head nd = 1002" "inclusion_delay nd = 1"
      "dict_get (block_time nd) 1002 = Some (seconds 90)" "nd_txs nd = [(st_txid g, q)]" "rec_included_block q = Some b"
    and g': "st_txid g' \<noteq> st_txid g" "st_expiration g' = seconds 150"
  obtains nd' where "produce_block (seconds 90) (accepts nd g' wid) = Inr nd'" "{st_txid g, st_txid g'} \<subseteq> included_txids nd'"
proof -
  let ?nd = "accepts nd g' wid"
  have f: "nd_txs ?nd = [(st_txid g, q), (st_txid g', fresh_record nd g')]" "nd_head ?nd = 1002" "inclusion_delay ?nd = 1"
    using nd g'(1) by (simp_all add: accepts_def log_it_def)
  have tip: "dict_get (block_time ?nd) (nd_head ?nd) = Some (seconds 90)" "healthy ?nd" "no_reverts ?nd"
    using nd healthy_accepts [OF nd(1)] by (simp_all add: accepts_def log_it_def no_reverts_def)
  show thesis
  proof (rule block_lands [OF tip, of "seconds 90"])
    fix fl assume "produce_block (seconds 90) ?nd = Inr (?nd\<lparr>nd_head := nd_head ?nd + 1,
      block_time := dict_set (block_time ?nd) (nd_head ?nd + 1) (next_block_time (seconds 90) (seconds 90)),
      nd_txs := map (\<lambda>(k, r). (k, landing (nd_head ?nd + 1) (next_block_time (seconds 90) (seconds 90)) (inclusion_delay ?nd) r)) (nd_txs ?nd),
      nd_faults := fl\<rparr>)"
    then show thesis
      by (rule that) (use nd(3,7) g'(2) in \<open>simp add: included_txids_def f landing_def fresh_record_def
        next_block_time_def seconds_def milliseconds_def\<close>)
  qed
qed


text \<open>A digest of 32 bytes that tells the second envelope apart.\<close>

definition pause_sha :: "bytes \<Rightarrow> bytes" where
  "pause_sha bs = replicate 31 7 @ [if bs = txid_blob (pause_envelope sample_address 1002 (seconds 90)) then 1 else 0]"


end
