(* ===== verification/Recovery.thy ===== *)
theory Recovery
  imports Overdue Stale_Lookup
begin

text \<open>
  Nothing stays stuck.  After any run of the system, with any number of workers dead in any place, a
  single worker brings every operation to an end: a round of recovery waits until every deadline is
  past and the chain has solidified beyond it, and then makes one pass.  Each round lowers the sum
  of the ranks.
\<close>

section \<open>Blocks that come too late for every envelope\<close>

lemma include_txs_faults:
  assumes "c \<noteq> ''receipt''" "include_txs h t d txs f = (txs', f')"
  shows "dict_get f' c = dict_get f c"
  using assms(2)
proof (induction txs arbitrary: f txs')
  case (Cons x txs)
  obtain k r where x: "x = (k, r)" by fastforce
  obtain r1 f1 where one: "include_one h t d r f = (r1, f1)" by fastforce
  then have "dict_get f1 c = dict_get f c"
    using assms(1) by (auto simp: include_one_def pop_revert_def setdefault_def Let_def
        split: if_splits prod.splits option.splits list.splits fault.splits)
  then show ?case using Cons x one by (auto split: prod.splits)
qed simp

lemma healthy_produce:
  assumes "healthy nd" "produce_block clk nd = Inr nd'"
  shows "healthy nd'"
proof -
  obtain h t txs f where f: "include_txs h t (inclusion_delay nd) (nd_txs nd) (nd_faults nd) = (txs, f)" "nd_faults nd' = f"
    using assms(2) by (auto simp: produce_block_def Let_def split: option.splits prod.splits)
  have "dict_get f ''broadcast'' = dict_get (nd_faults nd) ''broadcast''" "dict_get f ''query'' = dict_get (nd_faults nd) ''query''"
    using include_txs_faults [OF _ f(1)] by simp_all
  then show ?thesis using assms(1) f(2) by (simp add: healthy_def)
qed

text \<open>A block stamped at or past every expiration the node holds takes nothing up.\<close>

lemma late_block:
  assumes wf: "node_wf nd" and exp: "\<And>k q. dict_get (nd_txs nd) k = Some q \<Longrightarrow> st_expiration (rec_tx q) \<le> t"
  obtains nd' where "produce_block t nd = Inr nd'" "node_wf nd'" "nd_head nd' = nd_head nd + 1"
    "solidity_lag nd' = solidity_lag nd" "dict_get (nd_txs nd') = dict_get (nd_txs nd)"
    "\<forall>h x. nd_head nd < h \<and> dict_get (block_time nd') h = Some x \<longrightarrow> t \<le> x"
    "\<forall>h. h \<le> nd_head nd \<longrightarrow> dict_get (block_time nd') h = dict_get (block_time nd) h"
proof -
  have ch: "chain_wf nd" using wf by (simp add: node_wf_def)
  obtain nd' where p: "produce_block t nd = Inr nd'" using produce_block_total [OF ch] by blast
  obtain x where nd': "nd_head nd' = nd_head nd + 1" "solidity_lag nd' = solidity_lag nd"
      "block_time nd' = dict_set (block_time nd) (nd_head nd + 1) x" "t \<le> x"
    using p by (auto simp: produce_block_def next_block_time_def milliseconds_def Let_def split: option.splits prod.splits)
  have "h \<notin> set (heights nd)" if "nd_head nd < h" for h using chain_wf_heights [OF ch] that by auto
  then have none: "dict_get (block_time nd) h = None" if "nd_head nd < h" for h
    using that dict_get_None_iff [of "block_time nd" h] by (simp add: heights_def)
  have ht: "head_time nd' = x" by (simp add: head_time_def nd')
  have "dict_get (nd_txs nd') k = dict_get (nd_txs nd) k" for k
    using produce_block_get [OF p ch, of k] exp [of k] nd'(4) unfolding ht
    by (cases "dict_get (nd_txs nd) k") (auto simp: option_rel_Some1 record_advances_def)
  then have txs: "dict_get (nd_txs nd') = dict_get (nd_txs nd)" ..
  show thesis
  proof (rule that [OF p node_wf_produce_block [OF wf p] nd'(1,2) txs])
    show "\<forall>h y. nd_head nd < h \<and> dict_get (block_time nd') h = Some y \<longrightarrow> t \<le> y"
      using none nd'(3,4) by auto
    show "\<forall>h. h \<le> nd_head nd \<longrightarrow> dict_get (block_time nd') h = dict_get (block_time nd) h"
      using nd'(3) by simp
  qed
qed

lemma late_blocks:
  assumes wf: "node_wf nd" "healthy nd"
    and exp: "\<And>k q. dict_get (nd_txs nd) k = Some q \<Longrightarrow> st_expiration (rec_tx q) \<le> t"
  shows "\<exists>nd'. produce_blocks (\<lambda>_. t) n nd = Inr nd' \<and> node_wf nd' \<and> healthy nd' \<and>
    nd_head nd' = nd_head nd + int n \<and> solidity_lag nd' = solidity_lag nd \<and>
    dict_get (nd_txs nd') = dict_get (nd_txs nd) \<and>
    (\<forall>h x. nd_head nd < h \<and> dict_get (block_time nd') h = Some x \<longrightarrow> t \<le> x)"
proof (induction n)
  case 0
  have "\<not> nd_head nd < h" if "dict_get (block_time nd) h = Some x" for h x
    using that wf(1) chain_wf_heights [of nd] dict_get_mem [OF that]
    by (force simp: node_wf_def heights_def)
  then show ?case using wf by auto
next
  case (Suc n)
  then obtain nd1 where 1: "produce_blocks (\<lambda>_. t) n nd = Inr nd1" "node_wf nd1" "healthy nd1"
      "nd_head nd1 = nd_head nd + int n" "solidity_lag nd1 = solidity_lag nd" "dict_get (nd_txs nd1) = dict_get (nd_txs nd)"
      "\<forall>h x. nd_head nd < h \<and> dict_get (block_time nd1) h = Some x \<longrightarrow> t \<le> x" by blast
  obtain nd2 where 2: "produce_block t nd1 = Inr nd2" "node_wf nd2" "nd_head nd2 = nd_head nd1 + 1"
      "solidity_lag nd2 = solidity_lag nd1" "dict_get (nd_txs nd2) = dict_get (nd_txs nd1)"
      "\<forall>h x. nd_head nd1 < h \<and> dict_get (block_time nd2) h = Some x \<longrightarrow> t \<le> x"
      "\<forall>h. h \<le> nd_head nd1 \<longrightarrow> dict_get (block_time nd2) h = dict_get (block_time nd1) h"
    by (rule late_block [OF 1(2), of t]) (use 1(6) exp in simp)
  have "\<forall>h x. nd_head nd < h \<and> dict_get (block_time nd2) h = Some x \<longrightarrow> t \<le> x"
    using 1(7) 2(6,7) by (metis not_le)
  then show ?case
    using 1 2 healthy_produce [OF 1(3) 2(1)] by (simp add: produce_blocks_snoc del: produce_blocks.simps)
qed

text \<open>Enough of them, and the solid tip is past the time.\<close>

lemma late_solid:
  assumes wf: "chain_wf nd" and lag: "base < solid_block nd" "base < nd_head nd"
    and late: "\<And>h x. base < h \<Longrightarrow> dict_get (block_time nd) h = Some x \<Longrightarrow> t \<le> x"
  shows "\<exists>s. solid_now nd = Inr s \<and> t \<le> s"
proof -
  have h: "set (heights nd) = {hd (heights nd)..nd_head nd}" "heights nd \<noteq> []"
    using chain_wf_heights [OF wf] wf by (simp_all add: chain_wf_def)
  let ?below = "filter (\<lambda>h. h \<le> solid_block nd) (heights nd)"
  let ?m = "if ?below = [] then Min (set (heights nd)) else Max (set ?below)"
  have m: "base < ?m \<and> ?m \<in> set (heights nd)"
  proof (cases "hd (heights nd) \<le> base")
    case True
    then have b: "base + 1 \<in> set ?below" using h(1) lag by simp
    then have "?below \<noteq> []" by (metis empty_iff empty_set)
    moreover have "Max (set ?below) \<in> set ?below" using b by (intro Max_in) (auto simp del: set_filter)
    ultimately show ?thesis using Max_ge [OF _ b] by auto
  next
    case False
    have "Max (set ?below) \<in> set ?below" if "?below \<noteq> []"
      using Max_in [of "set ?below"] that by (simp only: List.finite_set set_empty simp_thms)
    then have "?m \<in> set (heights nd)" using h(2) Min_in [of "set (heights nd)"] by auto
    then show ?thesis using False h(1) by auto
  qed
  then obtain x where x: "dict_get (block_time nd) ?m = Some x"
    using dict_get_None_iff [of "block_time nd" ?m] by (auto simp: heights_def)
  then have "solid_now nd = Inr x" using h(2) by (simp add: solid_now_def Let_def)
  then show ?thesis using late [OF conjunct1 [OF m] x] by blast
qed

section \<open>Rounds\<close>

text \<open>The moments a recovery has to wait for: the leases, the envelopes of the rows (and the margin past
  them) and the transactions the node holds.\<close>

definition row_deadlines :: "config \<Rightarrow> operation \<Rightarrow> time list" where
  "row_deadlines cfg r = (case lease_expires_at r of None \<Rightarrow> [] | Some l \<Rightarrow> [l]) @
     (case signed_tx r of None \<Rightarrow> [] | Some d \<Rightarrow> (case from_json d of Inl e \<Rightarrow> []
        | Inr g \<Rightarrow> [st_expiration g, st_expiration g + expiration_safety_seconds cfg]))"

definition late :: "config \<Rightarrow> time \<Rightarrow> world \<Rightarrow> bool" where
  "late cfg t w \<longleftrightarrow> (\<forall>d \<in> set (concat (map (row_deadlines cfg) (all_operations (w_store w))) @
     map (\<lambda>(k, q). st_expiration (rec_tx q)) (nd_txs (w_node w))). d \<le> t)"

lemma late_exists: "\<exists>t. late cfg t w"
proof -
  have "\<exists>t. \<forall>d \<in> set ds. d \<le> t" for ds :: "int list"
    by (rule exI [of _ "Max (insert 0 (set ds))"]) simp
  then show ?thesis unfolding late_def by blast
qed

lemma late_row:
  assumes "late cfg t w" "get (w_store w) i = Some r"
  shows "lease_free t r"
    "signed_tx r = Some (to_json g) \<Longrightarrow> st_expiration g \<le> t \<and> st_expiration g + expiration_safety_seconds cfg \<le> t"
proof -
  have "r \<in> set (all_operations (w_store w))"
    using assms(2) by (force simp: all_operations_def get_def dest: dict_get_mem)
  then have d: "\<forall>d \<in> set (row_deadlines cfg r). d \<le> t" using assms(1) by (auto simp: late_def)
  then show "lease_free t r" by (simp add: row_deadlines_def lease_free_def split: option.splits)
  show "st_expiration g \<le> t \<and> st_expiration g + expiration_safety_seconds cfg \<le> t" if "signed_tx r = Some (to_json g)"
    using d that by (simp add: row_deadlines_def)
qed

lemma late_tx: "late cfg t w \<Longrightarrow> dict_get (nd_txs (w_node w)) k = Some q \<Longrightarrow> st_expiration (rec_tx q) \<le> t"
  by (force simp: late_def dest: dict_get_mem)

text \<open>A round: the clock has reached such a moment, the node has produced more blocks than its lag, and
  some worker makes one pass.\<close>

inductive recovery_round :: "(bytes \<Rightarrow> bytes) \<Rightarrow> config \<Rightarrow> mock_signer \<Rightarrow> world \<Rightarrow> world \<Rightarrow> bool"
  for sha cfg sg where
  recovery_round: "late cfg t w \<Longrightarrow> max 0 (solidity_lag (w_node w)) < int n \<Longrightarrow>
    produce_blocks (\<lambda>_. t) n (w_node w) = Inr nd \<Longrightarrow>
    run sha (run_once sha cfg sg wid) (w\<lparr>w_clock := t, w_node := nd\<rparr>) = (res, w') \<Longrightarrow>
    recovery_round sha cfg sg w w'"

lemma round_prepares:
  assumes w: "recoverable w" and t: "late cfg t w" and n: "max 0 (solidity_lag (w_node w)) < int n"
  obtains nd where "produce_blocks (\<lambda>_. t) n (w_node w) = Inr nd"
    "recoverable (w\<lparr>w_clock := t, w_node := nd\<rparr>)" "overdue cfg (w\<lparr>w_clock := t, w_node := nd\<rparr>)"
proof -
  have wf: "node_wf (w_node w)" "healthy (w_node w)" using w by (simp_all add: recoverable_def orderly_def)
  obtain nd where nd: "produce_blocks (\<lambda>_. t) n (w_node w) = Inr nd" "node_wf nd" "healthy nd"
      "nd_head nd = nd_head (w_node w) + int n" "solidity_lag nd = solidity_lag (w_node w)"
      "dict_get (nd_txs nd) = dict_get (nd_txs (w_node w))"
      "\<forall>h x. nd_head (w_node w) < h \<and> dict_get (block_time nd) h = Some x \<longrightarrow> t \<le> x"
    using late_blocks [OF wf, of t n] late_tx [OF t] by blast
  have rec: "recoverable (w\<lparr>w_clock := t, w_node := nd\<rparr>)"
    using w nd(2,3) by (simp add: recoverable_def orderly_def)
  have sb: "nd_head (w_node w) < solid_block nd" using nd(4,5) n by (simp add: solid_block_def)
  obtain s where s: "solid_now nd = Inr s" "t \<le> s"
    using late_solid [of nd "nd_head (w_node w)" t] nd sb n by (auto simp: node_wf_def)
  have "b \<le> nd_head (w_node w)" if q: "dict_get (nd_txs nd) k = Some q" "rec_included_block q = Some b" for k q b
  proof -
    have "record_wf (w_node w) k q" using node_wf_get [OF wf(1)] q(1) nd(6) by simp
    then obtain x where "dict_get (block_time (w_node w)) b = Some x" using q(2) by (auto simp: record_wf_def)
    then have "b \<in> set (heights (w_node w))" by (force simp: heights_def dest: dict_get_mem)
    then show ?thesis using chain_wf_heights [of "w_node w"] wf(1) by (simp add: node_wf_def)
  qed
  then have "txs_settled t nd"
    using late_tx [OF t] nd(6) sb unfolding txs_settled_def by (fastforce split: option.split)
  then have "overdue cfg (w\<lparr>w_clock := t, w_node := nd\<rparr>)"
    using late_row(2) [OF t] s unfolding overdue_def by fastforce
  then show thesis by (rule that [OF nd(1) rec])
qed

text \<open>Good states from which a step exists, stays good and costs rank until the rank is spent.\<close>

locale descent =
  fixes good :: "'s \<Rightarrow> bool" and step :: "'s \<Rightarrow> 's \<Rightarrow> bool" and rank :: "'s \<Rightarrow> nat"
  assumes enabled: "good s \<Longrightarrow> \<exists>s'. step s s'"
    and kept: "good s \<Longrightarrow> step s s' \<Longrightarrow> good s'"
    and falls: "good s \<Longrightarrow> step s s' \<Longrightarrow> rank s' \<le> rank s - 1"
begin

lemma runs_on: "good s \<Longrightarrow> \<exists>s'. (step ^^ n) s s' \<and> good s'"
  by (induction n) (auto, metis enabled kept relcompp.relcompI)

lemma comes_down: "(step ^^ n) s s' \<Longrightarrow> good s \<Longrightarrow> good s' \<and> rank s' \<le> rank s - n"
proof (induction n arbitrary: s')
  case (Suc n)
  then obtain s1 where s1: "(step ^^ n) s s1" "step s1 s'" by auto
  then have "good s1" "rank s1 \<le> rank s - n" using Suc.IH Suc.prems(2) by blast+
  then show ?case using kept falls s1(2) by fastforce
qed simp

lemma spent: "(step ^^ n) s s' \<Longrightarrow> good s \<Longrightarrow> rank s \<le> n \<Longrightarrow> rank s' = 0"
  using comes_down by fastforce

end

lemma round_lowers:
  assumes "recoverable w" "0 < claim_batch cfg" "recovery_round sha cfg sg w w'"
  shows "recoverable w' \<and> rows_fall cfg w w' \<and> store_rank cfg (w_store w') \<le> store_rank cfg (w_store w) - 1"
  using assms(3)
proof cases
  case (recovery_round t n nd wid res)
  let ?w = "w\<lparr>w_clock := t, w_node := nd\<rparr>"
  have w: "recoverable ?w" "overdue cfg ?w"
    using round_prepares [OF assms(1) recovery_round(1,2)] recovery_round(3) by (metis sum.inject(2))+
  note p = pass_keeps [OF w(1) recovery_round(4)]
  have "store_rank cfg (w_store w') < store_rank cfg (w_store ?w)" if "store_rank cfg (w_store ?w) \<noteq> 0"
    by (rule pass_lowers [OF w assms(2) _ that recovery_round(4)])
      (use late_row(1) [OF recovery_round(1)] in simp)
  moreover have "rows_fall cfg w ?w" by (rule rows_fall_same) simp
  ultimately show ?thesis
    using p rows_fall_rank(1) [OF p(2)] rows_fall_trans by fastforce
qed

interpretation recovery: descent "\<lambda>w. recoverable w \<and> 0 < claim_batch cfg" "recovery_round sha cfg sg"
  "\<lambda>w. store_rank cfg (w_store w)" for sha cfg sg
proof unfold_locales
  fix w assume w: "recoverable w \<and> 0 < claim_batch cfg"
  obtain t where t: "late cfg t w" using late_exists by blast
  define n where "n = nat (solidity_lag (w_node w)) + 1"
  have n: "max 0 (solidity_lag (w_node w)) < int n" by (simp add: n_def)
  obtain nd where nd: "produce_blocks (\<lambda>_. t) n (w_node w) = Inr nd"
    using round_prepares [OF _ t n] w by blast
  obtain res w' where "run sha (run_once sha cfg sg []) (w\<lparr>w_clock := t, w_node := nd\<rparr>) = (res, w')" by fastforce
  then show "\<exists>w'. recovery_round sha cfg sg w w'" using recovery_round.intros [OF t n nd] by blast
qed (use round_lowers in blast)+

section \<open>Everything comes to an end\<close>

text \<open>The rounds are runs of the system, so what is proved of its reachable states holds after them.\<close>

lemma sys_step_relax: "sys_step sha cfg sg True s s' \<Longrightarrow> sys_step sha cfg sg strict s s'"
  by (erule sys_step.cases) (auto intro: sys_step.intros)

lemma sys_path_relax: "(sys_step sha cfg sg True)\<^sup>*\<^sup>* s s' \<Longrightarrow> (sys_step sha cfg sg strict)\<^sup>*\<^sup>* s s'"
  using mono_rtranclp [of "sys_step sha cfg sg True" "sys_step sha cfg sg strict"] sys_step_relax by blast

lemma round_is_path:
  assumes "recovery_round sha cfg sg (s_world s) w'" "0 \<le> expiration_safety_seconds cfg"
  shows "\<exists>ts. (sys_step sha cfg sg strict)\<^sup>*\<^sup>* s \<lparr> s_world = w', s_threads = ts \<rparr>"
  using assms(1)
proof cases
  case (recovery_round t n nd wid res)
  let ?s1 = "s\<lparr>s_world := (s_world s)\<lparr>w_clock := t\<rparr>\<rparr>"
  let ?s2 = "?s1\<lparr>s_world := (s_world ?s1)\<lparr>w_node := nd\<rparr>\<rparr>"
  have "(sys_step sha cfg sg strict)\<^sup>*\<^sup>* ?s1 ?s2"
    by (rule blocks_are_path) (use recovery_round(3) in simp)
  then have p: "(sys_step sha cfg sg strict)\<^sup>*\<^sup>* s ?s2" by (rule sys_path_step [OF ss_clock])
  obtain ts where "(sys_step sha cfg sg strict)\<^sup>*\<^sup>* ?s2 \<lparr> s_world = w', s_threads = ts \<rparr>"
    using run_once_is_path [OF assms(2), of sha sg wid ?s2 res w'] recovery_round(4) sys_path_relax by fastforce
  then show ?thesis using rtranclp_trans [OF p] by blast
qed

lemma rounds_are_path:
  assumes "(recovery_round sha cfg sg ^^ n) (s_world s) w'" "0 \<le> expiration_safety_seconds cfg"
  shows "\<exists>ts. (sys_step sha cfg sg strict)\<^sup>*\<^sup>* s \<lparr> s_world = w', s_threads = ts \<rparr>"
  using assms(1)
proof (induction n arbitrary: w')
  case 0
  then show ?case by (intro exI [of _ "s_threads s"]) (cases s, simp)
next
  case (Suc n)
  then obtain w1 where w1: "(recovery_round sha cfg sg ^^ n) (s_world s) w1" "recovery_round sha cfg sg w1 w'" by auto
  obtain ts where ts: "(sys_step sha cfg sg strict)\<^sup>*\<^sup>* s \<lparr> s_world = w1, s_threads = ts \<rparr>" using Suc.IH [OF w1(1)] by blast
  show ?case
    using round_is_path [of sha cfg sg "\<lparr> s_world = w1, s_threads = ts \<rparr>" w' strict] w1(2) assms(2) rtranclp_trans [OF ts]
    by fastforce
qed

lemma rounds_keep_rows:
  assumes "(recovery_round sha cfg sg ^^ n) w w'" "recoverable w" "0 < claim_batch cfg"
  shows "rows_fall cfg w w'"
  using assms(1)
proof (induction n arbitrary: w')
  case 0
  then show ?case by (simp add: rows_fall_same)
next
  case (Suc n)
  then obtain w1 where w1: "(recovery_round sha cfg sg ^^ n) w w1" "recovery_round sha cfg sg w1 w'" by auto
  have "recoverable w1" using recovery.comes_down [OF w1(1)] assms(2,3) by blast
  then show ?case using round_lowers [OF _ assms(3) w1(2)] Suc.IH [OF w1(1)] rows_fall_trans by blast
qed

text \<open>
  C7. No operation stays unfinished: after any run of the system, with workers dead or paused anywhere,
  if the node answers, no crash point is armed and the amounts can be printed, then rounds of
  recovery (every deadline past, more blocks than the solidity lag, one pass of any worker) are always
  possible, and however they go, after as many of them as the ranks of the rows sum up to every
  operation is confirmed, failed or rejected; the same operations are there with the columns of
  their intake, and the state is one the system reaches.
\<close>

theorem every_operation_finishes:
  assumes "(sys_step sha cfg sg strict)\<^sup>*\<^sup>* (initial_system clk lag delay nsg) s"
    and "healthy (w_node (s_world s))" "calm (w_crash (s_world s))"
    and "0 < claim_batch cfg" "0 \<le> expiration_safety_seconds cfg"
    and "\<forall>i r. get (w_store (s_world s)) i = Some r \<longrightarrow> (\<exists>u. py_str (amount_units r) = Inr u)"
    and "store_rank cfg (w_store (s_world s)) \<le> n"
  shows "(\<exists>w'. (recovery_round sha cfg sg ^^ n) (s_world s) w') \<and>
    (\<forall>w'. (recovery_round sha cfg sg ^^ n) (s_world s) w' \<longrightarrow>
       (\<forall>i. rel_option (\<lambda>r r'. op_state r' \<in> set TERMINAL \<and> intake_part r' = intake_part r)
          (get (w_store (s_world s)) i) (get (w_store w') i)) \<and>
       (\<exists>ts. (sys_step sha cfg sg strict)\<^sup>*\<^sup>* s \<lparr> s_world = w', s_threads = ts \<rparr>))"
proof -
  have w: "recoverable (s_world s)"
    using orderly_reachable [OF assms(1)] assms(2,3,6) by (simp add: recoverable_def)
  have "rel_option (\<lambda>r r'. op_state r' \<in> set TERMINAL \<and> intake_part r' = intake_part r)
      (get (w_store (s_world s)) i) (get (w_store w') i)"
    if r: "(recovery_round sha cfg sg ^^ n) (s_world s) w'" for w' i
  proof -
    have "store_rank cfg (w_store w') = 0" using recovery.spent [OF r] w assms(4,7) by blast
    then have "op_state r' \<in> set TERMINAL" if "get (w_store w') i = Some r'" for r'
      using that store_rank_zero by blast
    then show ?thesis
      using rounds_keep_rows [OF r w assms(4)] unfolding rows_fall_def
      by (auto elim!: option.rel_mono_strong simp: rank_le_def dest: spec [of _ i] simp del: TERMINAL_set)
  qed
  then show ?thesis
    using recovery.runs_on [of "s_world s" cfg n sha sg] w assms(4) rounds_are_path [OF _ assms(5)] by blast
qed

theorem every_operation_finishes_witness:
  "\<exists>s w' r. (sys_step sample_sha default_config default_signer True)\<^sup>*\<^sup>* (initial_system 0 19 1 default_signer) s \<and>
     op_state (the (get (w_store (s_world s)) 7)) = REQUESTED \<and>
     (recovery_round sample_sha default_config default_signer ^^ 53) (s_world s) w' \<and>
     get (w_store w') 7 = Some r \<and> op_state r \<in> set TERMINAL"
proof -
  obtain s where s: "(sys_step sample_sha default_config default_signer True)\<^sup>*\<^sup>* (initial_system 0 19 1 default_signer) s"
      "s_world s = submitted 0 19 1 default_signer sample_request"
    using submit_is_step unfolding sample_request_def by blast
  have row: "get (w_store (s_world s)) = [7 \<mapsto> stamped 0 sample_request]"
    using submitted_only_row [of 0 19 1 default_signer sample_request] s(2)
    by (auto simp: only_row_def get_def fun_eq_iff) (simp_all add: stamped_def sample_request_def new_operation_def)
  have w: "healthy (w_node (s_world s))" "calm (w_crash (s_world s))"
    unfolding s(2) by (simp_all add: submitted_def initial_system_def Let_def healthy_def new_node_def calm_def
        armed_count_def new_crash_switch_def)
  have units: "\<forall>i r. get (w_store (s_world s)) i = Some r \<longrightarrow> (\<exists>u. py_str (amount_units r) = Inr u)"
    using sample_request_good(4) by (auto simp: row stamped_def split: if_splits)
  have rank: "store_rank default_config (w_store (s_world s)) \<le> 53"
    by (simp add: store_rank_def row row_rank_def stamped_def sample_request_def new_operation_def default_config_def)
  note fin = every_operation_finishes [OF s(1) w sample_settings(1,4) units rank]
  then obtain w' where w': "(recovery_round sample_sha default_config default_signer ^^ 53) (s_world s) w'" by blast
  then have "rel_option (\<lambda>r r'. op_state r' \<in> set TERMINAL \<and> intake_part r' = intake_part r)
      (get (w_store (s_world s)) 7) (get (w_store w') 7)" using fin by blast
  then obtain r where "get (w_store w') 7 = Some r" "op_state r \<in> set TERMINAL"
    by (auto simp: row option_rel_Some1)
  moreover have "op_state (the (get (w_store (s_world s)) 7)) = REQUESTED"
    by (simp add: row stamped_def sample_request_def new_operation_def)
  ultimately show ?thesis using s(1) w' by blast
qed

text \<open>
  C21. The handlers of \<open>signed\<close>, \<open>broadcasting\<close> and \<open>broadcast\<close> find an envelope: in every reachable state
  of the system, whatever its timing, a row in one of these states carries the text of a signed
  envelope, and loading it returns that envelope.
\<close>

theorem awaiting_rows_load:
  assumes "(sys_step sha cfg sg strict)\<^sup>*\<^sup>* (initial_system clk lag delay nsg) s"
    and "get (w_store (s_world s)) i = Some r" "op_state r \<in> {SIGNED, BROADCASTING, BROADCAST}"
  shows "\<exists>g. signed_tx r = Some (to_json g) \<and> load_signed r = Return g"
proof -
  have "row_signed r"
    using orderly_reachable [OF assms(1)] assms(2) by (simp add: orderly_def rows_signed_def)
  then obtain g where "signed_tx r = Some (to_json g)" using row_signed_loads assms(3) by blast
  then show ?thesis by (simp add: load_signed_def lift_exn_def)
qed

theorem awaiting_rows_load_witness:
  "\<exists>s r g. (sys_step sample_sha default_config default_signer False)\<^sup>*\<^sup>* (initial_system 0 0 1 default_signer) s \<and>
     get (w_store (s_world s)) 7 = Some r \<and> op_state r = BROADCASTING \<and> load_signed r = Return g"
proof -
  obtain s op where s: "pause_path sample_sha (initial_system 0 0 1 default_signer) s"
      "only_row (w_store (s_world s)) op" "operation_id op = 7" "op_state op = BROADCASTING"
    using first_paused [OF sample_address_valid] by metis
  have g: "get (w_store (s_world s)) 7 = Some op" using s(2,3) by (simp add: only_row_def get_def)
  then show ?thesis using awaiting_rows_load [OF s(1) g] s(1,4) by auto
qed

end
