(* ===== verification/Two_Rows.thy ===== *)
theory Two_Rows
  imports Recovery
begin

text \<open>
  A store of two rows and passes over them: what a claim takes, and what the drives of one worker do to
  a row - die between the write-ahead and the send, send again into a timeout, find a pending
  transaction, wait for it, confirm it.  \<open>pair_pass\<close> puts two drives together into a pass.
\<close>

section \<open>Two rows in the store\<close>

definition two_rows :: "mstore \<Rightarrow> operation \<Rightarrow> operation \<Rightarrow> bool" where
  "two_rows ms a b \<longleftrightarrow> ms_ops ms = [(operation_id a, a), (operation_id b, b)] \<and> operation_id a \<noteq> operation_id b \<and>
     dict_get (ms_arrival ms) (operation_id a) = Some 0 \<and> dict_get (ms_arrival ms) (operation_id b) = Some 1"

lemma two_rows_hold: "two_rows (w_store w) a b \<Longrightarrow> holds_row w a \<and> holds_row w b"
  by (simp add: two_rows_def holds_row_def get_def)

lemma two_rows_wrote:
  "two_rows (w_store w) a b \<Longrightarrow> wrote_row w w' r \<Longrightarrow> operation_id r = operation_id a \<Longrightarrow> two_rows (w_store w') r b"
  "two_rows (w_store w) a b \<Longrightarrow> wrote_row w w' r \<Longrightarrow> operation_id r = operation_id b \<Longrightarrow> two_rows (w_store w') a r"
  by (auto simp: two_rows_def wrote_row_def)

lemma two_rows_claim:
  assumes "two_rows ms a b" "op_state a \<in> set states" "op_state b \<in> set states" "lease_free now a" "lease_free now b" "2 \<le> limit"
  obtains ms' where "claim now ms states limit wid d = (Inr [claimed now wid d a, claimed now wid d b], ms')"
    "two_rows ms' (claimed now wid d a) (claimed now wid d b)"
proof -
  have c: "candidates ms states = Inr [(operation_id a, a), (operation_id b, b)]"
    using assms(1-3) by (simp add: candidates_def two_rows_def)
  have "claim_selection now limit [(operation_id a, a), (operation_id b, b)] = [(operation_id a, a), (operation_id b, b)]"
    using assms(4-6) by (simp add: claim_selection_def numeral_2_eq_2 take_Cons')
  then have "claim now ms states limit wid d = (Inr [claimed now wid d a, claimed now wid d b],
      ms\<lparr>ms_ops := [(operation_id a, claimed now wid d a), (operation_id b, claimed now wid d b)]\<rparr>)"
    using c assms(1) by (simp add: claim_def claim_loop_spec two_rows_def)
  then show thesis by (rule that) (use assms(1) in \<open>simp add: two_rows_def claimed_def\<close>)
qed

lemma two_rows_pass:
  assumes rows: "two_rows (w_store w) a b" "op_state a \<in> set CLAIMABLE" "op_state b \<in> set CLAIMABLE"
      "lease_free (w_clock w) a" "lease_free (w_clock w) b" "2 \<le> claim_batch cfg"
  obtains ms where "two_rows ms (claimed (w_clock w) wid (lease_seconds cfg) a) (claimed (w_clock w) wid (lease_seconds cfg) b)"
    "run sha (run_once sha cfg sg wid) w = run sha (drive_all sha cfg sg wid
       [claimed (w_clock w) wid (lease_seconds cfg) a, claimed (w_clock w) wid (lease_seconds cfg) b] 0) (w\<lparr>w_store := ms\<rparr>)"
proof -
  obtain ms where "claim (w_clock w) (w_store w) CLAIMABLE (claim_batch cfg) wid (lease_seconds cfg) =
      (Inr [claimed (w_clock w) wid (lease_seconds cfg) a, claimed (w_clock w) wid (lease_seconds cfg) b], ms)"
    "two_rows ms (claimed (w_clock w) wid (lease_seconds cfg) a) (claimed (w_clock w) wid (lease_seconds cfg) b)"
    by (rule two_rows_claim [OF rows])
  then show thesis
    by (intro that) (simp_all add: run_once_def store_claim_def lift_exn_def run_pbind del: drive_all.simps)
qed

lemma two_rows_finished:
  assumes "two_rows (w_store w) a b" "op_state a \<in> set TERMINAL" "op_state b \<in> set TERMINAL"
  shows "run sha (run_once sha cfg sg wid) w = (Inr 0, w)"
proof -
  have "candidates (w_store w) CLAIMABLE = Inr []"
    using assms by (auto simp: candidates_def two_rows_def CLAIMABLE_def simp del: TERMINAL_set)
  then have "claim (w_clock w) (w_store w) CLAIMABLE (claim_batch cfg) wid (lease_seconds cfg) = (Inr [], w_store w)"
    by (simp add: claim_def)
  then show ?thesis by (simp add: run_once_def store_claim_def lift_exn_def run_pbind)
qed

section \<open>The drives\<close>

lemma settle_release:
  assumes "holds_row w op"
  shows "run sha (settle_exit wid (Left_Loop op adv)) w =
      (Inr adv, w\<lparr>w_store := release (w_clock w) (w_store w) (operation_id op) (fencing_token op)\<rparr>)"
    "wrote_row w (w\<lparr>w_store := release (w_clock w) (w_store w) (operation_id op) (fencing_token op)\<rparr>) (released (w_clock w) op)"
  using release_own [OF assms] by (simp_all add: settle_exit_def run_pbind)

text \<open>A step that leaves the row where it is ends the claim.\<close>

lemma drive_parks:
  assumes "holds_row w1 op" "run sha (pipeline_step sha cfg sg op wid) w = (Inr op, w1)" "op_state op \<notin> set TERMINAL"
  obtains w' where "run sha (drive sha cfg sg wid op) w = (Inr 0, w')" "wrote_row w1 w' (released (w_clock w1) op)"
proof -
  have "run sha (drive_loop sha cfg sg wid 8 op 0) w = (Inr (Left_Loop op 0), w1)"
    using drive_loop_parks [OF assms(2) refl assms(3), of 7 0] by (simp add: eval_nat_numeral del: drive_loop.simps)
  then show thesis
    using settle_release [OF assms(1)]
    by (intro that) (simp_all add: drive_eq run_pbind)
qed

text \<open>The worker that dies between its write-ahead and its send.\<close>

lemma dying_drive:
  assumes op: "holds_row w op" "op_state op = REQUESTED" "payable sha cfg op"
    and node: "ref_block (w_node w) = Inr ref" "py_str (amount_units op) = Inr units"
    and g: "g = sign sha sg (unsigned_envelope sha cfg op units ref (w_clock w))"
    and "0 < tx_ttl_seconds cfg" "armed_count (w_crash w) SIGN_MID \<le> 0" "here (w_crash w) BROADCAST_PRE_SEND = (True, c)"
  obtains op' w' where "run sha (drive sha cfg sg wid op) w = (Inl (SimulatedCrash BROADCAST_PRE_SEND), w')"
    "wrote_row (w\<lparr>w_crash := c\<rparr>) w' op'" "same_claim op op'" "op_state op' = BROADCASTING"
    "signed_tx op' = Some (to_json g)" "op_txid op' = Some (st_txid g)"
    "lease_expires_at op' = Some (w_clock w + lease_seconds cfg)"
proof -
  obtain op1 w1 op2 w2 where s2: "run sha (pipeline_step sha cfg sg op wid) w = (Inr op1, w1)" "op_state op1 = VALIDATED"
      "run sha (pipeline_step sha cfg sg op1 wid) w1 = (Inr op2, w2)" "wrote_row w w2 op2" "same_claim op op2"
      "op_state op2 = SIGNED" "signed_tx op2 = Some (to_json g)" "op_txid op2 = Some (st_txid g)"
    by (rule run_to_signed [OF op node assms(8) g])
  have c2: "w_clock w2 = w_clock w" "w_node w2 = w_node w" "w_crash w2 = w_crash w"
    using s2(4) by (simp_all add: wrote_row_def)
  have live: "w_clock w2 < st_expiration g" using assms c2 by (simp add: unsigned_envelope_def Let_def)
  let ?d = "[(''txid'', PStr (st_txid g)), (''reason'', PStr ''write-ahead'')]"
  let ?op = "written (w_clock w2) BROADCASTING [] (Some (lease_seconds cfg)) op2"
  obtain w3 where r3: "run sha (p_cas cfg op2 BROADCASTING wid [] ?d) w2 = (Inr ?op, w3)" "wrote_row w2 w3 ?op" "same_claim op2 ?op"
    using run_p_cas [OF wrote_row_holds [OF s2(4)], of BROADCASTING "[]" sha cfg wid ?d] s2(6) by (auto simp: handler_sets)
  have h: "here (w_crash w3) BROADCAST_PRE_SEND = (True, c)" using r3(2) c2 assms(9) by (simp add: wrote_row_def)
  have dead: "run sha (p_broadcast cfg op2 wid) w2 = (Inl (SimulatedCrash BROADCAST_PRE_SEND), w3\<lparr>w_crash := c\<rparr>)"
    using s2(7) live r3(1) h
    by (simp add: p_broadcast_def load_signed_def run_pbind first_send_def crash_here_def)
  have "run sha (drive_loop sha cfg sg wid (Suc n) op2 1) w2 = (Inl (SimulatedCrash BROADCAST_PRE_SEND), w3\<lparr>w_crash := c\<rparr>)" for n
    using dead s2(6) by (simp add: run_catch pipeline_step_def is_Exception_def)
  then have "run sha (drive_loop sha cfg sg wid 8 op 0) w = (Inl (SimulatedCrash BROADCAST_PRE_SEND), w3\<lparr>w_crash := c\<rparr>)"
    using drive_loop_moves [OF s2(1), of 7 0] drive_loop_moves [OF s2(3), of 6 1] s2(2,6) op(2)
    by (simp add: eval_nat_numeral del: drive_loop.simps)
  then have d: "run sha (drive sha cfg sg wid op) w = (Inl (SimulatedCrash BROADCAST_PRE_SEND), w3\<lparr>w_crash := c\<rparr>)"
    by (simp add: drive_eq run_pbind)
  have id: "operation_id ?op = operation_id op" "operation_id op2 = operation_id op"
    using same_claim_id s2(5) r3(3) by metis+
  show thesis
  proof (rule that [OF d])
    show "wrote_row (w\<lparr>w_crash := c\<rparr>) (w3\<lparr>w_crash := c\<rparr>) ?op"
      using s2(4) r3(2) id by (simp add: wrote_row_def)
    show "same_claim op ?op" using s2(5) r3(3) by (simp add: same_claim_def)
  qed (use s2(7,8) c2 in \<open>simp_all add: written_def Let_def\<close>)
qed

text \<open>The heir finds the transaction unknown and not yet dead, and sends the same bytes; the node keeps
  them and times out.\<close>

definition accepts_silently :: "node \<Rightarrow> signedtx \<Rightarrow> string \<Rightarrow> node" where
  "accepts_silently nd g wid = log_it (nd\<lparr>nd_faults := dict_set (nd_faults nd) ''broadcast'' [],
     nd_txs := dict_set (nd_txs nd) (st_txid g) (fresh_record nd g)\<rparr>) g (Some wid) ''timeout-accepted''"

lemma silent_broadcast:
  assumes "dict_get (nd_faults nd) ''broadcast'' = Some [TIMEOUT_ACCEPTED]" "verify sha (nd_signer nd) g = Inr True"
    "clk < st_expiration g" "dict_get (nd_txs nd) (st_txid g) = None"
  shows "broadcast sha clk nd g (Some wid) =
    (Inl (NodeTimeout ''broadcast: read timed out (but the node kept the tx)''), accepts_silently nd g wid)"
  using assms by (simp add: broadcast_def take_fault_def accepts_silently_def fresh_record_def Let_def)

lemma resending_drive:
  assumes op: "holds_row w op" "op_state op = BROADCASTING" "signed_tx op = Some (to_json g)"
    and node: "dict_get (nd_faults (w_node w)) ''broadcast'' = Some [TIMEOUT_ACCEPTED]"
      "dict_get (nd_faults (w_node w)) ''query'' = Some []" "verify sha (nd_signer (w_node w)) g = Inr True"
      "dict_get (nd_txs (w_node w)) (st_txid g) = None"
    and time: "w_clock w < st_expiration g" "solid_now (w_node w) = Inr t" "t < st_expiration g + expiration_safety_seconds cfg"
  obtains w' where "run sha (drive sha cfg sg wid op) w = (Inr 0, w')"
    "wrote_row (w\<lparr>w_node := accepts_silently (w_node w) g wid\<rparr>) w' (released (w_clock w) op)"
proof -
  let ?w = "w\<lparr>w_node := accepts_silently (w_node w) g wid\<rparr>"
  have f: "run sha (node_find_tx (st_txid g)) w =
      (Inr \<lparr> ts_result = UNKNOWN, ts_block = None, ts_solid = False, ts_receipt = None \<rparr>, w)"
    using node by (simp add: find_tx_def take_fault_def Let_def)
  obtain ev where p: "run sha (proof_of_death cfg g) w = (Inr (False, ev), w)"
    using time by (simp add: proof_of_death_def run_pbind Let_def)
  have "run sha (resend cfg op wid g) w = (Inr op, ?w)"
    using silent_broadcast [OF node(1,3) time(1) node(4), of wid]
    by (simp add: resend_def run_catch on_timeout_def)
  then have step: "run sha (pipeline_step sha cfg sg op wid) w = (Inr op, ?w)"
    using op f p by (simp add: pipeline_step_def reconcile_broadcast_def load_signed_def run_pbind run_catch)
  have h: "holds_row ?w op" using op(1) by (simp add: holds_row_def)
  show thesis by (rule drive_parks [OF h step]) (use op(2) that in simp_all)
qed

text \<open>A pending transaction: found by the reconciliation, waited for afterwards.\<close>

lemma waiting_drive:
  assumes op: "holds_row w op" "op_state op = BROADCAST" "signed_tx op = Some (to_json g)"
    and node: "healthy (w_node w)" "dict_get (nd_txs (w_node w)) (st_txid g) = Some q" "rec_included_block q = None"
      "w_clock w < st_expiration (rec_tx q)"
  obtains w' where "run sha (drive sha cfg sg wid op) w = (Inr 0, w')" "wrote_row w w' (released (w_clock w) op)"
  by (rule drive_parks [OF op(1) pending_step [OF op(2,3) node]]) (use op(2) that in simp_all)

lemma finding_drive:
  assumes op: "holds_row w op" "op_state op = BROADCASTING" "signed_tx op = Some (to_json g)"
    and node: "healthy (w_node w)" "dict_get (nd_txs (w_node w)) (st_txid g) = Some q" "rec_included_block q = None"
      "w_clock w < st_expiration (rec_tx q)"
  obtains op' w' where "run sha (drive sha cfg sg wid op) w = (Inr 1, w')" "wrote_row w w' op'" "same_claim op op'"
    "op_state op' = BROADCAST" "signed_tx op' = Some (to_json g)" "op_txid op' = op_txid op" "lease_expires_at op' = None"
proof -
  let ?at = "case broadcast_at op of Some t \<Rightarrow> t | None \<Rightarrow> w_clock w"
  let ?sets = "[Set_broadcast_at (Some ?at)]"
  let ?d = "[(''txid'', PStr (st_txid g)), (''via'', PStr ''reconcile''), (''found'', PStr (query_value PENDING))]"
  let ?op = "written (w_clock w) BROADCAST ?sets (Some (lease_seconds cfg)) op"
  obtain w1 where r: "run sha (p_cas cfg op BROADCAST wid ?sets ?d) w = (Inr ?op, w1)" "wrote_row w w1 ?op" "same_claim op ?op"
    using run_p_cas [OF op(1), of BROADCAST ?sets sha cfg wid ?d] op(2) by (auto simp: handler_sets)
  have s1: "run sha (pipeline_step sha cfg sg op wid) w = (Inr ?op, w1)"
    using op pending_find_tx [OF node] r(1)
    by (simp add: pipeline_step_def reconcile_broadcast_def load_signed_def mark_found_def run_pbind run_catch split: option.splits)
  have fields: "op_state ?op = BROADCAST" "signed_tx ?op = Some (to_json g)" "op_txid ?op = op_txid op"
    using op(3) by (simp_all add: written_def Let_def)
  have c1: "w_clock w1 = w_clock w" "w_node w1 = w_node w" using r(2) by (simp_all add: wrote_row_def)
  have s2: "run sha (pipeline_step sha cfg sg ?op wid) w1 = (Inr ?op, w1)"
    by (rule pending_step [OF fields(1,2)]) (use node c1 in simp_all)
  have "run sha (drive_loop sha cfg sg wid 8 op 0) w = (Inr (Left_Loop ?op 1), w1)"
    using drive_loop_moves [OF s1, of 7 0] drive_loop_parks [OF s2, of 6 1] op(2) fields(1)
    by (simp add: TERMINAL_def eval_nat_numeral del: drive_loop.simps)
  then have d: "run sha (drive sha cfg sg wid op) w =
      (Inr 1, w1\<lparr>w_store := release (w_clock w1) (w_store w1) (operation_id ?op) (fencing_token ?op)\<rparr>)"
    using settle_release(1) [OF wrote_row_holds [OF r(2)]] by (simp add: drive_eq run_pbind)
  show thesis
  proof (rule that [OF d])
    show "wrote_row w (w1\<lparr>w_store := release (w_clock w1) (w_store w1) (operation_id ?op) (fencing_token ?op)\<rparr>)
        (released (w_clock w1) ?op)"
      by (rule wrote_row_trans [OF r(2) settle_release(2) [OF wrote_row_holds [OF r(2)]]]) (simp add: released_def)
    show "same_claim op (released (w_clock w1) ?op)"
      using r(3) by (simp add: same_claim_def released_def intake_part_def)
  qed (use fields in \<open>simp_all add: released_def\<close>)
qed

section \<open>The blocks\<close>

text \<open>Once everything is in a block, further blocks change no record.\<close>

lemma settled_blocks:
  assumes "node_wf nd" "healthy nd" "\<forall>k q. dict_get (nd_txs nd) k = Some q \<longrightarrow> rec_included_block q \<noteq> None"
  shows "\<exists>nd'. produce_blocks (\<lambda>_. t) n nd = Inr nd' \<and> node_wf nd' \<and> healthy nd' \<and> nd_head nd' = nd_head nd + int n \<and>
    solidity_lag nd' = solidity_lag nd \<and> dict_get (nd_txs nd') = dict_get (nd_txs nd) \<and> broadcast_log nd' = broadcast_log nd"
proof (induction n)
  case (Suc n)
  then obtain nd1 where 1: "produce_blocks (\<lambda>_. t) n nd = Inr nd1" "node_wf nd1" "healthy nd1"
      "nd_head nd1 = nd_head nd + int n" "solidity_lag nd1 = solidity_lag nd" "dict_get (nd_txs nd1) = dict_get (nd_txs nd)"
      "broadcast_log nd1 = broadcast_log nd" by blast
  have ch: "chain_wf nd1" using 1(2) by (simp add: node_wf_def)
  obtain nd2 where 2: "produce_block t nd1 = Inr nd2" using produce_block_total [OF ch] by blast
  have f: "nd_head nd2 = nd_head nd1 + 1" "solidity_lag nd2 = solidity_lag nd1" "broadcast_log nd2 = broadcast_log nd1"
    using 2 by (auto elim!: produce_block_effect)
  have "dict_get (nd_txs nd2) k = dict_get (nd_txs nd1) k" for k
    using produce_block_get [OF 2 ch, of k] assms(3) 1(6)
    by (cases "dict_get (nd_txs nd) k") (auto simp: option_rel_Some1 record_advances_def)
  then show ?case
    using 1 2 f node_wf_produce_block [OF 1(2) 2] healthy_produce [OF 1(3) 2]
    by (simp add: produce_blocks_snoc fun_eq_iff del: produce_blocks.simps)
qed (use assms in simp)

section \<open>Passes over two rows\<close>

text \<open>What a pass needs of the drives of the two rows, and what comes of it.\<close>

definition drives_to :: "(bytes \<Rightarrow> bytes) \<Rightarrow> config \<Rightarrow> mock_signer \<Rightarrow> string \<Rightarrow> world \<Rightarrow> operation \<Rightarrow> node \<Rightarrow> int \<Rightarrow> node \<Rightarrow>
    (operation \<Rightarrow> bool) \<Rightarrow> bool" where
  "drives_to sha cfg sg wid w op nd m nd' P \<longleftrightarrow> (\<forall>w1. holds_row w1 op \<and> w_clock w1 = w_clock w \<and> w_node w1 = nd \<and>
     w_crash w1 = w_crash w \<longrightarrow> (\<exists>w2 op'. run sha (drive sha cfg sg wid op) w1 = (Inr m, w2) \<and>
       wrote_row (w1\<lparr>w_node := nd'\<rparr>) w2 op' \<and> operation_id op' = operation_id op \<and> P op'))"

lemma drives_same:
  assumes "\<And>w1. holds_row w1 op \<Longrightarrow> w_clock w1 = w_clock w \<Longrightarrow> w_node w1 = nd \<Longrightarrow> w_crash w1 = w_crash w \<Longrightarrow>
     \<exists>w2 op'. run sha (drive sha cfg sg wid op) w1 = (Inr m, w2) \<and> wrote_row w1 w2 op' \<and>
       operation_id op' = operation_id op \<and> P op'"
  shows "drives_to sha cfg sg wid w op nd m nd P"
  unfolding drives_to_def
proof (intro allI impI)
  fix w1 assume w1: "holds_row w1 op \<and> w_clock w1 = w_clock w \<and> w_node w1 = nd \<and> w_crash w1 = w_crash w"
  then have eq: "w1\<lparr>w_node := nd\<rparr> = w1" by (cases w1) auto
  show "\<exists>w2 op'. run sha (drive sha cfg sg wid op) w1 = (Inr m, w2) \<and> wrote_row (w1\<lparr>w_node := nd\<rparr>) w2 op' \<and>
      operation_id op' = operation_id op \<and> P op'"
    unfolding eq using assms [of w1] w1 by blast
qed

lemma pair_pass:
  assumes rows: "two_rows (w_store w) a b" "op_state a \<in> set CLAIMABLE" "op_state b \<in> set CLAIMABLE"
      "lease_free (w_clock w) a" "lease_free (w_clock w) b" "2 \<le> claim_batch cfg"
    and A: "drives_to sha cfg sg wid w (claimed (w_clock w) wid (lease_seconds cfg) a) (w_node w) m nd1 P"
    and B: "drives_to sha cfg sg wid w (claimed (w_clock w) wid (lease_seconds cfg) b) nd1 n nd2 Q"
  obtains w' a' b' where "run sha (run_once sha cfg sg wid) w = (Inr (m + n), w')" "two_rows (w_store w') a' b'"
    "P a'" "Q b'" "operation_id a' = operation_id a" "operation_id b' = operation_id b"
    "w_clock w' = w_clock w" "w_node w' = nd2" "w_crash w' = w_crash w"
proof -
  let ?a = "claimed (w_clock w) wid (lease_seconds cfg) a" and ?b = "claimed (w_clock w) wid (lease_seconds cfg) b"
  obtain ms where ms: "two_rows ms ?a ?b" "run sha (run_once sha cfg sg wid) w =
      run sha (drive_all sha cfg sg wid [?a, ?b] 0) (w\<lparr>w_store := ms\<rparr>)"
    by (rule two_rows_pass [OF rows])
  let ?w = "w\<lparr>w_store := ms\<rparr>"
  have h: "holds_row ?w ?a" using two_rows_hold [of ?w] ms(1) by simp
  obtain w1 a' where 1: "run sha (drive sha cfg sg wid ?a) ?w = (Inr m, w1)" "wrote_row (?w\<lparr>w_node := nd1\<rparr>) w1 a'"
      "operation_id a' = operation_id ?a" "P a'"
    using A h unfolding drives_to_def by (metis world.ext_inject world.surjective world.update_convs(2))
  have t1: "two_rows (w_store w1) a' ?b"
    by (rule two_rows_wrote(1) [OF _ 1(2,3)]) (use ms(1) in simp)
  have c1: "w_clock w1 = w_clock w" "w_node w1 = nd1" "w_crash w1 = w_crash w" using 1(2) by (simp_all add: wrote_row_def)
  obtain w2 b' where 2: "run sha (drive sha cfg sg wid ?b) w1 = (Inr n, w2)" "wrote_row (w1\<lparr>w_node := nd2\<rparr>) w2 b'"
      "operation_id b' = operation_id ?b" "Q b'"
    using B two_rows_hold [OF t1] c1 unfolding drives_to_def by metis
  have t2: "two_rows (w_store w2) a' b'"
    by (rule two_rows_wrote(2) [OF _ 2(2,3)]) (use t1 in simp)
  have r: "run sha (run_once sha cfg sg wid) w = (Inr (m + n), w2)" using ms(2) 1(1) 2(1) by (simp add: run_pbind)
  show thesis by (rule that [OF r t2 1(4) 2(4)]) (use 1(3) 2(2,3) c1 in \<open>simp_all add: claimed_def wrote_row_def\<close>)
qed

text \<open>Rows that carry an envelope, and where the node holds it.\<close>

definition sent_row :: "op_state \<Rightarrow> signedtx \<Rightarrow> operation \<Rightarrow> bool" where
  "sent_row st g op \<longleftrightarrow> op_state op = st \<and> signed_tx op = Some (to_json g) \<and> op_txid op = Some (st_txid g) \<and>
     lease_expires_at op = None"

definition pending :: "time \<Rightarrow> node \<Rightarrow> signedtx \<Rightarrow> bool" where
  "pending clk nd g \<longleftrightarrow> healthy nd \<and> (\<exists>q. dict_get (nd_txs nd) (st_txid g) = Some q \<and> rec_included_block q = None \<and>
     clk < st_expiration (rec_tx q))"

lemma claimed_fields [simp]:
  "op_state (claimed now wid d op) = op_state op" "signed_tx (claimed now wid d op) = signed_tx op"
  "op_txid (claimed now wid d op) = op_txid op" "operation_id (claimed now wid d op) = operation_id op"
  by (simp_all add: claimed_def)

lemma waits:
  assumes "sent_row BROADCAST g op" "pending (w_clock w) nd g"
  shows "drives_to sha cfg sg wid w (claimed now wid d op) nd 0 nd (sent_row BROADCAST g)"
proof (rule drives_same)
  let ?op = "claimed now wid d op"
  fix w1 assume w1: "holds_row w1 ?op" "w_clock w1 = w_clock w" "w_node w1 = nd"
  obtain q where q: "healthy nd" "dict_get (nd_txs nd) (st_txid g) = Some q" "rec_included_block q = None"
      "w_clock w < st_expiration (rec_tx q)" using assms(2) by (auto simp: pending_def)
  obtain w2 where r: "run sha (drive sha cfg sg wid ?op) w1 = (Inr 0, w2)" "wrote_row w1 w2 (released (w_clock w1) ?op)"
    by (rule waiting_drive [of w1 ?op g q]) (use w1 q assms(1) in \<open>simp_all add: sent_row_def\<close>)
  then show "\<exists>w2 op'. run sha (drive sha cfg sg wid ?op) w1 = (Inr 0, w2) \<and> wrote_row w1 w2 op' \<and>
      operation_id op' = operation_id ?op \<and> sent_row BROADCAST g op'"
    using assms(1) by (intro exI [of _ w2] exI [of _ "released (w_clock w1) ?op"]) (simp add: sent_row_def released_def)
qed

lemma finds:
  assumes "op_state op = BROADCASTING" "signed_tx op = Some (to_json g)" "op_txid op = Some (st_txid g)"
    "pending (w_clock w) nd g"
  shows "drives_to sha cfg sg wid w (claimed now wid d op) nd 1 nd (sent_row BROADCAST g)"
proof (rule drives_same)
  let ?op = "claimed now wid d op"
  fix w1 assume w1: "holds_row w1 ?op" "w_clock w1 = w_clock w" "w_node w1 = nd"
  obtain q where q: "healthy nd" "dict_get (nd_txs nd) (st_txid g) = Some q" "rec_included_block q = None"
      "w_clock w < st_expiration (rec_tx q)" using assms(4) by (auto simp: pending_def)
  obtain op' w2 where r: "run sha (drive sha cfg sg wid ?op) w1 = (Inr 1, w2)" "wrote_row w1 w2 op'" "same_claim ?op op'"
      "op_state op' = BROADCAST" "signed_tx op' = Some (to_json g)" "op_txid op' = op_txid ?op" "lease_expires_at op' = None"
    by (rule finding_drive [of w1 ?op g q]) (use w1 q assms in simp_all)
  then show "\<exists>w2 op'. run sha (drive sha cfg sg wid ?op) w1 = (Inr 1, w2) \<and> wrote_row w1 w2 op' \<and>
      operation_id op' = operation_id ?op \<and> sent_row BROADCAST g op'"
    using same_claim_id [OF r(3)] assms(3) by (intro exI [of _ w2] exI [of _ op']) (simp add: sent_row_def)
qed

text \<open>In a solid block with a good receipt, the row is confirmed.\<close>

definition paid_row :: "signedtx \<Rightarrow> operation \<Rightarrow> bool" where
  "paid_row g op \<longleftrightarrow> op_state op = CONFIRMED \<and> op_txid op = Some (st_txid g)"

definition mined :: "node \<Rightarrow> signedtx \<Rightarrow> bool" where
  "mined nd g \<longleftrightarrow> (\<exists>q h. dict_get (nd_txs nd) (st_txid g) = Some q \<and> rec_included_block q = Some h \<and>
     h \<le> solid_block nd \<and> receipt q = Some ''SUCCESS'')"

lemma confirms:
  assumes "sent_row BROADCAST g op" "healthy nd" "mined nd g" "calm (w_crash w)"
  shows "drives_to sha cfg sg wid w (claimed now wid d op) nd 1 nd (paid_row g)"
proof (rule drives_same)
  let ?op = "claimed now wid d op"
  fix w1 assume w1: "holds_row w1 ?op" "w_clock w1 = w_clock w" "w_node w1 = nd" "w_crash w1 = w_crash w"
  obtain q h where q: "dict_get (nd_txs nd) (st_txid g) = Some q" "rec_included_block q = Some h"
      "h \<le> solid_block nd" "receipt q = Some ''SUCCESS''" using assms(3) by (auto simp: mined_def)
  obtain op' w2 where r: "run sha (drive sha cfg sg wid ?op) w1 = (Inr 1, w2)" "wrote_row w1 w2 op'" "same_claim ?op op'"
      "op_state op' = CONFIRMED" "signed_tx op' = Some (to_json g)" "op_txid op' = op_txid ?op"
    by (rule second_drive [of w1 ?op g q h]) (use w1 q assms in \<open>simp_all add: sent_row_def\<close>)
  then show "\<exists>w2 op'. run sha (drive sha cfg sg wid ?op) w1 = (Inr 1, w2) \<and> wrote_row w1 w2 op' \<and>
      operation_id op' = operation_id ?op \<and> paid_row g op'"
    using same_claim_id [OF r(3)] assms(1) by (intro exI [of _ w2] exI [of _ op']) (simp add: sent_row_def paid_row_def)
qed

text \<open>The heir sends again, and the other row goes out for the first time.\<close>

lemma resends:
  assumes op: "op_state op = BROADCASTING" "signed_tx op = Some (to_json g)" "op_txid op = Some (st_txid g)"
    and node: "dict_get (nd_faults nd) ''broadcast'' = Some [TIMEOUT_ACCEPTED]"
      "dict_get (nd_faults nd) ''query'' = Some []" "verify sha (nd_signer nd) g = Inr True"
      "dict_get (nd_txs nd) (st_txid g) = None"
    and time: "w_clock w < st_expiration g" "solid_now nd = Inr t" "t < st_expiration g + expiration_safety_seconds cfg"
  shows "drives_to sha cfg sg wid w (claimed now wid d op) nd 0 (accepts_silently nd g wid) (sent_row BROADCASTING g)"
  unfolding drives_to_def
proof (intro allI impI)
  let ?op = "claimed now wid d op"
  fix w1 assume w1: "holds_row w1 ?op \<and> w_clock w1 = w_clock w \<and> w_node w1 = nd \<and> w_crash w1 = w_crash w"
  obtain w2 where "run sha (drive sha cfg sg wid ?op) w1 = (Inr 0, w2)"
      "wrote_row (w1\<lparr>w_node := accepts_silently (w_node w1) g wid\<rparr>) w2 (released (w_clock w1) ?op)"
    by (rule resending_drive [of w1 ?op g sha t cfg]) (use w1 assms in simp_all)
  then show "\<exists>w2 op'. run sha (drive sha cfg sg wid ?op) w1 = (Inr 0, w2) \<and>
      wrote_row (w1\<lparr>w_node := accepts_silently nd g wid\<rparr>) w2 op' \<and> operation_id op' = operation_id ?op \<and> sent_row BROADCASTING g op'"
    using w1 op by (intro exI [of _ w2] exI [of _ "released (w_clock w1) ?op"]) (simp add: sent_row_def released_def)
qed

lemma sends:
  assumes op: "op_state op = REQUESTED" "payable sha cfg op"
    and node: "healthy nd" "nd_signer nd = sg" "CHR '':'' \<notin> set (key_id sg)" "ref_block nd = Inr ref"
      "py_str (amount_units op) = Inr units"
    and g: "g = sign sha sg (unsigned_envelope sha cfg op units ref (w_clock w))" "dict_get (nd_txs nd) (st_txid g) = None"
    and rest: "0 < tx_ttl_seconds cfg" "calm (w_crash w)"
  shows "drives_to sha cfg sg wid w (claimed now wid d op) nd 1 (accepts nd g wid) (sent_row BROADCAST g)"
  unfolding drives_to_def
proof (intro allI impI)
  let ?op = "claimed now wid d op"
  fix w1 assume w1: "holds_row w1 ?op \<and> w_clock w1 = w_clock w \<and> w_node w1 = nd \<and> w_crash w1 = w_crash w"
  have u: "unsigned_envelope sha cfg ?op units ref (w_clock w1) = unsigned_envelope sha cfg op units ref (w_clock w)"
    using w1 by (simp add: unsigned_envelope_def build_envelope_def claimed_def)
  have p: "payable sha cfg ?op" "py_str (amount_units ?op) = Inr units"
    using op(2) node(5) by (simp_all add: payable_def claimed_def)
  obtain op' w2 where r: "run sha (drive sha cfg sg wid ?op) w1 = (Inr 1, w2)"
      "wrote_row (w1\<lparr>w_node := accepts (w_node w1) g wid\<rparr>) w2 op'" "same_claim ?op op'"
      "op_state op' = BROADCAST" "signed_tx op' = Some (to_json g)" "op_txid op' = Some (st_txid g)" "lease_expires_at op' = None"
    by (rule first_drive [of w1 ?op sha cfg sg ref units g wid]) (use w1 assms p u in simp_all)
  then show "\<exists>w2 op'. run sha (drive sha cfg sg wid ?op) w1 = (Inr 1, w2) \<and>
      wrote_row (w1\<lparr>w_node := accepts nd g wid\<rparr>) w2 op' \<and> operation_id op' = operation_id ?op \<and> sent_row BROADCAST g op'"
    using w1 same_claim_id [OF r(3)] by (intro exI [of _ w2] exI [of _ op']) (simp add: sent_row_def)
qed

end
