(* ===== verification/Identifiers.thy ===== *)
theory Identifiers
  imports Model Money
begin

text \<open>
  \<open>uuid.UUID(text)\<close> as the intake uses it: the constructor drops every \<open>urn:\<close> and \<open>uuid:\<close>,
  strips braces, drops hyphens, wants 32 characters and reads them with \<open>int(hex, 16)\<close>.  That
  reader is more liberal than a run of 32 hexadecimal digits: it skips white space around the
  number and takes a sign, a \<open>0x\<close> prefix and single underscores between digits.
\<close>

section \<open>Definitions\<close>

text \<open>\<open>s.replace(pat, "")\<close>: the occurrences from the left that do not overlap.\<close>

function py_remove :: "string \<Rightarrow> string \<Rightarrow> string" where
  "py_remove pat s =
     (if pat = [] \<or> s = [] then s
      else if take (length pat) s = pat then py_remove pat (drop (length pat) s)
      else hd s # py_remove pat (tl s))"
  by pat_completeness auto
termination
  by (relation "measure (\<lambda>(pat, s). length s)") (auto simp: length_greater_0_conv [symmetric] simp del: length_greater_0_conv)

declare py_remove.simps [simp del]

definition hex_val :: "char \<Rightarrow> nat option" where
  "hex_val c =
     (let n = (of_char c :: nat) in
      if 48 \<le> n \<and> n \<le> 57 then Some (n - 48)
      else if 97 \<le> n \<and> n \<le> 102 then Some (n - 87)
      else if 65 \<le> n \<and> n \<le> 70 then Some (n - 55)
      else None)"

text \<open>White space around a number: the ASCII kind, and the two other spaces below 256.\<close>

definition int_space :: "char \<Rightarrow> bool" where
  "int_space c \<longleftrightarrow> (let n = (of_char c :: nat) in (9 \<le> n \<and> n \<le> 13) \<or> n = 32 \<or> n = 133 \<or> n = 160)"

text \<open>Digits with single underscores between them; the flag says that a digit came just before.\<close>

fun hex_scan :: "bool \<Rightarrow> nat \<Rightarrow> string \<Rightarrow> nat option" where
  "hex_scan after acc [] = (if after then Some acc else None)"
| "hex_scan after acc (c # cs) =
     (if c = CHR ''_'' then (if after then hex_scan False acc cs else None)
      else case hex_val c of None \<Rightarrow> None | Some d \<Rightarrow> hex_scan True (acc * 16 + d) cs)"

definition drop_prefix :: "string \<Rightarrow> string" where
  "drop_prefix s =
     (if take 2 s \<in> {''0x'', ''0X''}
      then (let r = drop 2 s in if r \<noteq> [] \<and> hd r = CHR ''_'' then tl r else r)
      else s)"

definition int16 :: "string \<Rightarrow> exn + int" where
  "int16 s =
     (let t = py_strip int_space s;
          neg = (t \<noteq> [] \<and> hd t = CHR ''-'');
          u = (if t \<noteq> [] \<and> hd t \<in> {CHR ''-'', CHR ''+''} then tl t else t)
      in case hex_scan False 0 (drop_prefix u) of
           None \<Rightarrow> Inl ValueError
         | Some n \<Rightarrow> Inr (if neg then - int n else int n))"

definition UUID :: "string \<Rightarrow> exn + uuid" where
  "UUID text =
     (let h = py_remove ''uuid:'' (py_remove ''urn:'' text);
          h' = filter (\<lambda>c. c \<noteq> CHR ''-'') (py_strip (\<lambda>c. c \<in> {CHR ''{'', CHR ''}''}) h)
      in if length h' \<noteq> 32 then Inl ValueError
         else ebind (int16 h') (\<lambda>n. if 0 \<le> n \<and> n < 2 ^ 128 then Inr n else Inl ValueError))"

text \<open>
  \<open>UUID(str(raw_id))\<close> on a value of the request body.  The text of a number with a fraction or an
  exponent is at most 24 characters long; the text of a list begins with a bracket, the text of an
  object is \<open>{}\<close> or holds a quotation mark: none of these is accepted.
\<close>

definition UUID_of :: "json \<Rightarrow> exn + uuid" where
  "UUID_of v =
     (case v of
        JStr s \<Rightarrow> UUID s
      | JInt i \<Rightarrow> ebind (py_str i) UUID
      | JNull \<Rightarrow> UUID ''None''
      | JBool b \<Rightarrow> UUID (if b then ''True'' else ''False'')
      | JFloat _ \<Rightarrow> Inl ValueError
      | JList _ \<Rightarrow> Inl ValueError
      | JObj _ \<Rightarrow> Inl ValueError)"

section \<open>Lemmas\<close>

lemma UUID_range: "UUID s = Inr u \<Longrightarrow> 0 \<le> u \<and> u < 2 ^ 128"
  by (auto simp: UUID_def Let_def ebind_Inr_iff split: if_splits)

lemma hex_val_char: "n < 16 \<Longrightarrow> hex_val (hex_char n) = Some n"
  by (auto simp: hex_val_def hex_char_of Let_def)

lemma hex_char_plain: "n < 16 \<Longrightarrow> hex_char n \<noteq> CHR ''_'' \<and> hex_char n \<noteq> CHR ''-'' \<and> hex_char n \<noteq> CHR ''x''"
  using hex_val_char [of n] by (auto simp: hex_val_def)

lemma hex_scan_digits:
  "\<forall>d \<in> set ds. d < 16 \<Longrightarrow> hex_scan after acc (map hex_char ds) =
     (if ds = [] \<and> \<not> after then None else Some (foldl (\<lambda>a d. a * 16 + d) acc ds))"
  by (induction ds arbitrary: after acc) (simp_all add: hex_val_char hex_char_plain)

lemma py_remove_absent: "c \<in> set pat \<Longrightarrow> c \<notin> set s \<Longrightarrow> py_remove pat s = s"
proof (induction s)
  case (Cons x xs)
  have "take (length pat) (x # xs) \<noteq> pat"
    using Cons.prems by (metis in_set_takeD)
  then show ?case
    using Cons py_remove.simps [of pat "x # xs"] by auto
qed (simp add: py_remove.simps)

lemma py_strip_none: "\<forall>c \<in> set s. \<not> p c \<Longrightarrow> py_strip p s = s"
proof -
  assume a: "\<forall>c \<in> set s. \<not> p c"
  have "dropWhile p t = t" if "\<forall>c \<in> set t. \<not> p c" for t
    using that by (cases t) auto
  from this [of s] this [of "rev s"] show ?thesis
    using a by (simp add: py_strip_def py_lstrip_def py_rstrip_def)
qed

text \<open>The 32 digits of an identifier.\<close>

definition uuid_digits :: "uuid \<Rightarrow> nat list" where
  "uuid_digits u = (let ds = radix_digits 16 (nat u) in replicate (32 - length ds) 0 @ ds)"

lemma uuid_digits_bound: "d \<in> set (uuid_digits u) \<Longrightarrow> d < 16"
  by (auto simp: uuid_digits_def Let_def dest: radix_digits_bound)

lemma uuid_digits_length: "u < 2 ^ 128 \<Longrightarrow> length (uuid_digits u) = 32"
proof -
  assume "u < 2 ^ 128"
  then have "nat u < 16 ^ 32" by (simp add: nat_less_iff)
  then have "length (radix_digits 16 (nat u)) \<le> 32" by (intro radix_digits_length_le) simp_all
  then show ?thesis by (simp add: uuid_digits_def Let_def)
qed

lemma uuid_digits_val: "0 \<le> u \<Longrightarrow> foldl (\<lambda>a d. a * 16 + d) 0 (uuid_digits u) = nat u"
  using radix_val_digits [of 16 "nat u"] radix_val_zeros [of 16 _ "radix_digits 16 (nat u)"]
  by (simp add: uuid_digits_def radix_val_def Let_def)

lemma uuid_hex: "py_rjust (map hex_char (radix_digits 16 (nat u))) 32 CHR ''0'' = map hex_char (uuid_digits u)"
proof -
  have "(of_char (hex_char 0) :: nat) = of_char CHR ''0''" by (simp add: hex_char_of)
  then have "hex_char 0 = CHR ''0''" by (simp only: of_char_eq_iff)
  then show ?thesis by (simp add: py_rjust_def uuid_digits_def Let_def)
qed

lemma uuid_str_chars:
  "c \<in> set (uuid_str u) \<Longrightarrow> c = CHR ''-'' \<or> c \<in> hex_char ` set (uuid_digits u)"
  unfolding uuid_str_def uuid_hex Let_def by (auto dest!: in_set_takeD in_set_dropD)

lemma hex_char_range: "n < 16 \<Longrightarrow> (of_char (hex_char n) :: nat) \<in> {48..57} \<union> {97..102}"
  by (simp add: hex_char_of)

lemma groups_append:
  "take 8 h @ take 4 (drop 8 h) @ take 4 (drop 12 h) @ take 4 (drop 16 h) @ drop 20 h = h"
proof -
  have "take 4 (drop 16 h) @ drop 20 h = drop 16 h" "take 4 (drop 12 h) @ drop 16 h = drop 12 h"
    "take 4 (drop 8 h) @ drop 12 h = drop 8 h"
    using append_take_drop_id [of 4 "drop 16 h"] append_take_drop_id [of 4 "drop 12 h"]
      append_take_drop_id [of 4 "drop 8 h"] by simp_all
  then show ?thesis by simp
qed

lemma uuid_str_filter:
  "filter (\<lambda>c. c \<noteq> CHR ''-'') (uuid_str u) = map hex_char (uuid_digits u)"
proof -
  let ?h = "map hex_char (uuid_digits u)"
  have all: "filter (\<lambda>c. c \<noteq> CHR ''-'') xs = xs" if sub: "set xs \<subseteq> set ?h" for xs
  proof (intro filter_True ballI)
    fix c assume "c \<in> set xs"
    then have "c \<in> hex_char ` set (uuid_digits u)" using sub by (metis image_set subsetD)
    then obtain d where "d \<in> set (uuid_digits u)" "c = hex_char d" by blast
    then show "c \<noteq> CHR ''-''" using hex_char_plain [OF uuid_digits_bound [of d u]] by simp
  qed
  have piece: "filter (\<lambda>c. c \<noteq> CHR ''-'') (take n (drop m ?h)) = take n (drop m ?h)" for n m
    by (rule all) (meson in_set_dropD in_set_takeD subsetI)
  have "filter (\<lambda>c. c \<noteq> CHR ''-'') (uuid_str u) =
      take 8 ?h @ take 4 (drop 8 ?h) @ take 4 (drop 12 ?h) @ take 4 (drop 16 ?h) @ drop 20 ?h"
    unfolding uuid_str_def uuid_hex Let_def
    by (simp add: piece all [OF set_take_subset] all [OF set_drop_subset] del: take_map drop_map map_append filter_map)
  also have "\<dots> = ?h"
    by (rule groups_append)
  finally show ?thesis .
qed

lemma UUID_uuid_str:
  assumes "0 \<le> u" "u < 2 ^ 128"
  shows "UUID (uuid_str u) = Inr u"
proof -
  let ?ds = "uuid_digits u"
  have ch: "(of_char c :: nat) \<in> {45} \<union> {48..57} \<union> {97..102}" if "c \<in> set (uuid_str u)" for c
    using uuid_str_chars [OF that] hex_char_range uuid_digits_bound by fastforce
  have "CHR '':'' \<notin> set (uuid_str u)" using ch by force
  then have rm: "py_remove pat (uuid_str u) = uuid_str u" if "pat \<in> {''urn:'', ''uuid:''}" for pat
    using that py_remove_absent [of "CHR '':''" pat "uuid_str u"] by auto
  have st: "py_strip (\<lambda>c. c \<in> {CHR ''{'', CHR ''}''}) (uuid_str u) = uuid_str u"
    using ch by (intro py_strip_none) force
  have len: "length ?ds = 32" using uuid_digits_length [OF assms(2)] .
  have "int16 (map hex_char ?ds) = Inr u"
  proof -
    have sp: "py_strip int_space (map hex_char ?ds) = map hex_char ?ds"
      using hex_char_range uuid_digits_bound by (intro py_strip_none) (force simp: int_space_def Let_def)
    obtain a b rest where ds: "?ds = a # b # rest" using len by (cases ?ds; cases "tl ?ds") auto
    then have ab: "a < 16" "b < 16" using uuid_digits_bound [of _ u] by auto
    have "hex_char a \<notin> {CHR ''-'', CHR ''+''}" "hex_char b \<notin> {CHR ''x'', CHR ''X''}"
      using hex_char_range [OF ab(1)] hex_char_range [OF ab(2)] by auto
    moreover have "hex_scan False 0 (map hex_char ?ds) = Some (nat u)"
    proof -
      have "\<forall>d \<in> set ?ds. d < 16" using uuid_digits_bound by blast
      moreover have "?ds \<noteq> []" using ds by simp
      ultimately show ?thesis using hex_scan_digits [of ?ds False 0] uuid_digits_val [OF assms(1)] by simp
    qed
    ultimately show ?thesis
      using assms(1) unfolding int16_def sp Let_def by (simp add: ds drop_prefix_def)
  qed
  then show ?thesis
    using assms len by (simp add: UUID_def rm st [simplified] uuid_str_filter Let_def)
qed

section \<open>Properties\<close>

text \<open>Identifiers survive printing: the canonical text of every 128-bit identifier is read back as
  that identifier, and whatever text the constructor accepts, the canonical text of the result
  names the same identifier.\<close>

theorem uuid_roundtrip:
  assumes "0 \<le> u" "u < 2 ^ 128"
  shows "UUID (uuid_str u) = Inr u \<and> (UUID s = Inr v \<longrightarrow> UUID (uuid_str v) = Inr v)"
  using UUID_uuid_str [OF assms] UUID_range UUID_uuid_str by blast

theorem uuid_roundtrip_witness:
  "UUID (uuid_str 0x123e4567e89b12d3a456426614174000) = Inr 0x123e4567e89b12d3a456426614174000"
  using uuid_roundtrip [of "0x123e4567e89b12d3a456426614174000"] by simp

end
