(* ===== verification/Service.thy ===== *)
theory Service
  imports Memory_Store Canonical Address Config Identifiers
begin

text \<open>
  \<open>sluice/service.py\<close>: the intake.  \<open>submit_withdrawal\<close> is a function of the store's
  \<open>insert_new\<close>, because the source takes any store; the locale \<open>intake_store\<close> is what it relies on.
\<close>

section \<open>Definitions\<close>

record submit_result =
  sr_operation :: operation
  sr_created :: bool

definition payload_get :: "(string, json) dict \<Rightarrow> string \<Rightarrow> json" where
  "payload_get d k = (case dict_get d k of None \<Rightarrow> JNull | Some v \<Rightarrow> v)"

text \<open>The checks, in the order of the source, and the operation they admit.\<close>

definition check_id :: "(string, json) dict \<Rightarrow> exn + uuid" where
  "check_id d =
     (case UUID_of (payload_get d ''operation_id'') of
        Inl _ \<Rightarrow> Inl (ValidationError ''operation_id'' (Reason ''must be a UUID (client-generated)''))
      | Inr u \<Rightarrow> Inr u)"

definition check_address :: "(bytes \<Rightarrow> bytes) \<Rightarrow> (string, json) dict \<Rightarrow> exn + string" where
  "check_address sha d =
     (case payload_get d ''to_address'' of
        JStr a \<Rightarrow>
          if is_valid sha a then Inr a
          else Inl (ValidationError ''to_address'' (Reason ''not a valid TRON base58check address''))
      | _ \<Rightarrow> Inl (ValidationError ''to_address'' (Reason ''not a valid TRON base58check address'')))"

definition check_asset :: "config \<Rightarrow> (string, json) dict \<Rightarrow> exn + string" where
  "check_asset cfg d =
     (case dict_get d ''asset'' of
        None \<Rightarrow> Inr (cfg_asset cfg)
      | Some v \<Rightarrow>
          if v = JStr (cfg_asset cfg) then Inr (cfg_asset cfg)
          else Inl (ValidationError ''asset'' (Unsupported_Asset v)))"

definition check_amount :: "config \<Rightarrow> (string, json) dict \<Rightarrow> exn + int" where
  "check_amount cfg d =
     (case to_units (payload_get d ''amount'') (token_decimals cfg) of
        Inl (AmountError p) \<Rightarrow> Inl (ValidationError ''amount'' (Amount_Reason p))
      | Inl e \<Rightarrow> Inl e
      | Inr units \<Rightarrow>
          if units < min_amount_units cfg then Inl (ValidationError ''amount'' (Reason ''below minimum''))
          else if units > max_amount_units cfg
            then Inl (ValidationError ''amount'' (Reason ''above per-operation maximum''))
          else Inr units)"

definition intake_checks :: "(bytes \<Rightarrow> bytes) \<Rightarrow> config \<Rightarrow> (string, json) dict \<Rightarrow> exn + operation" where
  "intake_checks sha cfg d =
     ebind (check_id d) (\<lambda>op_id.
     ebind (check_address sha d) (\<lambda>to_addr.
     ebind (check_asset cfg d) (\<lambda>ass.
     ebind (check_amount cfg d) (\<lambda>units.
     Inr (new_operation op_id (request_hash sha to_addr units ass) REQUESTED to_addr ass units)))))"

definition submit_withdrawal :: "(bytes \<Rightarrow> bytes) \<Rightarrow> config \<Rightarrow>
    ('s \<Rightarrow> operation \<Rightarrow> (exn + operation \<times> bool) \<times> 's) \<Rightarrow> 's \<Rightarrow> json \<Rightarrow> (exn + submit_result) \<times> 's" where
  "submit_withdrawal sha cfg ins s payload =
     (case payload of
        JObj d \<Rightarrow>
          (case intake_checks sha cfg d of
             Inl e \<Rightarrow> (Inl e, s)
           | Inr op \<Rightarrow>
               (case ins s op of
                  (Inl e, s') \<Rightarrow> (Inl e, s')
                | (Inr (row, created), s') \<Rightarrow>
                    if \<not> created \<and> op_request_hash row \<noteq> op_request_hash op
                    then (Inl (PayloadMismatch (operation_id op)), s')
                    else (Inr \<lparr> sr_operation = row, sr_created = created \<rparr>, s')))
      | _ \<Rightarrow> (Inl (ValidationError ''body'' (Reason ''expected a JSON object'')), s))"

section \<open>What the intake relies on\<close>

locale intake_store =
  fixes good :: "'s \<Rightarrow> bool"
    and row :: "'s \<Rightarrow> uuid \<Rightarrow> operation option"
    and ins :: "time \<Rightarrow> time \<Rightarrow> 's \<Rightarrow> operation \<Rightarrow> (exn + operation \<times> bool) \<times> 's"
    and later :: "'s \<Rightarrow> 's \<Rightarrow> bool"
  assumes ins_good: "good s \<Longrightarrow> ins now at s op = (ans, s') \<Longrightarrow> good s'"
    and ins_row: "good s \<Longrightarrow> ins now at s op = (Inr (r, created), s') \<Longrightarrow>
          row s' (operation_id op) = Some r \<and> created = (row s (operation_id op) = None) \<and>
          (created \<longrightarrow> intake_part r = intake_part (stamped now op) \<and> op_state r = op_state op) \<and>
          (\<forall>i. row s i \<noteq> None \<or> i \<noteq> operation_id op \<longrightarrow> row s' i = row s i)"
    and ins_error: "good s \<Longrightarrow> ins now at s op = (Inl e, s') \<Longrightarrow> row s' = row s"
    and later_keeps: "good s \<Longrightarrow> later s s' \<Longrightarrow> row s i = Some r \<Longrightarrow>
          good s' \<and> (\<exists>r'. row s' i = Some r' \<and> intake_part r' = intake_part r)"
begin

text \<open>What a successful submission leaves in the store.\<close>

lemma submit_success:
  assumes "good s" "submit_withdrawal sha cfg (ins now at) s payload = (Inr res, s')"
  obtains d op where "payload = JObj d" "intake_checks sha cfg d = Inr op" "good s'"
    "row s' (operation_id op) = Some (sr_operation res)"
    "op_request_hash (sr_operation res) = op_request_hash op"
    "sr_created res = (row s (operation_id op) = None)"
    "sr_created res \<Longrightarrow> intake_part (sr_operation res) = intake_part (stamped now op) \<and>
       op_state (sr_operation res) = REQUESTED"
proof -
  obtain d op where d: "payload = JObj d" "intake_checks sha cfg d = Inr op"
    using assms(2) by (auto simp: submit_withdrawal_def split: json.splits sum.splits)
  then obtain r created where i: "ins now at s op = (Inr (r, created), s')"
      "res = \<lparr> sr_operation = r, sr_created = created \<rparr>" "created \<or> op_request_hash r = op_request_hash op"
    using assms(2) by (auto simp: submit_withdrawal_def split: sum.splits prod.splits if_splits)
  have "op_state op = REQUESTED" using d(2) by (auto simp: intake_checks_def ebind_Inr_iff new_operation_def)
  then show thesis
    using ins_good [OF assms(1) i(1)] ins_row [OF assms(1) i(1)] i(2,3)
    by (intro that [OF d]) (auto simp: intake_part_def stamped_def)
qed

text \<open>Submitting again under a known id: a replay when the hash agrees, a refusal when not, and no
  row is touched.\<close>

lemma resubmit:
  assumes "good s" "row s i = Some r" "intake_checks sha cfg d = Inr op" "operation_id op = i"
  shows "\<exists>s'. row s' = row s \<and>
    (submit_withdrawal sha cfg (ins now at) s (JObj d) =
       (if op_request_hash r = op_request_hash op then Inr \<lparr> sr_operation = r, sr_created = False \<rparr>
        else Inl (PayloadMismatch i), s') \<or>
     (\<exists>e. submit_withdrawal sha cfg (ins now at) s (JObj d) = (Inl e, s') \<and> fst (ins now at s op) = Inl e))"
proof -
  obtain ans s' where a: "ins now at s op = (ans, s')" by fastforce
  show ?thesis
  proof (cases ans)
    case (Inl e)
    then show ?thesis
      using a assms(3) ins_error [OF assms(1)] by (intro exI [of _ s']) (simp add: submit_withdrawal_def)
  next
    case (Inr x)
    then obtain r' created where x: "ins now at s op = (Inr (r', created), s')" using a by (cases x) auto
    have "row s' i = Some r'" "\<not> created" "\<forall>j. row s' j = row s j"
      using ins_row [OF assms(1) x] assms(2,4) by (metis option.distinct(1))+
    then show ?thesis using x assms(2-4) by (auto simp: submit_withdrawal_def fun_eq_iff)
  qed
qed

end

text \<open>A fenced store is one.\<close>

sublocale fenced_store \<subseteq> intake: intake_store good row s_insert "call\<^sup>*\<^sup>*"
proof unfold_locales
  show "good s'" if "good s" "s_insert now at s op = (ans, s')" for s now at op ans s'
    using insert_law [OF that] by blast
  show "row s' (operation_id op) = Some r \<and> created = (row s (operation_id op) = None) \<and>
      (created \<longrightarrow> intake_part r = intake_part (stamped now op) \<and> op_state r = op_state op) \<and>
      (\<forall>i. row s i \<noteq> None \<or> i \<noteq> operation_id op \<longrightarrow> row s' i = row s i)"
    if "good s" "s_insert now at s op = (Inr (r, created), s')" for s now at op r created s'
    using insert_law [OF that] by simp
  show "row s' = row s" if "good s" "s_insert now at s op = (Inl e, s')" for s now at op e s'
    using insert_law [OF that] by simp
  show "good s' \<and> (\<exists>r'. row s' i = Some r' \<and> intake_part r' = intake_part r)"
    if "good s" "call\<^sup>*\<^sup>* s s'" "row s i = Some r" for s s' i r
    using run_evolves [OF that(2,1,3)] by (auto simp: row_evolves_def)
qed

context fenced_store
begin

lemma serves_intake: "intake_store good row s_insert (call\<^sup>*\<^sup>*)"
  by (rule intake.intake_store_axioms)

end

section \<open>Lemmas\<close>

lemma intake_checks_InrD:
  assumes "intake_checks sha cfg d = Inr op"
  shows "0 \<le> operation_id op" "operation_id op < 2 ^ 128" "is_valid sha (to_address op)"
    "asset op = cfg_asset cfg" "min_amount_units cfg \<le> amount_units op"
    "amount_units op \<le> max_amount_units cfg" "op_state op = REQUESTED"
    "op_request_hash op = request_hash sha (to_address op) (amount_units op) (asset op)"
proof -
  obtain u a ass n where p: "check_id d = Inr u" "check_address sha d = Inr a" "check_asset cfg d = Inr ass"
      "check_amount cfg d = Inr n" "op = new_operation u (request_hash sha a n ass) REQUESTED a ass n"
    using assms by (auto simp: intake_checks_def ebind_Inr_iff)
  have "UUID_of v = Inr u \<Longrightarrow> 0 \<le> u \<and> u < 2 ^ 128" for v
    by (auto simp: UUID_of_def ebind_Inr_iff split: json.splits if_splits dest!: UUID_range)
  then have "0 \<le> u \<and> u < 2 ^ 128" using p(1) by (auto simp: check_id_def split: sum.splits)
  moreover have "is_valid sha a" using p(2) by (auto simp: check_address_def split: json.splits if_splits)
  moreover have "ass = cfg_asset cfg" using p(3) by (auto simp: check_asset_def split: option.splits if_splits)
  moreover have "min_amount_units cfg \<le> n \<and> n \<le> max_amount_units cfg"
    using p(4) by (auto simp: check_amount_def split: sum.splits exn.splits if_splits)
  ultimately show "0 \<le> operation_id op" "operation_id op < 2 ^ 128" "is_valid sha (to_address op)"
    "asset op = cfg_asset cfg" "min_amount_units cfg \<le> amount_units op"
    "amount_units op \<le> max_amount_units cfg" "op_state op = REQUESTED"
    "op_request_hash op = request_hash sha (to_address op) (amount_units op) (asset op)"
    by (simp_all add: p(5) new_operation_def)
qed

text \<open>Where the digest does not collide, equal hashes mean equal requests.\<close>

lemma same_hash_iff:
  assumes "intake_checks sha cfg d0 = Inr op0" "intake_checks sha cfg d = Inr op"
    and "inj_on sha {canonical_request (to_address op0) (amount_units op0) (asset op0),
                     canonical_request (to_address op) (amount_units op) (asset op)}"
  shows "op_request_hash op0 = op_request_hash op \<longleftrightarrow>
    (to_address op, amount_units op, asset op) = (to_address op0, amount_units op0, asset op0)"
proof -
  let ?text = "\<lambda>op. canonical_request (to_address op) (amount_units op) (asset op)"
  have "sha (?text op0) = sha (?text op) \<longleftrightarrow> ?text op0 = ?text op"
    using inj_on_eq_iff [OF assms(3), of "?text op0" "?text op"] by blast
  then show ?thesis
    unfolding intake_checks_InrD(8) [OF assms(1)] intake_checks_InrD(8) [OF assms(2)] request_hash_def
      canonical_request_inject by auto
qed

section \<open>The intake over the memory store\<close>

definition mem_submit :: "(bytes \<Rightarrow> bytes) \<Rightarrow> config \<Rightarrow> time \<Rightarrow> time \<Rightarrow> mstore \<Rightarrow> json \<Rightarrow>
    (exn + submit_result) \<times> mstore" where
  "mem_submit sha cfg now at = submit_withdrawal sha cfg (\<lambda>s op. apfst Inr (insert_new now at s op))"

interpretation mem_intake: intake_store store_wf get
  "\<lambda>now at s op. apfst Inr (insert_new now at s op)" "store_step\<^sup>*\<^sup>*"
  unfolding store_step_call by (rule mem.intake.intake_store_axioms)

lemmas mem_submit_success = mem_intake.submit_success [folded mem_submit_def]

lemma mem_resubmit:
  assumes "store_wf s" "get s i = Some r" "intake_checks sha cfg d = Inr op" "operation_id op = i"
  shows "mem_submit sha cfg now at s (JObj d) =
    (if op_request_hash r = op_request_hash op then Inr \<lparr> sr_operation = r, sr_created = False \<rparr>
     else Inl (PayloadMismatch i), s)"
  using assms by (auto simp: mem_submit_def submit_withdrawal_def insert_new_def get_def)

text \<open>Two bodies with one meaning, for the witnesses.\<close>

definition sample_body :: "string \<Rightarrow> (string, json) dict" where
  "sample_body amount = [(''operation_id'', JStr (uuid_str 7)), (''to_address'', JStr sample_address),
     (''amount'', JStr amount)]"

definition sample_op5 :: operation where
  "sample_op5 = new_operation 7 (request_hash sample_sha sample_address 5000000 ''USDT-TRC20'') REQUESTED
     sample_address ''USDT-TRC20'' 5000000"

lemma sample_amounts:
  "to_units (JStr ''5'') 6 = Inr 5000000" "to_units (JStr ''5.0'') 6 = Inr 5000000"
  using to_units_whole [of "''5''" 6] to_units_frac [of "''5''" 6 "''0''"]
  by (simp_all add: is_digit_def max_str_digits_def digits_val_def digit_val_def)

lemma sample_checks:
  "intake_checks sample_sha default_config (sample_body ''5'') = Inr sample_op5"
  "intake_checks sample_sha default_config (sample_body ''5.0'') = Inr sample_op5"
proof -
  have "check_id (sample_body a) = Inr 7" for a
    using UUID_uuid_str [of 7] by (simp add: check_id_def payload_get_def sample_body_def UUID_of_def)
  moreover have "check_address sample_sha (sample_body a) = Inr sample_address" for a
    using sample_address_valid by (simp add: check_address_def payload_get_def sample_body_def)
  moreover have "check_asset default_config (sample_body a) = Inr ''USDT-TRC20''" for a
    by (simp add: check_asset_def sample_body_def default_config_def)
  moreover have "check_amount default_config (sample_body ''5'') = Inr 5000000"
      "check_amount default_config (sample_body ''5.0'') = Inr 5000000"
    using sample_amounts by (simp_all add: check_amount_def payload_get_def sample_body_def default_config_def)
  ultimately show "intake_checks sample_sha default_config (sample_body ''5'') = Inr sample_op5"
    "intake_checks sample_sha default_config (sample_body ''5.0'') = Inr sample_op5"
    by (simp_all add: intake_checks_def sample_op5_def)
qed

definition sample_submitted :: mstore where
  "sample_submitted = snd (insert_new 0 0 new_store sample_op5)"

lemma sample_submit:
  "mem_submit sample_sha default_config 0 0 new_store (JObj (sample_body ''5'')) =
     (Inr \<lparr> sr_operation = stamped 0 sample_op5, sr_created = True \<rparr>, sample_submitted)"
  by (simp add: mem_submit_def submit_withdrawal_def sample_checks sample_submitted_def insert_new_def new_store_def
      stamped_def Let_def)

section \<open>Properties\<close>

text \<open>
  C20. Intake files only good requests: when a submission succeeds, the row under the submitted
  identifier (a number below \<open>2 ^ 128\<close>) holds the request hash of the submitted destination, amount
  and asset; a created row is in state \<open>requested\<close>, has exactly the submitted columns, a valid
  destination, the configured asset and an amount within the configured bounds.
\<close>

theorem submitted_rows_are_valid:
  assumes "store_wf s" "mem_submit sha cfg now at s payload = (Inr res, s')"
  shows "\<exists>d op. payload = JObj d \<and> intake_checks sha cfg d = Inr op \<and> store_wf s' \<and>
    0 \<le> operation_id op \<and> operation_id op < 2 ^ 128 \<and>
    get s' (operation_id op) = Some (sr_operation res) \<and>
    op_request_hash (sr_operation res) = request_hash sha (to_address op) (amount_units op) (asset op) \<and>
    (sr_created res \<longrightarrow> op_state (sr_operation res) = REQUESTED \<and>
       intake_part (sr_operation res) = intake_part (stamped now op) \<and>
       is_valid sha (to_address op) \<and> asset op = cfg_asset cfg \<and>
       min_amount_units cfg \<le> amount_units op \<and> amount_units op \<le> max_amount_units cfg)"
proof -
  obtain d op where "payload = JObj d" "intake_checks sha cfg d = Inr op" "store_wf s'"
    "get s' (operation_id op) = Some (sr_operation res)"
    "op_request_hash (sr_operation res) = op_request_hash op"
    "sr_created res \<Longrightarrow> intake_part (sr_operation res) = intake_part (stamped now op) \<and>
       op_state (sr_operation res) = REQUESTED"
    using mem_submit_success [OF assms] by metis
  with intake_checks_InrD [of sha cfg d op] show ?thesis by auto
qed

theorem submitted_rows_are_valid_witness:
  "store_wf sample_submitted \<and> get sample_submitted 7 = Some (stamped 0 sample_op5) \<and>
   is_valid sample_sha (to_address sample_op5)"
  using submitted_rows_are_valid [OF store_wf_new sample_submit] sample_checks(1)
  by (auto simp: sample_op5_def new_operation_def)

text \<open>
  C18. Intake is idempotent by meaning: once a submission under an identifier succeeded, then
  whatever calls the store serves in between, a later valid submission under that identifier changes
  nothing in the store.  It is answered with the present row, which still has the columns filed at
  first, when it has the same destination, amount and asset, and refused with \<open>PayloadMismatch\<close>
  otherwise (where the digest does not collide on the two canonical texts).
\<close>

theorem intake_is_idempotent:
  assumes "store_wf s" "mem_submit sha cfg now at s payload = (Inr first, s1)" "store_step\<^sup>*\<^sup>* s1 s2"
    and "intake_checks sha cfg d = Inr op" "operation_id op = operation_id (sr_operation first)"
    and "payload = JObj d0" "intake_checks sha cfg d0 = Inr op0"
    and "inj_on sha {canonical_request (to_address op0) (amount_units op0) (asset op0),
                     canonical_request (to_address op) (amount_units op) (asset op)}"
  shows "\<exists>r. get s2 (operation_id op) = Some r \<and> intake_part r = intake_part (sr_operation first) \<and>
    mem_submit sha cfg now' at' s2 (JObj d) =
      (if (to_address op, amount_units op, asset op) = (to_address op0, amount_units op0, asset op0)
       then Inr \<lparr> sr_operation = r, sr_created = False \<rparr>
       else Inl (PayloadMismatch (operation_id op)), s2)"
proof -
  obtain d' op' where "payload = JObj d'" "intake_checks sha cfg d' = Inr op'" "store_wf s1"
      "get s1 (operation_id op') = Some (sr_operation first)"
      "op_request_hash (sr_operation first) = op_request_hash op'"
    using mem_submit_success [OF assms(1,2)] by metis
  then have s1: "store_wf s1" "get s1 (operation_id op0) = Some (sr_operation first)"
      "op_request_hash (sr_operation first) = op_request_hash op0"
    using assms(6,7) by simp_all
  have id: "operation_id op = operation_id op0"
    using assms(5) store_wf_row [OF s1(1,2)] by simp
  obtain r where r: "store_wf s2" "get s2 (operation_id op) = Some r"
      "intake_part r = intake_part (sr_operation first)"
    using mem_intake.later_keeps [OF s1(1) assms(3) s1(2)] unfolding id by blast
  have "op_request_hash r = op_request_hash op0" using r(3) s1(3) by (simp add: intake_part_def)
  then show ?thesis
    using mem_resubmit [OF r(1,2) assms(4) refl, of now' at'] r(2,3) same_hash_iff [OF assms(7,4,8)] by auto
qed

theorem intake_is_idempotent_witness:
  "mem_submit sample_sha default_config 9 9 sample_submitted (JObj (sample_body ''5.0'')) =
     (Inr \<lparr> sr_operation = stamped 0 sample_op5, sr_created = False \<rparr>, sample_submitted)"
proof -
  have id: "operation_id sample_op5 = operation_id (stamped 0 sample_op5)" by simp
  have g: "get sample_submitted (operation_id sample_op5) = Some (stamped 0 sample_op5)"
    by (simp add: sample_submitted_def insert_new_def new_store_def get_def stamped_def Let_def)
  let ?text = "canonical_request (to_address sample_op5) (amount_units sample_op5) (asset sample_op5)"
  have inj: "inj_on sample_sha {?text, ?text}" by simp
  obtain r where "get sample_submitted (operation_id sample_op5) = Some r"
    "mem_submit sample_sha default_config 9 9 sample_submitted (JObj (sample_body ''5.0'')) =
       (Inr \<lparr> sr_operation = r, sr_created = False \<rparr>, sample_submitted)"
    using intake_is_idempotent [OF store_wf_new sample_submit rtranclp.rtrancl_refl sample_checks(2) _ refl
        sample_checks(1) inj, of 9 9] by auto
  then show ?thesis using g by simp
qed

end
