(* ===== verification/Demo.thy ===== *)
theory Demo
  imports Two_Rows Service
begin

text \<open>
  \<open>scripts/demo.py\<close>: two withdrawals, one of them submitted twice; a node that accepts a transaction and
  times out; a worker that dies right after its write-ahead; a second worker that asks the chain and
  finishes.  The printing itself is left out, and with it the excerpts of the event details; the values
  the script reports (created flags, rows, final states, timeline) and its assertions are kept.
  \<open>demo_runs_clean\<close> shows that none of the assertions fails.
\<close>

section \<open>The script\<close>

definition demo_request :: "(bytes \<Rightarrow> bytes) \<Rightarrow> uuid \<Rightarrow> 8 word \<Rightarrow> string \<Rightarrow> exn + (string, json) dict" where
  "demo_request sha oid b amount =
     ebind (from_payload sha (replicate 20 b)) (\<lambda>addr.
       Inr [(''operation_id'', JStr (uuid_str oid)), (''to_address'', JStr addr),
            (''amount'', JStr amount), (''asset'', JStr ''USDT-TRC20'')])"

definition demo_submit :: "(bytes \<Rightarrow> bytes) \<Rightarrow> world \<Rightarrow> (string, json) dict \<Rightarrow> (exn + submit_result) \<times> world" where
  "demo_submit sha w d =
     (let (r, st) = mem_submit sha default_config (w_clock w) (w_clock w) (w_store w) (JObj d)
      in (r, w\<lparr>w_store := st\<rparr>))"

definition demo_world :: world where
  "demo_world = (let clk = new_fake_clock None in
     \<lparr> w_clock = clk, w_store = new_store, w_node = new_node clk 2 1 default_signer, w_crash = new_crash_switch \<rparr>)"

text \<open>The two requests, and the first one again.\<close>

definition demo_intake :: "(bytes \<Rightarrow> bytes) \<Rightarrow> uuid \<Rightarrow> uuid \<Rightarrow>
    exn + submit_result \<times> submit_result \<times> submit_result \<times> world" where
  "demo_intake sha ida idb =
     ebind (demo_request sha ida 0x0a ''1250.75'') (\<lambda>pay_alice.
     ebind (demo_request sha idb 0x0b ''9.99'') (\<lambda>pay_bob.
     (let (a1, w1) = demo_submit sha demo_world pay_alice in ebind a1 (\<lambda>r1.
     (let (a2, w2) = demo_submit sha w1 pay_bob in ebind a2 (\<lambda>r2.
     (let (a3, w3) = demo_submit sha w2 pay_alice in ebind a3 (\<lambda>r3.
      Inr (r1, r2, r3, w3)))))))))"

text \<open>\<open>while w.run_once(): pass\<close>, with the passes counted down: \<open>None\<close> when they do not suffice.\<close>

primrec worker_loop :: "(bytes \<Rightarrow> bytes) \<Rightarrow> config \<Rightarrow> mock_signer \<Rightarrow> string \<Rightarrow> nat \<Rightarrow> world \<Rightarrow>
    ((exn + unit) \<times> world) option" where
  "worker_loop sha cfg sg wid 0 w = None"
| "worker_loop sha cfg sg wid (Suc n) w =
     (case run sha (run_once sha cfg sg wid) w of
        (Inl e, w') \<Rightarrow> Some (Inl e, w')
      | (Inr k, w') \<Rightarrow> if k = 0 then Some (Inr (), w') else worker_loop sha cfg sg wid n w')"

text \<open>The lying node and the first worker, whose death is caught.\<close>

definition demo_first_worker :: "(bytes \<Rightarrow> bytes) \<Rightarrow> nat \<Rightarrow> world \<Rightarrow> (exn + world) option" where
  "demo_first_worker sha fuel w =
     (let w1 = w\<lparr>w_node := script (w_node w) ''broadcast'' [TIMEOUT_ACCEPTED]\<rparr>;
          w2 = w1\<lparr>w_crash := arm (w_crash w1) BROADCAST_PRE_SEND 1\<rparr>
      in case worker_loop sha default_config default_signer ''w1'' fuel w2 of
           None \<Rightarrow> None
         | Some (Inl (SimulatedCrash p), w3) \<Rightarrow> Some (Inr w3)
         | Some (Inl e, w3) \<Rightarrow> Some (Inl e)
         | Some (Inr u, w3) \<Rightarrow> Some (Inr w3))"

text \<open>What the dead worker left: the owner, the state and the first characters of the txid of a row.\<close>

definition demo_status :: "world \<Rightarrow> uuid \<Rightarrow> exn + string \<times> string \<times> string" where
  "demo_status w oid =
     (case get (w_store w) oid of
        None \<Rightarrow> Inl AttributeError
      | Some op \<Rightarrow>
          Inr (case claimed_by op of None \<Rightarrow> ''-'' | Some c \<Rightarrow> if c = [] then ''-'' else c,
               state_value (op_state op),
               take 16 (case op_txid op of None \<Rightarrow> ''None'' | Some t \<Rightarrow> t)))"

text \<open>The lease runs out and the second worker takes over; the chain solidifies in between.\<close>

definition demo_second_worker :: "(bytes \<Rightarrow> bytes) \<Rightarrow> nat \<Rightarrow> world \<Rightarrow> (exn + world) option" where
  "demo_second_worker sha fuel w =
     (let w1 = w\<lparr>w_clock := advance (w_clock w) (lease_seconds default_config + seconds 1)\<rparr>
      in case worker_loop sha default_config default_signer ''w2'' fuel w1 of
           None \<Rightarrow> None
         | Some (Inl e, w2) \<Rightarrow> Some (Inl e)
         | Some (Inr u, w2) \<Rightarrow>
             (case solidify (\<lambda>_. w_clock w2) (w_node w2) of
                Inl e \<Rightarrow> Some (Inl e)
              | Inr nd \<Rightarrow>
                  (case worker_loop sha default_config default_signer ''w2'' fuel (w2\<lparr>w_node := nd\<rparr>) of
                     None \<Rightarrow> None
                   | Some (Inl e, w3) \<Rightarrow> Some (Inl e)
                   | Some (Inr u, w3) \<Rightarrow> Some (Inr w3))))"

text \<open>The assertions on one operation: it is finished, and the network accepted its txid once.\<close>

definition demo_verdict :: "world \<Rightarrow> uuid \<Rightarrow> exn + op_state \<times> int option \<times> string" where
  "demo_verdict w oid =
     (case get (w_store w) oid of
        None \<Rightarrow> Inl AttributeError
      | Some op \<Rightarrow>
          if op_state op \<notin> set TERMINAL then Inl (AssertionError '''')
          else (case op_txid op of
                  None \<Rightarrow> Inl TypeError
                | Some t \<Rightarrow>
                    if accepted_count (w_node w) t \<noteq> 1 then Inl (AssertionError ''network saw it exactly once'')
                    else Inr (op_state op, included_block op, t)))"

text \<open>The timeline: number, states and author of each event.\<close>

definition demo_timeline :: "world \<Rightarrow> uuid \<Rightarrow> (int \<times> string \<times> string \<times> string) list" where
  "demo_timeline w oid = map (\<lambda>e. (ev_seq e,
       (case ev_from_state e of None \<Rightarrow> [CHR 0xB7] | Some s \<Rightarrow> state_value s), state_value (ev_to_state e),
       (case ev_worker_id e of None \<Rightarrow> ''intake'' | Some wid \<Rightarrow> if wid = [] then ''intake'' else wid)))
     (events (w_store w) oid)"

record demo_report =
  dr_created :: "bool list"
  dr_rows :: nat
  dr_status :: "(string \<times> string \<times> string) list"
  dr_verdicts :: "(op_state \<times> int option \<times> string) list"
  dr_timeline :: "(int \<times> string \<times> string \<times> string) list"

definition demo_main :: "(bytes \<Rightarrow> bytes) \<Rightarrow> uuid \<Rightarrow> uuid \<Rightarrow> nat \<Rightarrow> (exn + demo_report) option" where
  "demo_main sha ida idb fuel =
     (case demo_intake sha ida idb of
        Inl e \<Rightarrow> Some (Inl e)
      | Inr (r1, r2, r3, w) \<Rightarrow>
          (case demo_first_worker sha fuel w of
             None \<Rightarrow> None
           | Some (Inl e) \<Rightarrow> Some (Inl e)
           | Some (Inr w1) \<Rightarrow>
               (let i1 = operation_id (sr_operation r1); i2 = operation_id (sr_operation r2) in
                case ebind (demo_status w1 i1) (\<lambda>s1. ebind (demo_status w1 i2) (\<lambda>s2. Inr [s1, s2])) of
                  Inl e \<Rightarrow> Some (Inl e)
                | Inr status \<Rightarrow>
                    (case demo_second_worker sha fuel w1 of
                       None \<Rightarrow> None
                     | Some (Inl e) \<Rightarrow> Some (Inl e)
                     | Some (Inr w2) \<Rightarrow>
                         Some (ebind (demo_verdict w2 i1) (\<lambda>v1.
                               ebind (demo_verdict w2 i2) (\<lambda>v2.
                               Inr \<lparr> dr_created = [sr_created r1, sr_created r2, sr_created r3],
                                     dr_rows = length (all_operations (w_store w)), dr_status = status,
                                     dr_verdicts = [v1, v2],
                                     dr_timeline = demo_timeline w2 i1 @ demo_timeline w2 i2 \<rparr>)))))))"

section \<open>The story\<close>

abbreviation demo_start :: time where
  "demo_start \<equiv> seconds 1767225600"

abbreviation demo_later :: time where
  "demo_later \<equiv> demo_start + seconds 31"

definition demo_address :: "(bytes \<Rightarrow> bytes) \<Rightarrow> 8 word \<Rightarrow> string" where
  "demo_address sha b = (case from_payload sha (replicate 20 b) of Inl e \<Rightarrow> [] | Inr a \<Rightarrow> a)"

definition demo_op :: "(bytes \<Rightarrow> bytes) \<Rightarrow> uuid \<Rightarrow> 8 word \<Rightarrow> int \<Rightarrow> operation" where
  "demo_op sha oid b n = new_operation oid (request_hash sha (demo_address sha b) n ''USDT-TRC20'') REQUESTED
     (demo_address sha b) ''USDT-TRC20'' n"

text \<open>The envelopes that are built on the way.\<close>

definition demo_envelope :: "(bytes \<Rightarrow> bytes) \<Rightarrow> 8 word \<Rightarrow> nat \<Rightarrow> time \<Rightarrow> raw_data" where
  "demo_envelope sha b n now = build_envelope default_config (demo_op sha 0 b (int n)) (nat_str n)
     (1000, block_hash 1000) now (now + tx_ttl_seconds default_config)"

lemma demo_address_valid:
  assumes "\<forall>x. length (sha x) = 32"
  shows "from_payload sha (replicate 20 b) = Inr (demo_address sha b)" "is_valid sha (demo_address sha b)"
  using from_payload_is_valid [of "replicate 20 b" sha] assms by (auto simp: demo_address_def)

lemma demo_amounts: "to_units (JStr ''1250.75'') 6 = Inr 1250750000" "to_units (JStr ''9.99'') 6 = Inr 9990000"
  using to_units_frac [of "''1250''" 6 "''75''"] to_units_frac [of "''9''" 6 "''99''"]
  by (simp_all add: is_digit_def max_str_digits_def digits_val_def digit_val_def)

lemma demo_checks:
  assumes "\<forall>x. length (sha x) = 32" "0 \<le> oid" "oid < 2 ^ 128" "to_units (JStr amount) 6 = Inr n" "1 \<le> n" "n \<le> 1000000 * 10 ^ 6"
  obtains d where "demo_request sha oid b amount = Inr d" "intake_checks sha default_config d = Inr (demo_op sha oid b n)"
proof -
  let ?d = "[(''operation_id'', JStr (uuid_str oid)), (''to_address'', JStr (demo_address sha b)),
      (''amount'', JStr amount), (''asset'', JStr ''USDT-TRC20'')]"
  have "check_id ?d = Inr oid"
    using UUID_uuid_str [OF assms(2,3)] by (simp add: check_id_def payload_get_def UUID_of_def)
  moreover have "check_address sha ?d = Inr (demo_address sha b)"
    using demo_address_valid(2) [OF assms(1)] by (simp add: check_address_def payload_get_def)
  moreover have "check_asset default_config ?d = Inr ''USDT-TRC20''" by (simp add: check_asset_def default_config_def)
  moreover have "check_amount default_config ?d = Inr n"
    using assms(4-6) by (simp add: check_amount_def payload_get_def default_config_def)
  ultimately have "intake_checks sha default_config ?d = Inr (demo_op sha oid b n)"
    by (simp add: intake_checks_def demo_op_def)
  then show thesis
    using demo_address_valid(1) [OF assms(1), of b] by (intro that) (simp_all add: demo_request_def)
qed

lemma demo_submit_new:
  assumes "intake_checks sha default_config d = Inr op" "get (w_store w) (operation_id op) = None"
  shows "demo_submit sha w d = (Inr \<lparr> sr_operation = stamped (w_clock w) op, sr_created = True \<rparr>,
    w\<lparr>w_store := snd (insert_new (w_clock w) (w_clock w) (w_store w) op)\<rparr>)"
  using assms by (simp add: demo_submit_def mem_submit_def submit_withdrawal_def insert_new_def get_def stamped_def Let_def)

lemma demo_submit_again:
  assumes "intake_checks sha default_config d = Inr op" "get (w_store w) (operation_id op) = Some r"
    "op_request_hash r = op_request_hash op"
  shows "demo_submit sha w d = (Inr \<lparr> sr_operation = r, sr_created = False \<rparr>, w)"
  using assms by (cases w) (simp add: demo_submit_def mem_submit_def submit_withdrawal_def insert_new_def get_def)

lemma demo_intake_files:
  assumes "\<forall>x. length (sha x) = 32" "0 \<le> ida" "ida < 2 ^ 128" "0 \<le> idb" "idb < 2 ^ 128" "ida \<noteq> idb"
  obtains r1 r2 r3 w where "demo_intake sha ida idb = Inr (r1, r2, r3, w)"
    "sr_created r1" "sr_created r2" "\<not> sr_created r3"
    "operation_id (sr_operation r1) = ida" "operation_id (sr_operation r2) = idb"
    "two_rows (w_store w) (stamped demo_start (demo_op sha ida 0x0a 1250750000)) (stamped demo_start (demo_op sha idb 0x0b 9990000))"
    "w_clock w = demo_start" "w_node w = new_node demo_start 2 1 default_signer" "w_crash w = new_crash_switch"
proof -
  obtain da where a: "demo_request sha ida 0x0a ''1250.75'' = Inr da" "intake_checks sha default_config da = Inr (demo_op sha ida 0x0a 1250750000)"
    by (rule demo_checks [OF assms(1,2,3) demo_amounts(1)]) simp_all
  obtain db where b: "demo_request sha idb 0x0b ''9.99'' = Inr db" "intake_checks sha default_config db = Inr (demo_op sha idb 0x0b 9990000)"
    by (rule demo_checks [OF assms(1,4,5) demo_amounts(2)]) simp_all
  let ?a = "demo_op sha ida 0x0a 1250750000" and ?b = "demo_op sha idb 0x0b 9990000"
  have ids: "operation_id ?a = ida" "operation_id ?b = idb" by (simp_all add: demo_op_def new_operation_def)
  let ?file = "\<lambda>w op. w\<lparr>w_store := snd (insert_new (w_clock w) (w_clock w) (w_store w) op)\<rparr>"
  let ?w1 = "?file demo_world ?a" let ?w2 = "?file ?w1 ?b"
  have w: "w_clock demo_world = demo_start" "w_store demo_world = new_store" by (simp_all add: demo_world_def new_fake_clock_def Let_def)
  have g1: "get (w_store ?w1) = [ida \<mapsto> stamped demo_start ?a]"
    by (simp add: w insert_new_def new_store_def Let_def get_def stamped_def ids fun_eq_iff)
  have s1: "demo_submit sha demo_world da = (Inr \<lparr> sr_operation = stamped demo_start ?a, sr_created = True \<rparr>, ?w1)"
    using demo_submit_new [OF a(2), of demo_world] by (simp add: w ids get_def new_store_def)
  have n2: "get (w_store ?w1) (operation_id ?b) = None" unfolding g1 ids using assms(6) by simp
  have s2: "demo_submit sha ?w1 db = (Inr \<lparr> sr_operation = stamped demo_start ?b, sr_created = True \<rparr>, ?w2)"
    using demo_submit_new [OF b(2) n2] by (simp add: w(1))
  have t: "two_rows (w_store ?w2) (stamped demo_start ?a) (stamped demo_start ?b)"
    using assms(6) by (simp add: two_rows_def w insert_new_def new_store_def Let_def stamped_def ids)
  have "get (w_store ?w2) ida = Some (stamped demo_start ?a)"
    using two_rows_hold [OF t] by (simp add: holds_row_def stamped_def ids)
  then have s3: "demo_submit sha ?w2 da = (Inr \<lparr> sr_operation = stamped demo_start ?a, sr_created = False \<rparr>, ?w2)"
    using demo_submit_again [OF a(2)] by (simp add: ids stamped_def)
  have "demo_intake sha ida idb = Inr (\<lparr> sr_operation = stamped demo_start ?a, sr_created = True \<rparr>,
      \<lparr> sr_operation = stamped demo_start ?b, sr_created = True \<rparr>, \<lparr> sr_operation = stamped demo_start ?a, sr_created = False \<rparr>, ?w2)"
    unfolding demo_intake_def a(1) b(1) ebind.simps s1 s2 s3 Let_def prod.case ..
  then show thesis
    by (rule that) (use t in \<open>simp_all add: w ids stamped_def, simp_all add: demo_world_def new_fake_clock_def Let_def\<close>)
qed

text \<open>The settings and the nodes of the story.\<close>

lemma demo_settings:
  "2 \<le> claim_batch default_config" "0 < tx_ttl_seconds default_config" "CHR '':'' \<notin> set (key_id default_signer)"
  "lease_seconds default_config = seconds 30" "tx_ttl_seconds default_config = seconds 60"
  "expiration_safety_seconds default_config = seconds 30"
  by (simp_all add: default_config_def default_signer_def seconds_def)

lemma demo_units: "py_str (int n) = Inr (nat_str n)" if "length (nat_str n) \<le> max_str_digits"
  using that by (simp add: py_str_def int_str_def)

lemma demo_prints: "py_str 1250750000 = Inr (nat_str 1250750000)" "py_str 9990000 = Inr (nat_str 9990000)"
proof -
  have "length (nat_str 1250750000) = 10" "length (nat_str 9990000) = 7" by (simp_all add: nat_str.simps)
  then show "py_str 1250750000 = Inr (nat_str 1250750000)" "py_str 9990000 = Inr (nat_str 9990000)"
    using demo_units [of 1250750000] demo_units [of 9990000] by (simp_all add: max_str_digits_def)
qed

definition demo_node :: node where
  "demo_node = script (new_node demo_start 2 1 default_signer) ''broadcast'' [TIMEOUT_ACCEPTED]"

definition demo_crash :: crash_switch where
  "demo_crash = arm new_crash_switch BROADCAST_PRE_SEND 1"

definition demo_crashed :: crash_switch where
  "demo_crashed = \<lparr> armed = [(BROADCAST_PRE_SEND, 0)], tripped = [BROADCAST_PRE_SEND] \<rparr>"

lemma demo_node_facts:
  "dict_get (nd_faults demo_node) ''broadcast'' = Some [TIMEOUT_ACCEPTED]" "dict_get (nd_faults demo_node) ''query'' = Some []"
  "nd_signer demo_node = default_signer" "nd_txs demo_node = []" "solid_now demo_node = Inr demo_start"
  "ref_block demo_node = Inr (1000, block_hash 1000)" "broadcast_log demo_node = []" "nd_head demo_node = 1000"
  "solidity_lag demo_node = 2" "inclusion_delay demo_node = 1" "block_time demo_node = [(1000, demo_start)]"
  "dict_get (nd_faults demo_node) ''receipt'' = None"
  by (simp_all add: demo_node_def script_def setdefault_def new_node_def solid_now_def ref_block_def heights_def
      solid_block_def Let_def)

lemma demo_crash_facts:
  "here demo_crash BROADCAST_PRE_SEND = (True, demo_crashed)" "armed_count demo_crash SIGN_MID \<le> 0" "calm demo_crashed"
  by (simp_all add: demo_crash_def demo_crashed_def arm_def here_def new_crash_switch_def calm_def armed_count_def
      SIGN_MID_def BROADCAST_PRE_SEND_def BROADCAST_POST_SEND_def CONFIRM_PRE_WRITE_def)

lemma demo_op_fields [simp]:
  "op_state (demo_op sha oid b n) = REQUESTED" "amount_units (demo_op sha oid b n) = n"
  "operation_id (demo_op sha oid b n) = oid" "to_address (demo_op sha oid b n) = demo_address sha b"
  "lease_expires_at (demo_op sha oid b n) = None"
  by (simp_all add: demo_op_def new_operation_def)

lemma stamped_fields [simp]:
  "op_state (stamped t op) = op_state op" "amount_units (stamped t op) = amount_units op"
  "operation_id (stamped t op) = operation_id op" "to_address (stamped t op) = to_address op"
  "lease_expires_at (stamped t op) = lease_expires_at op" "payable sha cfg (stamped t op) = payable sha cfg op"
  by (simp_all add: stamped_def payable_def)

lemma claimed_request [simp]:
  "amount_units (claimed now wid d op) = amount_units op" "to_address (claimed now wid d op) = to_address op"
  "lease_expires_at (claimed now wid d op) = Some (now + d)"
  "payable sha cfg (claimed now wid d op) = payable sha cfg op"
  by (simp_all add: claimed_def payable_def)

lemma demo_op_payable:
  assumes "\<forall>x. length (sha x) = 32" "1 \<le> n" "n \<le> 1000000 * 10 ^ 6"
  shows "payable sha default_config (demo_op sha oid b n)"
  using assms demo_address_valid(2) [OF assms(1), of b]
  by (simp add: payable_def demo_op_def new_operation_def default_config_def)

definition demo_signed :: "(bytes \<Rightarrow> bytes) \<Rightarrow> 8 word \<Rightarrow> nat \<Rightarrow> time \<Rightarrow> signedtx" where
  "demo_signed sha b n now = sign sha default_signer \<lparr> ut_raw_data = demo_envelope sha b n now,
     ut_txid = compute_txid sha (demo_envelope sha b n now), ut_expiration = now + tx_ttl_seconds default_config \<rparr>"

lemma demo_signed_eq:
  assumes "to_address op = demo_address sha b"
  shows "sign sha default_signer (unsigned_envelope sha default_config op (nat_str n) (1000, block_hash 1000) now) = demo_signed sha b n now"
  using assms by (simp add: unsigned_envelope_def demo_signed_def demo_envelope_def build_envelope_def demo_op_def
      new_operation_def Let_def)

lemma demo_signed_facts:
  "st_txid (demo_signed sha b n now) = compute_txid sha (demo_envelope sha b n now)"
  "st_expiration (demo_signed sha b n now) = now + seconds 60"
  "verify sha default_signer (demo_signed sha b n now) = Inr True"
  using verify_sign [of default_signer] demo_settings by (simp_all add: demo_signed_def)

text \<open>The first worker: it claims both rows and dies on Alice's.\<close>

lemma first_worker_dies:
  assumes len: "\<forall>x. length (sha x) = 32"
    and w: "two_rows (w_store w) (stamped demo_start (demo_op sha ida 0x0a 1250750000)) (stamped demo_start (demo_op sha idb 0x0b 9990000))"
      "w_clock w = demo_start" "w_node w = new_node demo_start 2 1 default_signer" "w_crash w = new_crash_switch"
    and fuel: "fuel = Suc k" and g: "g = demo_signed sha 0x0a 1250750000 demo_start"
  obtains w' a b where "demo_first_worker sha fuel w = Some (Inr w')" "two_rows (w_store w') a b"
    "operation_id a = ida" "op_state a = BROADCASTING" "signed_tx a = Some (to_json g)" "op_txid a = Some (st_txid g)"
    "lease_expires_at a = Some (demo_start + seconds 30)"
    "b = claimed demo_start ''w1'' (seconds 30) (stamped demo_start (demo_op sha idb 0x0b 9990000))"
    "w_clock w' = demo_start" "w_node w' = demo_node" "w_crash w' = demo_crashed"
proof -
  let ?A = "stamped demo_start (demo_op sha ida 0x0a 1250750000)" and ?B = "stamped demo_start (demo_op sha idb 0x0b 9990000)"
  let ?w = "w\<lparr>w_node := demo_node, w_crash := demo_crash\<rparr>"
  let ?a = "claimed demo_start ''w1'' (seconds 30) ?A" and ?b = "claimed demo_start ''w1'' (seconds 30) ?B"
  have fA: "payable sha default_config ?a" "op_state ?a = REQUESTED" "amount_units ?a = 1250750000"
      "to_address ?a = demo_address sha 0x0a" "operation_id ?a = ida"
    using demo_op_payable [OF len] by simp_all
  have st: "op_state ?A \<in> set CLAIMABLE" "op_state ?B \<in> set CLAIMABLE" "lease_free demo_start ?A" "lease_free demo_start ?B"
    by (simp_all add: CLAIMABLE_def lease_free_def)
  obtain ms where ms: "two_rows ms ?a ?b" "run sha (run_once sha default_config default_signer ''w1'') ?w =
      run sha (drive_all sha default_config default_signer ''w1'' [?a, ?b] 0) (?w\<lparr>w_store := ms\<rparr>)"
    by (rule two_rows_pass [where w = ?w and a = ?A and b = ?B and cfg = default_config and wid = "''w1''" and sha = sha
        and sg = default_signer]) (use w st demo_settings in simp_all)
  have g': "g = sign sha default_signer (unsigned_envelope sha default_config ?a (nat_str 1250750000) (1000, block_hash 1000) (w_clock (?w\<lparr>w_store := ms\<rparr>)))"
    using demo_signed_eq [OF fA(4)] w(2) g by simp
  have h: "holds_row (?w\<lparr>w_store := ms\<rparr>) ?a" using two_rows_hold [of "?w\<lparr>w_store := ms\<rparr>"] ms(1) by simp
  obtain a' w' where d: "run sha (drive sha default_config default_signer ''w1'' ?a) (?w\<lparr>w_store := ms\<rparr>) =
        (Inl (SimulatedCrash BROADCAST_PRE_SEND), w')" "wrote_row (?w\<lparr>w_store := ms, w_crash := demo_crashed\<rparr>) w' a'"
      "same_claim ?a a'" "op_state a' = BROADCASTING" "signed_tx a' = Some (to_json g)" "op_txid a' = Some (st_txid g)"
      "lease_expires_at a' = Some (w_clock (?w\<lparr>w_store := ms\<rparr>) + lease_seconds default_config)"
    by (rule dying_drive [OF h fA(2,1) _ _ g', where c = demo_crashed])
      (use demo_node_facts demo_crash_facts demo_prints demo_settings fA(3) in simp_all)
  have t: "two_rows (w_store w') a' ?b"
    by (rule two_rows_wrote(1) [where a = ?a, OF _ d(2)]) (use ms(1) same_claim_id [OF d(3)] in simp_all)
  have "run sha (run_once sha default_config default_signer ''w1'') ?w = (Inl (SimulatedCrash BROADCAST_PRE_SEND), w')"
    using ms(2) d(1) by (simp add: run_pbind)
  then have "demo_first_worker sha fuel w = Some (Inr w')"
    using w(3,4) fuel by (simp add: demo_first_worker_def demo_node_def demo_crash_def)
  then show thesis
    by (rule that [OF _ t]) (use d(2,4-7) same_claim_id [OF d(3)] w(2) fA(5) demo_settings in \<open>simp_all add: wrote_row_def\<close>)
qed

text \<open>The node after the second worker has sent both.\<close>

definition demo_pending_node :: "signedtx \<Rightarrow> signedtx \<Rightarrow> node" where
  "demo_pending_node g g' = accepts (accepts_silently demo_node g ''w2'') g' ''w2''"

lemma demo_pending_facts:
  assumes "st_txid g \<noteq> st_txid g'"
  shows "nd_txs (demo_pending_node g g') = [(st_txid g, fresh_record demo_node g), (st_txid g', fresh_record demo_node g')]"
    "healthy (demo_pending_node g g')" "healthy (accepts_silently demo_node g ''w2'')"
    "ref_block (accepts_silently demo_node g ''w2'') = Inr (1000, block_hash 1000)"
    "nd_signer (accepts_silently demo_node g ''w2'') = default_signer"
    "dict_get (nd_txs (accepts_silently demo_node g ''w2'')) (st_txid g') = None"
    "nd_head (demo_pending_node g g') = 1000" "block_time (demo_pending_node g g') = [(1000, demo_start)]"
    "solidity_lag (demo_pending_node g g') = 2" "inclusion_delay (demo_pending_node g g') = 1"
    "no_reverts (demo_pending_node g g')"
    "broadcast_log (demo_pending_node g g') =
       [\<lparr> le_txid = st_txid g, le_outcome = ''timeout-accepted'', le_at_block = 1000, le_worker = Some ''w2'' \<rparr>,
        \<lparr> le_txid = st_txid g', le_outcome = ''accepted'', le_at_block = 1000, le_worker = Some ''w2'' \<rparr>]"
  using assms demo_node_facts
  by (simp_all add: demo_pending_node_def accepts_def accepts_silently_def log_it_def healthy_def no_reverts_def
      ref_block_def heights_def solid_block_def fresh_record_def)

lemma demo_pending:
  assumes "st_txid g \<noteq> st_txid g'" "clk < st_expiration g" "clk < st_expiration g'"
  shows "pending clk (demo_pending_node g g') g" "pending clk (demo_pending_node g g') g'"
  using assms demo_pending_facts [OF assms(1)] by (simp_all add: pending_def fresh_record_def)

text \<open>The three passes of the second worker before the blocks: it sends both, finds the first pending, and
  has nothing left to do.\<close>

lemma sending_pass:
  assumes len: "\<forall>x. length (sha x) = 32"
    and w: "two_rows (w_store w) a b" "w_clock w = demo_later" "w_node w = demo_node" "w_crash w = demo_crashed"
    and a: "op_state a = BROADCASTING" "signed_tx a = Some (to_json g)" "op_txid a = Some (st_txid g)"
      "lease_expires_at a = Some (demo_start + seconds 30)"
    and b: "b = claimed demo_start ''w1'' (seconds 30) (stamped demo_start (demo_op sha idb 0x0b 9990000))"
    and g: "g = demo_signed sha 0x0a 1250750000 demo_start" "g' = demo_signed sha 0x0b 9990000 demo_later"
      "st_txid g \<noteq> st_txid g'"
  obtains w' a' b' where "run sha (run_once sha default_config default_signer ''w2'') w = (Inr 1, w')"
    "two_rows (w_store w') a' b'" "sent_row BROADCASTING g a'" "sent_row BROADCAST g' b'"
    "operation_id a' = operation_id a" "operation_id b' = operation_id b"
    "w_clock w' = demo_later" "w_node w' = demo_pending_node g g'" "w_crash w' = demo_crashed"
proof -
  let ?nd = "accepts_silently demo_node g ''w2''"
  have exp: "demo_later < st_expiration g" by (simp add: g(1) demo_signed_facts seconds_def)
  have due: "demo_start < st_expiration g + expiration_safety_seconds default_config"
    by (simp add: g(1) demo_signed_facts demo_settings) (simp add: seconds_def)
  have known: "verify sha default_signer g = Inr True" by (simp add: g(1) demo_signed_facts)
  have A: "drives_to sha default_config default_signer ''w2'' w (claimed (w_clock w) ''w2'' (lease_seconds default_config) a)
      (w_node w) 0 ?nd (sent_row BROADCASTING g)"
    unfolding w(3)
    by (rule resends [OF a(1-3) _ _ _ _ _ demo_node_facts(5) due]) (use w(2) exp demo_node_facts known in simp_all)
  have B: "drives_to sha default_config default_signer ''w2'' w (claimed (w_clock w) ''w2'' (lease_seconds default_config) b)
      ?nd 1 (demo_pending_node g g') (sent_row BROADCAST g')"
    unfolding demo_pending_node_def
    by (rule sends [where ref = "(1000, block_hash 1000)" and units = "nat_str 9990000"])
      (use w(2,4) demo_pending_facts [OF g(3)] g(2) demo_settings demo_crash_facts demo_prints demo_op_payable [OF len]
        demo_signed_eq in \<open>simp_all add: b\<close>)
  show thesis
    by (rule pair_pass [OF w(1) _ _ _ _ demo_settings(1) A B])
      (use a b w that in \<open>simp_all add: lease_free_def seconds_def CLAIMABLE_def\<close>)
qed

lemma pending_pass:
  assumes w: "two_rows (w_store w) a b" "sent_row st g a" "sent_row BROADCAST g' b" "w_node w = nd"
      "pending (w_clock w) nd g" "pending (w_clock w) nd g'"
    and st: "st = BROADCASTING \<and> n = 1 \<or> st = BROADCAST \<and> n = 0"
  obtains w' a' b' where "run sha (run_once sha default_config default_signer ''w2'') w = (Inr n, w')"
    "two_rows (w_store w') a' b'" "sent_row BROADCAST g a'" "sent_row BROADCAST g' b'"
    "operation_id a' = operation_id a" "operation_id b' = operation_id b"
    "w_clock w' = w_clock w" "w_node w' = nd" "w_crash w' = w_crash w"
proof -
  have A: "drives_to sha default_config default_signer ''w2'' w (claimed (w_clock w) ''w2'' (lease_seconds default_config) a)
      (w_node w) n nd (sent_row BROADCAST g)"
    using st
  proof
    assume s: "st = BROADCASTING \<and> n = 1"
    then show ?thesis using finds [of a g w nd] w(2,4,5) by (simp add: sent_row_def)
  next
    assume s: "st = BROADCAST \<and> n = 0"
    then show ?thesis using waits [of g a w nd] w(2,4,5) by simp
  qed
  have B: "drives_to sha default_config default_signer ''w2'' w (claimed (w_clock w) ''w2'' (lease_seconds default_config) b)
      nd 0 nd (sent_row BROADCAST g')"
    by (rule waits [OF w(3,6)])
  show thesis
    by (rule pair_pass [OF w(1) _ _ _ _ demo_settings(1) A B])
      (use w st that in \<open>auto simp: sent_row_def lease_free_def CLAIMABLE_def\<close>)
qed

lemma second_worker_reconciles:
  assumes len: "\<forall>x. length (sha x) = 32"
    and w: "two_rows (w_store w) a b" "w_clock w = demo_later" "w_node w = demo_node" "w_crash w = demo_crashed"
    and a: "op_state a = BROADCASTING" "signed_tx a = Some (to_json g)" "op_txid a = Some (st_txid g)"
      "lease_expires_at a = Some (demo_start + seconds 30)"
    and b: "b = claimed demo_start ''w1'' (seconds 30) (stamped demo_start (demo_op sha idb 0x0b 9990000))"
    and g: "g = demo_signed sha 0x0a 1250750000 demo_start" "g' = demo_signed sha 0x0b 9990000 demo_later"
      "st_txid g \<noteq> st_txid g'"
  obtains w' a' b' where
    "worker_loop sha default_config default_signer ''w2'' (Suc (Suc (Suc k))) w = Some (Inr (), w')"
    "two_rows (w_store w') a' b'" "sent_row BROADCAST g a'" "sent_row BROADCAST g' b'"
    "operation_id a' = operation_id a" "operation_id b' = operation_id b"
    "w_clock w' = demo_later" "w_node w' = demo_pending_node g g'" "w_crash w' = demo_crashed"
proof -
  let ?run = "run sha (run_once sha default_config default_signer ''w2'')" and ?nd = "demo_pending_node g g'"
  have exp: "demo_later < st_expiration g" "demo_later < st_expiration g'"
    by (simp_all add: g(1,2) demo_signed_facts seconds_def)
  note pend = demo_pending [OF g(3) exp]
  obtain w1 a1 b1 where 1: "?run w = (Inr 1, w1)" "two_rows (w_store w1) a1 b1" "sent_row BROADCASTING g a1"
      "sent_row BROADCAST g' b1" "operation_id a1 = operation_id a" "operation_id b1 = operation_id b"
      "w_clock w1 = demo_later" "w_node w1 = ?nd" "w_crash w1 = demo_crashed"
    by (rule sending_pass [OF len w a b g])
  obtain w2 a2 b2 where 2: "?run w1 = (Inr 1, w2)" "two_rows (w_store w2) a2 b2" "sent_row BROADCAST g a2"
      "sent_row BROADCAST g' b2" "operation_id a2 = operation_id a1" "operation_id b2 = operation_id b1"
      "w_clock w2 = w_clock w1" "w_node w2 = ?nd" "w_crash w2 = w_crash w1"
    by (rule pending_pass [OF 1(2-4,8), of 1 sha]) (use pend 1(7) in simp_all)
  obtain w3 a3 b3 where 3: "?run w2 = (Inr 0, w3)" "two_rows (w_store w3) a3 b3" "sent_row BROADCAST g a3"
      "sent_row BROADCAST g' b3" "operation_id a3 = operation_id a2" "operation_id b3 = operation_id b2"
      "w_clock w3 = w_clock w2" "w_node w3 = ?nd" "w_crash w3 = w_crash w2"
    by (rule pending_pass [OF 2(2-4,8), of 0 sha]) (use pend 1(7) 2(7) in simp_all)
  have "worker_loop sha default_config default_signer ''w2'' (Suc (Suc (Suc k))) w = Some (Inr (), w3)"
    using 1(1) 2(1) 3(1) by simp
  then show thesis
    by (rule that [OF _ 3(2-4)]) (use 1 2 3 in simp_all)
qed

text \<open>The blocks: the first takes both transactions, the other three bury it.\<close>

lemma demo_solidifies:
  assumes "st_txid g \<noteq> st_txid g'" "demo_later < st_expiration g" "demo_later < st_expiration g'"
  obtains nd where "solidify (\<lambda>_. demo_later) (demo_pending_node g g') = Inr nd" "healthy nd" "mined nd g" "mined nd g'"
    "broadcast_log nd = broadcast_log (demo_pending_node g g')"
proof -
  let ?nd = "demo_pending_node g g'"
  let ?in = "\<lambda>h. landing 1001 demo_later 1 (fresh_record demo_node h)"
  note pf = demo_pending_facts [OF assms(1)]
  have q: "rec_included_block (?in g) = Some 1001" "receipt (?in g) = Some ''SUCCESS''"
      "rec_included_block (?in g') = Some 1001" "receipt (?in g') = Some ''SUCCESS''"
    using assms(2,3) by (simp_all add: landing_def fresh_record_def demo_node_facts)
  have wf: "node_wf ?nd"
    using assms(1) pf(1,7,8) by (simp add: node_wf_def chain_wf_def heights_def record_wf_def fresh_record_def)
  have t: "next_block_time demo_later demo_start = demo_later" by (simp add: next_block_time_def seconds_def)
  have tip: "dict_get (block_time ?nd) (nd_head ?nd) = Some demo_start" using pf(7,8) by simp
  obtain nd1 where 1: "produce_block demo_later ?nd = Inr nd1" "nd_txs nd1 = [(st_txid g, ?in g), (st_txid g', ?in g')]"
      "nd_head nd1 = 1001" "solidity_lag nd1 = 2" "broadcast_log nd1 = broadcast_log ?nd"
    by (rule block_lands [OF tip pf(2,11), of demo_later]) (use pf t in simp_all)
  have all_in: "\<forall>k r. dict_get (nd_txs nd1) k = Some r \<longrightarrow> rec_included_block r \<noteq> None"
    using q by (auto simp: 1(2) split: if_splits)
  obtain nd where nd: "produce_blocks (\<lambda>_. demo_later) 3 nd1 = Inr nd" "healthy nd" "nd_head nd = nd_head nd1 + int 3"
      "solidity_lag nd = solidity_lag nd1" "dict_get (nd_txs nd) = dict_get (nd_txs nd1)" "broadcast_log nd = broadcast_log nd1"
    using settled_blocks [OF node_wf_produce_block [OF wf 1(1)] healthy_produce [OF pf(2) 1(1)] all_in, of demo_later 3]
    by blast
  show thesis
  proof (rule that [OF _ nd(2)])
    show "solidify (\<lambda>_. demo_later) ?nd = Inr nd"
      using 1(1) nd(1) pf(9,10) by (simp add: solidify_def eval_nat_numeral)
    show "mined nd g" "mined nd g'"
      using q 1(2-4) nd(3-5) assms(1) by (simp_all add: mined_def solid_block_def)
  qed (use 1(5) nd(6) in simp)
qed

lemma second_worker_confirms:
  assumes w: "two_rows (w_store w) a b" "sent_row BROADCAST g a" "sent_row BROADCAST g' b" "calm (w_crash w)"
    and nd: "healthy (w_node w)" "mined (w_node w) g" "mined (w_node w) g'"
  obtains w' a' b' where
    "worker_loop sha default_config default_signer ''w2'' (Suc (Suc k)) w = Some (Inr (), w')"
    "two_rows (w_store w') a' b'" "paid_row g a'" "paid_row g' b'"
    "operation_id a' = operation_id a" "operation_id b' = operation_id b" "w_node w' = w_node w"
proof -
  have live: "op_state a \<in> set CLAIMABLE" "op_state b \<in> set CLAIMABLE" "lease_free (w_clock w) a" "lease_free (w_clock w) b"
    using w(2,3) by (simp_all add: sent_row_def lease_free_def CLAIMABLE_def)
  obtain w1 a1 b1 where 1: "run sha (run_once sha default_config default_signer ''w2'') w = (Inr (1 + 1), w1)"
      "two_rows (w_store w1) a1 b1" "paid_row g a1" "paid_row g' b1" "operation_id a1 = operation_id a"
      "operation_id b1 = operation_id b" "w_node w1 = w_node w"
    by (rule pair_pass [OF w(1) live demo_settings(1) confirms [OF w(2) nd(1,2) w(4)] confirms [OF w(3) nd(1,3) w(4)]])
  have "run sha (run_once sha default_config default_signer ''w2'') w1 = (Inr 0, w1)"
    by (rule two_rows_finished [OF 1(2)]) (use 1(3,4) in \<open>simp_all add: paid_row_def\<close>)
  then show thesis by (intro that [OF _ 1(2-7)]) (use 1(1) in simp)
qed

lemma second_worker_finishes:
  assumes len: "\<forall>x. length (sha x) = 32"
    and w: "two_rows (w_store w) a b" "w_clock w = demo_start" "w_node w = demo_node" "w_crash w = demo_crashed"
    and a: "op_state a = BROADCASTING" "signed_tx a = Some (to_json g)" "op_txid a = Some (st_txid g)"
      "lease_expires_at a = Some (demo_start + seconds 30)"
    and b: "b = claimed demo_start ''w1'' (seconds 30) (stamped demo_start (demo_op sha idb 0x0b 9990000))"
    and g: "g = demo_signed sha 0x0a 1250750000 demo_start" "g' = demo_signed sha 0x0b 9990000 demo_later"
      "st_txid g \<noteq> st_txid g'" and fuel: "3 \<le> fuel"
  obtains w' a' b' where "demo_second_worker sha fuel w = Some (Inr w')" "two_rows (w_store w') a' b'"
    "paid_row g a'" "paid_row g' b'" "operation_id a' = operation_id a" "operation_id b' = operation_id b"
    "accepted_count (w_node w') (st_txid g) = 1" "accepted_count (w_node w') (st_txid g') = 1"
proof -
  obtain k where k: "fuel = Suc (Suc (Suc k))" using le_Suc_ex [OF fuel] by (auto simp: numeral_3_eq_3)
  let ?w = "w\<lparr>w_clock := advance (w_clock w) (lease_seconds default_config + seconds 1)\<rparr>"
  have clk: "w_clock ?w = demo_later" by (simp add: w(2) advance_def demo_settings seconds_def)
  obtain w1 a1 b1 where 1: "worker_loop sha default_config default_signer ''w2'' fuel ?w = Some (Inr (), w1)"
      "two_rows (w_store w1) a1 b1" "sent_row BROADCAST g a1" "sent_row BROADCAST g' b1"
      "operation_id a1 = operation_id a" "operation_id b1 = operation_id b"
      "w_clock w1 = demo_later" "w_node w1 = demo_pending_node g g'" "w_crash w1 = demo_crashed"
    unfolding k by (rule second_worker_reconciles [OF len _ clk _ _ a b g, of k]) (use w in simp_all)
  have exp: "demo_later < st_expiration g" "demo_later < st_expiration g'"
    by (simp_all add: g(1,2) demo_signed_facts seconds_def)
  obtain nd where nd: "solidify (\<lambda>_. demo_later) (demo_pending_node g g') = Inr nd" "healthy nd" "mined nd g" "mined nd g'"
      "broadcast_log nd = broadcast_log (demo_pending_node g g')"
    by (rule demo_solidifies [OF g(3) exp])
  obtain w2 a2 b2 where 2: "worker_loop sha default_config default_signer ''w2'' fuel (w1\<lparr>w_node := nd\<rparr>) = Some (Inr (), w2)"
      "two_rows (w_store w2) a2 b2" "paid_row g a2" "paid_row g' b2"
      "operation_id a2 = operation_id a1" "operation_id b2 = operation_id b1" "w_node w2 = nd"
    unfolding k by (rule second_worker_confirms [OF _ 1(3,4), of "w1\<lparr>w_node := nd\<rparr>" sha "Suc k"])
      (use 1(2,9) nd demo_crash_facts(3) in simp_all)
  have "demo_second_worker sha fuel w = Some (Inr w2)"
    using 1(1,7,8) nd(1) 2(1) by (simp add: demo_second_worker_def)
  then show thesis
    by (rule that [OF _ 2(2-4)])
      (use 1(5,6) 2(5-7) nd(5) demo_pending_facts(12) [OF g(3)] g(3) in \<open>simp_all add: accepted_count_def\<close>)
qed

lemma demo_verdict_paid:
  assumes "holds_row w op" "paid_row g op" "accepted_count (w_node w) (st_txid g) = 1"
  shows "demo_verdict w (operation_id op) = Inr (CONFIRMED, included_block op, st_txid g)"
  using assms by (simp add: demo_verdict_def holds_row_def paid_row_def)

lemma demo_envelopes_differ: "demo_envelope sha 0x0a 1250750000 demo_start \<noteq> demo_envelope sha 0x0b 9990000 demo_later"
proof -
  have "nat_str 1250750000 \<noteq> nat_str 9990000" by (simp add: nat_str.simps)
  then show ?thesis by (simp add: demo_envelope_def build_envelope_def)
qed

text \<open>
  C13.  The demonstration runs to its end.  For any digest of 32 bytes that tells the two envelopes apart
  and two different operation ids, three passes for each loop suffice: the first two requests are created
  and the third is the replay of the first, two rows are filed, the first worker leaves one row in
  \<open>broadcasting\<close> and the other in \<open>requested\<close>, its death is the only exception and it is caught, no
  assertion fails, and both operations are CONFIRMED under different txids,
  each accepted by the network once - although the first was sent into a timeout by the heir of a dead worker.
\<close>

theorem demo_runs_clean:
  assumes len: "\<forall>x. length (sha x) = 32" and ids: "0 \<le> ida" "ida < 2 ^ 128" "0 \<le> idb" "idb < 2 ^ 128" "ida \<noteq> idb"
    and inj: "inj_on sha {txid_blob (demo_envelope sha 0x0a 1250750000 demo_start), txid_blob (demo_envelope sha 0x0b 9990000 demo_later)}"
    and fuel: "3 \<le> fuel"
  shows "\<exists>rep b1 t1 b2 t2. demo_main sha ida idb fuel = Some (Inr rep) \<and> dr_created rep = [True, True, False] \<and>
    dr_rows rep = 2 \<and> map (fst \<circ> snd) (dr_status rep) = [''broadcasting'', ''requested''] \<and>
    dr_verdicts rep = [(CONFIRMED, b1, t1), (CONFIRMED, b2, t2)] \<and> t1 \<noteq> t2"
proof -
  let ?g = "demo_signed sha 0x0a 1250750000 demo_start" and ?g' = "demo_signed sha 0x0b 9990000 demo_later"
  have "txid_blob (demo_envelope sha 0x0a 1250750000 demo_start) \<noteq> txid_blob (demo_envelope sha 0x0b 9990000 demo_later)"
    using demo_envelopes_differ txid_blob_inject by blast
  then have ne: "st_txid ?g \<noteq> st_txid ?g'"
    using inj by (auto simp: demo_signed_facts compute_txid_def bytes_hex_inject inj_on_def)
  obtain r1 r2 r3 w where 0: "demo_intake sha ida idb = Inr (r1, r2, r3, w)" "sr_created r1" "sr_created r2" "\<not> sr_created r3"
      "operation_id (sr_operation r1) = ida" "operation_id (sr_operation r2) = idb"
      "two_rows (w_store w) (stamped demo_start (demo_op sha ida 0x0a 1250750000)) (stamped demo_start (demo_op sha idb 0x0b 9990000))"
      "w_clock w = demo_start" "w_node w = new_node demo_start 2 1 default_signer" "w_crash w = new_crash_switch"
    by (rule demo_intake_files [OF len ids])
  have "fuel = Suc (fuel - 1)" using fuel by simp
  then obtain w1 a b where 1: "demo_first_worker sha fuel w = Some (Inr w1)" "two_rows (w_store w1) a b"
      "operation_id a = ida" "op_state a = BROADCASTING" "signed_tx a = Some (to_json ?g)" "op_txid a = Some (st_txid ?g)"
      "lease_expires_at a = Some (demo_start + seconds 30)"
      "b = claimed demo_start ''w1'' (seconds 30) (stamped demo_start (demo_op sha idb 0x0b 9990000))"
      "w_clock w1 = demo_start" "w_node w1 = demo_node" "w_crash w1 = demo_crashed"
    by (rule first_worker_dies [OF len 0(7-10) _ refl])
  obtain w2 a2 b2 where 2: "demo_second_worker sha fuel w1 = Some (Inr w2)" "two_rows (w_store w2) a2 b2"
      "paid_row ?g a2" "paid_row ?g' b2" "operation_id a2 = operation_id a" "operation_id b2 = operation_id b"
      "accepted_count (w_node w2) (st_txid ?g) = 1" "accepted_count (w_node w2) (st_txid ?g') = 1"
    by (rule second_worker_finishes [OF len 1(2,9-11,4-8) refl refl ne fuel])
  have st: "\<exists>c t c' t'. demo_status w1 ida = Inr (c, ''broadcasting'', t) \<and> demo_status w1 idb = Inr (c', ''requested'', t')"
    using two_rows_hold [OF 1(2)] 1(3,4,8) by (simp add: demo_status_def holds_row_def)
  have h: "holds_row w2 a2" "holds_row w2 b2" using two_rows_hold [OF 2(2)] by simp_all
  have v: "demo_verdict w2 ida = Inr (CONFIRMED, included_block a2, st_txid ?g)"
      "demo_verdict w2 idb = Inr (CONFIRMED, included_block b2, st_txid ?g')"
    using demo_verdict_paid [OF h(1) 2(3,7)] demo_verdict_paid [OF h(2) 2(4,8)] 2(5,6) 1(3,8) by simp_all
  have n: "length (all_operations (w_store w)) = 2" using 0(7) by (simp add: two_rows_def all_operations_def)
  show ?thesis
    using 0(1-6) 1(1) 2(1) v n ne st by (auto simp: demo_main_def Let_def)
qed

text \<open>A digest of 32 bytes that tells the two envelopes apart; it gives every address the same checksum.\<close>

definition demo_sha :: "bytes \<Rightarrow> bytes" where
  "demo_sha bs = replicate 31 7 @ [if bs = txid_blob (demo_envelope sample_sha 0x0b 9990000 demo_later) then 1 else 0]"

lemma demo_sha_envelopes: "demo_envelope demo_sha b n t = demo_envelope sample_sha b n t"
proof -
  have "take 4 (demo_sha x) = take 4 (sample_sha y)" for x y by (simp add: demo_sha_def sample_sha_def)
  then have "checksum demo_sha = checksum sample_sha" by (simp add: fun_eq_iff checksum_def)
  then have "demo_address demo_sha = demo_address sample_sha"
    by (simp add: fun_eq_iff demo_address_def from_payload_def Let_def)
  then show ?thesis by (simp add: demo_envelope_def build_envelope_def demo_op_def new_operation_def)
qed

theorem demo_runs_clean_witness:
  "\<exists>rep b1 t1 b2 t2. demo_main demo_sha 1 2 3 = Some (Inr rep) \<and> dr_created rep = [True, True, False] \<and>
    dr_rows rep = 2 \<and> map (fst \<circ> snd) (dr_status rep) = [''broadcasting'', ''requested''] \<and>
    dr_verdicts rep = [(CONFIRMED, b1, t1), (CONFIRMED, b2, t2)] \<and> t1 \<noteq> t2"
proof (rule demo_runs_clean)
  have "txid_blob (demo_envelope sample_sha 0x0a 1250750000 demo_start) \<noteq> txid_blob (demo_envelope sample_sha 0x0b 9990000 demo_later)"
    using demo_envelopes_differ txid_blob_inject by blast
  then show "inj_on demo_sha {txid_blob (demo_envelope demo_sha 0x0a 1250750000 demo_start),
      txid_blob (demo_envelope demo_sha 0x0b 9990000 demo_later)}"
    unfolding demo_sha_envelopes by (simp add: inj_on_def demo_sha_def)
qed (simp_all add: demo_sha_def)

end
