(* ===== verification/Payments.thy ===== *)
theory Payments
  imports Discipline
begin

text \<open>
  What reaches the chain is what was asked for.  Every transaction the node holds is the transfer of the
  amount of one operation on record to its destination, through the configured contract, under a txid
  of that operation, and the operation has passed the checks of the pipeline.  It is an invariant of the
  calls one by one (\<open>Discipline\<close>), so it holds of every reachable state whatever the timing.
\<close>

section \<open>What an operation asks for\<close>

type_synonym asked = "string \<times> string \<times> int"

definition asked_of :: "operation \<Rightarrow> asked" where
  "asked_of r = (to_address r, asset r, amount_units r)"

text \<open>The checks of \<open>_validate\<close>.\<close>

fun admissible :: "(bytes \<Rightarrow> bytes) \<Rightarrow> config \<Rightarrow> asked \<Rightarrow> bool" where
  "admissible sha cfg (addr, ass, n) \<longleftrightarrow> is_valid sha addr \<and> ass = cfg_asset cfg \<and>
     min_amount_units cfg \<le> n \<and> n \<le> max_amount_units cfg"

fun transfers :: "config \<Rightarrow> asked \<Rightarrow> signedtx \<Rightarrow> bool" where
  "transfers cfg (addr, ass, n) g \<longleftrightarrow> (let c = rd_contract (st_raw_data g) in
     c_type c = ''TriggerSmartContract'' \<and> contract_address c = usdt_contract cfg \<and>
     c_call c = ''transfer(address,uint256)'' \<and> c_to c = addr \<and> py_str n = Inr (c_amount_units c))"

text \<open>The signature of the wallet, and a node that knows its key.\<close>

definition authentic :: "(bytes \<Rightarrow> bytes) \<Rightarrow> mock_signer \<Rightarrow> signedtx \<Rightarrow> bool" where
  "authentic sha sg g \<longleftrightarrow> st_signature g = key_id sg @ '':'' @ hmac_hex sha sg (st_txid g)"

definition trusted :: "mock_signer \<Rightarrow> mock_signer \<Rightarrow> bool" where
  "trusted sg nsg \<longleftrightarrow> sg = nsg \<and> CHR '':'' \<notin> set (key_id sg)"

definition reverted :: "node \<Rightarrow> string set" where
  "reverted nd = included_txids nd - successful_txids nd"

section \<open>The discipline\<close>

text \<open>The state that is looked at fixes what is asked for, the txids of each operation, and what is
  known to have been refused.\<close>

record registry =
  reg_asked :: "uuid \<Rightarrow> asked option"
  reg_txids :: "uuid \<Rightarrow> string set"
  reg_reverted :: "string set"
  reg_trusted :: bool

definition pays_for :: "(bytes \<Rightarrow> bytes) \<Rightarrow> config \<Rightarrow> mock_signer \<Rightarrow> registry \<Rightarrow> uuid \<Rightarrow> signedtx \<Rightarrow> bool" where
  "pays_for sha cfg sg R i g \<longleftrightarrow> authentic sha sg g \<and> st_txid g \<in> reg_txids R i \<and>
     (\<exists>a. reg_asked R i = Some a \<and> admissible sha cfg a \<and> transfers cfg a g)"

definition unvetted :: "op_state \<Rightarrow> bool" where
  "unvetted st \<longleftrightarrow> st \<in> {REQUESTED, REJECTED}"

definition presign :: "op_state \<Rightarrow> bool" where
  "presign st \<longleftrightarrow> st \<in> {REQUESTED, REJECTED, VALIDATED, SIGNING}"

definition refused :: "registry \<Rightarrow> uuid \<Rightarrow> bool" where
  "refused R i \<longleftrightarrow> \<not> reg_trusted R \<or> reg_txids R i \<inter> reg_reverted R \<noteq> {}"

definition row_pays :: "(bytes \<Rightarrow> bytes) \<Rightarrow> config \<Rightarrow> mock_signer \<Rightarrow> registry \<Rightarrow> operation \<Rightarrow> bool" where
  "row_pays sha cfg sg R r \<longleftrightarrow> reg_asked R (operation_id r) = Some (asked_of r) \<and>
     (\<not> unvetted (op_state r) \<longrightarrow> admissible sha cfg (asked_of r)) \<and>
     (presign (op_state r) \<longrightarrow> signed_tx r = None) \<and>
     (op_state r = FAILED \<and> signed_tx r \<noteq> None \<longrightarrow> refused R (operation_id r)) \<and>
     (\<forall>d. signed_tx r = Some d \<longrightarrow> (\<exists>g. d = to_json g \<and> pays_for sha cfg sg R (operation_id r) g))"

definition may_write :: "(bytes \<Rightarrow> bytes) \<Rightarrow> config \<Rightarrow> mock_signer \<Rightarrow> registry \<Rightarrow> uuid \<Rightarrow> op_state \<Rightarrow> op_state \<Rightarrow>
    field_set list \<Rightarrow> bool" where
  "may_write sha cfg sg R i src dst sets \<longleftrightarrow>
     (\<not> unvetted dst \<longrightarrow> \<not> unvetted src \<or> (\<exists>a. reg_asked R i = Some a \<and> admissible sha cfg a)) \<and>
     (presign dst \<longrightarrow> presign src \<or> Set_signed_tx None \<in> set sets) \<and>
     (dst = FAILED \<longrightarrow> src \<in> {SIGNING, FAILED} \<or> refused R i) \<and>
     (\<forall>d. Set_signed_tx (Some d) \<in> set sets \<longrightarrow> dst = SIGNED \<and> (\<exists>g. d = to_json g \<and> pays_for sha cfg sg R i g))"

definition paying :: "(bytes \<Rightarrow> bytes) \<Rightarrow> config \<Rightarrow> mock_signer \<Rightarrow> registry \<Rightarrow> discipline" where
  "paying sha cfg sg R =
     \<lparr> d_row = row_pays sha cfg sg R, d_write = may_write sha cfg sg R,
       d_noted = (\<lambda>i det. detail_txids det \<subseteq> reg_txids R i),
       d_send = (\<lambda>g. \<exists>i. pays_for sha cfg sg R i g),
       d_told = (\<lambda>g b. authentic sha sg g \<and> br_code b \<in> set HARD_REJECT \<longrightarrow> \<not> reg_trusted R),
       d_found = (\<lambda>t st. ts_result st = INCLUDED \<and> ts_receipt st \<noteq> Some ''SUCCESS'' \<longrightarrow> t \<in> reg_reverted R) \<rparr>"

definition registered :: "mock_signer \<Rightarrow> registry \<Rightarrow> world \<Rightarrow> bool" where
  "registered sg R w \<longleftrightarrow> (\<forall>i r. get (w_store w) i = Some r \<longrightarrow> reg_asked R i = Some (asked_of r)) \<and>
     (\<forall>i. history (w_store w) i \<subseteq> reg_txids R i) \<and> reverted (w_node w) \<subseteq> reg_reverted R \<and>
     (reg_trusted R \<longleftrightarrow> trusted sg (nd_signer (w_node w)))"

lemma paying_simps [simp]:
  "d_row (paying sha cfg sg R) = row_pays sha cfg sg R"
  "d_noted (paying sha cfg sg R) i det \<longleftrightarrow> detail_txids det \<subseteq> reg_txids R i"
  "d_send (paying sha cfg sg R) g \<longleftrightarrow> (\<exists>i. pays_for sha cfg sg R i g)"
  "d_write (paying sha cfg sg R) = may_write sha cfg sg R"
  "d_told (paying sha cfg sg R) g b \<longleftrightarrow> (authentic sha sg g \<and> br_code b \<in> set HARD_REJECT \<longrightarrow> \<not> reg_trusted R)"
  "d_found (paying sha cfg sg R) t st \<longleftrightarrow>
     (ts_result st = INCLUDED \<and> ts_receipt st \<noteq> Some ''SUCCESS'' \<longrightarrow> t \<in> reg_reverted R)"
  by (simp_all add: paying_def)

lemma unvetted_simps [simp]:
  "unvetted REQUESTED" "unvetted REJECTED" "\<not> unvetted VALIDATED" "\<not> unvetted SIGNING" "\<not> unvetted SIGNED"
  "\<not> unvetted BROADCASTING" "\<not> unvetted BROADCAST" "\<not> unvetted CONFIRMED" "\<not> unvetted FAILED"
  by (simp_all add: unvetted_def)

lemma presign_simps [simp]:
  "presign REQUESTED" "presign REJECTED" "presign VALIDATED" "presign SIGNING" "\<not> presign SIGNED"
  "\<not> presign BROADCASTING" "\<not> presign BROADCAST" "\<not> presign CONFIRMED" "\<not> presign FAILED"
  by (simp_all add: presign_def)

lemma asked_intake: "intake_part r' = intake_part r \<Longrightarrow> asked_of r' = asked_of r \<and> operation_id r' = operation_id r"
  by (simp add: intake_part_def asked_of_def)

lemma signed_after_sets:
  "signed_tx (fold apply_set sets r) = Some d \<Longrightarrow>
     (signed_tx r = Some d \<and> Set_signed_tx None \<notin> set sets) \<or> Set_signed_tx (Some d) \<in> set sets"
proof (induction sets arbitrary: r)
  case (Cons f fs)
  then show ?case by (cases f) (auto dest!: Cons.IH)
qed simp

lemma reverted_stays:
  assumes "node_stays nd nd'"
  shows "reverted nd \<subseteq> reverted nd'"
proof
  fix t assume "t \<in> reverted nd"
  then obtain q where q: "dict_get (nd_txs nd) t = Some q" "rec_included_block q \<noteq> None" "receipt q \<noteq> Some ''SUCCESS''"
    using assms by (auto simp: reverted_def node_stays_def included_iff successful_iff)
  then have "dict_get (nd_txs nd') t = Some q" using assms unfolding node_stays_def by blast
  then show "t \<in> reverted nd'" using q assms by (simp add: reverted_def node_stays_def included_iff successful_iff)
qed

text \<open>What \<open>broadcast\<close> says of an envelope of the wallet.\<close>

lemma hard_reject_untrusted:
  assumes "broadcast sha clk nd g who = (Inr b, nd')" "authentic sha sg g" "br_code b \<in> set HARD_REJECT"
  shows "\<not> trusted sg (nd_signer nd)"
proof
  assume "trusted sg (nd_signer nd)"
  then have "verify sha (nd_signer nd) g = Inr True"
    using assms(2) by (auto simp: trusted_def authentic_def verify_True_iff)
  then show False
    using assms(1,3) by (auto simp: broadcast_def Let_def HARD_REJECT_def take_fault_def split: option.splits if_splits list.splits sum.splits prod.splits)
qed

lemma found_reverted:
  assumes "node_wf nd" "find_tx clk nd t = (Inr st, nd')" "ts_result st = INCLUDED" "ts_receipt st \<noteq> Some ''SUCCESS''"
  shows "t \<in> reverted nd'"
proof -
  obtain f where nd': "nd' = nd\<lparr>nd_faults := f\<rparr>" using find_tx_frame [OF assms(2)] by blast
  obtain r0 nd0 where tf: "take_fault nd ''query'' = (r0, nd0)" by fastforce
  then obtain f' where "nd0 = nd\<lparr>nd_faults := f'\<rparr>" using take_fault_frame by blast
  then show ?thesis
    using assms tf nd' by (auto simp: find_tx_def Let_def reverted_def included_iff successful_iff
      split: sum.splits if_splits option.splits)
qed

lemma may_write_row:
  assumes r: "row_pays sha cfg sg R r" and m: "mutable_sets sets"
    and w: "may_write sha cfg sg R (operation_id r) (op_state r) dst sets"
  shows "row_pays sha cfg sg R (written now dst sets renew r)"
proof -
  let ?r = "written now dst sets renew r"
  have k: "asked_of ?r = asked_of r" "operation_id ?r = operation_id r" "op_state ?r = dst"
    using asked_intake [OF written_keeps(1) [OF m]] written_keeps(2) [OF m] by simp_all
  have "(signed_tx r = Some d \<and> Set_signed_tx None \<notin> set sets) \<or> Set_signed_tx (Some d) \<in> set sets"
    if "signed_tx ?r = Some d" for d
    using that signed_after_sets [of sets r d] by (simp add: written_def Let_def split: option.splits if_splits)
  then have sg: "signed_tx ?r = Some d \<Longrightarrow> (signed_tx r = Some d \<and> \<not> presign dst) \<or> Set_signed_tx (Some d) \<in> set sets" for d
    using r w by (force simp: row_pays_def may_write_def)
  show "row_pays sha cfg sg R ?r"
    unfolding row_pays_def k
  proof (intro conjI allI impI)
    show "\<not> unvetted dst \<Longrightarrow> admissible sha cfg (asked_of r)" using r w by (auto simp: row_pays_def may_write_def)
    show "presign dst \<Longrightarrow> signed_tx ?r = None" using sg w by (cases "signed_tx ?r") (auto simp: may_write_def)
    show "refused R (operation_id r)" if "dst = FAILED \<and> signed_tx ?r \<noteq> None"
      using that sg r w by (auto simp: may_write_def row_pays_def)
    show "\<exists>g. d = to_json g \<and> pays_for sha cfg sg R (operation_id r) g" if "signed_tx ?r = Some d" for d
      using sg [OF that] r w by (auto simp: may_write_def row_pays_def)
  qed (use r in \<open>simp add: row_pays_def\<close>)
qed

lemma paying_laws: "discipline_laws (paying sha cfg sg R) (registered sg R) sha"
proof
  fix r r' assume r: "d_row (paying sha cfg sg R) r" and lp: "lifecycle_part r' = lifecycle_part r"
  have "asked_of r' = asked_of r" using arg_cong [OF lp, of asked_of] by (simp add: lifecycle_part_def asked_of_def)
  then show "d_row (paying sha cfg sg R) r'" using r lifecycle_fields [OF lp] by (simp add: row_pays_def)
next
  fix r dst sets now renew
  assume "d_row (paying sha cfg sg R) r" "mutable_sets sets"
    "d_write (paying sha cfg sg R) (operation_id r) (op_state r) dst sets"
  then show "d_row (paying sha cfg sg R) (written now dst sets renew r)" using may_write_row by simp
next
  fix w i r assume "registered sg R w" "get (w_store w) i = Some r" "op_state r = REQUESTED" "signed_tx r = None" "operation_id r = i"
  then show "d_row (paying sha cfg sg R) r" by (simp add: row_pays_def registered_def)
next
  fix w det i assume "registered sg R w" "detail_txids det \<subseteq> history (w_store w) i"
  then show "d_noted (paying sha cfg sg R) i det" unfolding paying_simps registered_def by blast
next
  fix w nd clk g who b assume sc: "registered sg R (w\<lparr>w_node := nd\<rparr>)" and b: "broadcast sha clk (w_node w) g who = (Inr b, nd)"
  have "nd_signer nd = nd_signer (w_node w)" using b by (cases rule: broadcast_effect) simp_all
  then show "d_told (paying sha cfg sg R) g b"
    using sc hard_reject_untrusted [OF b] by (simp add: registered_def)
next
  fix w nd clk t st assume "registered sg R (w\<lparr>w_node := nd\<rparr>)" "node_wf (w_node w)" "find_tx clk (w_node w) t = (Inr st, nd)"
  then show "d_found (paying sha cfg sg R) t st"
    using found_reverted by (auto simp: registered_def)
next
  fix w w' assume r: "registered sg R w'" and g: "grows w w'"
  have "reg_asked R i = Some (asked_of q)" if "get (w_store w) i = Some q" for i q
    using g that r asked_intake unfolding registered_def grows_def rows_stay_def row_stays_def by metis
  moreover have "reverted (w_node w) \<subseteq> reverted (w_node w')" using g reverted_stays by (simp add: grows_def)
  ultimately show "registered sg R w" using r g unfolding registered_def grows_def node_stays_def by (metis subset_trans)
qed

section \<open>The worker obeys\<close>

lemma built_transfers:
  assumes "py_str (amount_units op) = Inr units"
  shows "transfers cfg (asked_of op) (sign sha sg (unsigned_envelope sha cfg op units ref now))"
  using assms by (simp add: asked_of_def unsigned_envelope_def build_envelope_def Let_def)

abbreviation fine :: "exn \<Rightarrow> bool" where
  "fine \<equiv> \<lambda>_. True"

text \<open>A write that sets no envelope.\<close>

lemma write_pays:
  assumes "row_pays sha cfg sg R op" "\<not> unvetted (op_state op) \<or> unvetted dst"
    "\<And>d. Set_signed_tx (Some d) \<notin> set sets" "presign dst \<Longrightarrow> presign (op_state op) \<or> Set_signed_tx None \<in> set sets"
    "dst = FAILED \<Longrightarrow> op_state op = SIGNING \<or> refused R (operation_id op)"
    "\<And>op'. row_pays sha cfg sg R op' \<Longrightarrow> operation_id op' = operation_id op \<Longrightarrow> op_state op' = dst \<Longrightarrow>
       detail_txids det \<subseteq> reg_txids R (operation_id op) \<Longrightarrow> Q op'" "\<And>e. E e"
  shows "obeys (paying sha cfg sg R) (p_cas cfg op dst wid sets det) Q E"
  by (rule obeys_p_cas) (use assms in \<open>auto simp: may_write_def\<close>)

lemma load_pays:
  assumes "row_pays sha cfg sg R op" "\<And>g. pays_for sha cfg sg R (operation_id op) g \<Longrightarrow> Q g" "\<And>e. E e"
  shows "obeys (paying sha cfg sg R) (load_signed op) Q E"
  using assms by (cases "signed_tx op") (auto simp: load_signed_def row_pays_def)

lemma timeout_pays [simp]:
  "obeys D (on_timeout op e) Q fine \<longleftrightarrow> ((\<exists>m. e = NodeTimeout m) \<longrightarrow> Q op)"
  by (cases e) (simp_all add: on_timeout_def)

text \<open>A vetted row: what the handlers past \<open>_validate\<close> start from and return.\<close>

definition vetted :: "(bytes \<Rightarrow> bytes) \<Rightarrow> config \<Rightarrow> mock_signer \<Rightarrow> registry \<Rightarrow> operation \<Rightarrow> bool" where
  "vetted sha cfg sg R op \<longleftrightarrow> row_pays sha cfg sg R op \<and> \<not> unvetted (op_state op)"

lemma vetted_write:
  assumes "vetted sha cfg sg R op" "\<And>d. Set_signed_tx (Some d) \<notin> set sets"
    "presign dst \<Longrightarrow> presign (op_state op) \<or> Set_signed_tx None \<in> set sets"
    "dst = FAILED \<Longrightarrow> op_state op = SIGNING \<or> refused R (operation_id op)"
    "\<And>op'. row_pays sha cfg sg R op' \<Longrightarrow> Q op'" "\<And>e. E e"
  shows "obeys (paying sha cfg sg R) (p_cas cfg op dst wid sets det) Q E"
  by (rule write_pays) (use assms in \<open>auto simp: vetted_def\<close>)

lemma settle_pays:
  assumes "vetted sha cfg sg R op" "br_code b \<in> set HARD_REJECT \<Longrightarrow> \<not> reg_trusted R"
  shows "obeys (paying sha cfg sg R) (settle_broadcast_result cfg op wid g b) (row_pays sha cfg sg R) fine"
  using assms by (auto simp: settle_broadcast_result_def Let_def vetted_def refused_def intro!: vetted_write)

lemma rebuild_pays:
  assumes "vetted sha cfg sg R op"
  shows "obeys (paying sha cfg sg R) (rebuild cfg op wid why ev) (row_pays sha cfg sg R) fine"
  unfolding rebuild_def by (rule vetted_write [OF assms]) simp_all

lemma resend_pays:
  assumes "vetted sha cfg sg R op" "pays_for sha cfg sg R i g"
  shows "obeys (paying sha cfg sg R) (resend cfg op wid g) (row_pays sha cfg sg R) fine"
  using assms settle_pays [OF assms(1)] by (auto simp: resend_def vetted_def pays_for_def)

lemma first_send_pays:
  assumes "vetted sha cfg sg R op" "pays_for sha cfg sg R i g"
  shows "obeys (paying sha cfg sg R) (first_send cfg op wid g) (row_pays sha cfg sg R) fine"
  using assms settle_pays [OF assms(1)] by (auto simp: first_send_def vetted_def pays_for_def)

lemma mark_found_pays:
  assumes "vetted sha cfg sg R op"
  shows "obeys (paying sha cfg sg R) (mark_found cfg op wid g st) (row_pays sha cfg sg R) fine"
  using assms by (auto simp: mark_found_def intro!: vetted_write split: option.split)

lemma inclusion_pays:
  assumes "vetted sha cfg sg R op" "pays_for sha cfg sg R (operation_id op) g"
    "ts_receipt st \<noteq> Some ''SUCCESS'' \<Longrightarrow> st_txid g \<in> reg_reverted R"
  shows "obeys (paying sha cfg sg R) (settle_inclusion cfg op wid g st) (row_pays sha cfg sg R) fine"
  using assms by (auto simp: settle_inclusion_def refused_def pays_for_def intro!: vetted_write)

lemma proof_obeys: "(\<And>x. Q x) \<Longrightarrow> obeys D (proof_of_death cfg g) Q fine"
  by (auto simp: proof_of_death_def Let_def split: sum.split)

lemma broadcast_pays:
  assumes "vetted sha cfg sg R op"
  shows "obeys (paying sha cfg sg R) (p_broadcast cfg op wid) (row_pays sha cfg sg R) fine"
  unfolding p_broadcast_def obeys_pbind
proof (rule load_pays)
  fix g assume g: "pays_for sha cfg sg R (operation_id op) g"
  have "obeys (paying sha cfg sg R) (p_cas cfg op BROADCASTING wid [] det)
      (\<lambda>op'. obeys (paying sha cfg sg R) (first_send cfg op' wid g) (row_pays sha cfg sg R) fine) fine" for det
    by (rule write_pays) (use assms g first_send_pays in \<open>auto simp: vetted_def\<close>)
  then show "obeys (paying sha cfg sg R) clock_now (\<lambda>now. obeys (paying sha cfg sg R)
      (if st_expiration g \<le> now then rebuild cfg op wid ''expired before first send''
           [(''rule'', PStr ''never-broadcast envelope; local expiry check'')]
       else pbind (p_cas cfg op BROADCASTING wid []
           [(''txid'', PStr (st_txid g)), (''reason'', PStr ''write-ahead'')]) (\<lambda>op. first_send cfg op wid g))
      (row_pays sha cfg sg R) fine) fine"
    using rebuild_pays [OF assms] by simp
qed (use assms in \<open>simp_all add: vetted_def\<close>)

lemma reconcile_pays:
  assumes "vetted sha cfg sg R op"
  shows "obeys (paying sha cfg sg R) (reconcile_broadcast cfg op wid) (row_pays sha cfg sg R) fine"
  unfolding reconcile_broadcast_def obeys_pbind
  by (rule load_pays) (use assms mark_found_pays [OF assms] resend_pays [OF assms] rebuild_pays [OF assms] in
    \<open>auto simp: vetted_def intro!: proof_obeys split: sum.split\<close>)

lemma await_pays:
  assumes "vetted sha cfg sg R op"
  shows "obeys (paying sha cfg sg R) (await_confirmation cfg op wid) (row_pays sha cfg sg R) fine"
  unfolding await_confirmation_def obeys_pbind
  by (rule load_pays) (use assms inclusion_pays [OF assms] rebuild_pays [OF assms] in
    \<open>auto simp: vetted_def intro!: proof_obeys split: sum.split\<close>)

text \<open>The envelope is built from the columns of the row, and its txid is on record before it is signed.\<close>

lemma persist_pays:
  assumes op: "vetted sha cfg sg R op" and u: "transfers cfg (asked_of op) (sign sha sg u)"
  shows "obeys (paying sha cfg sg R) (persist_and_sign sha cfg sg op wid u) (row_pays sha cfg sg R) fine"
  unfolding persist_and_sign_def obeys_pbind
proof (rule write_pays)
  fix op' assume op': "row_pays sha cfg sg R op'" "operation_id op' = operation_id op" "op_state op' = SIGNING"
    "detail_txids [(''txid'', PStr (ut_txid u)), (''reason'', PStr ''envelope built'')] \<subseteq> reg_txids R (operation_id op)"
  have "reg_asked R (operation_id op) = Some (asked_of op)" "admissible sha cfg (asked_of op)"
    using op by (auto simp: vetted_def row_pays_def)
  then have "pays_for sha cfg sg R (operation_id op) (sign sha sg u)"
    using op'(4) u by (simp add: pays_for_def detail_txids_def authentic_def sign_def)
  then have "obeys (paying sha cfg sg R) (p_cas cfg op' SIGNED wid [Set_signed_tx (Some (to_json (sign sha sg u)))] [])
      (row_pays sha cfg sg R) fine"
    by (intro obeys_p_cas) (use op'(2,3) in \<open>auto simp: may_write_def\<close>)
  then show "obeys (paying sha cfg sg R) (crash_here SIGN_MID) (\<lambda>_. obeys (paying sha cfg sg R)
      (p_cas cfg op' SIGNED wid [Set_signed_tx (Some (to_json (sign sha sg u)))] []) (row_pays sha cfg sg R) fine) fine"
    by simp
qed (use op in \<open>auto simp: vetted_def\<close>)

lemma build_fresh_pays:
  assumes "vetted sha cfg sg R op" "op_state op = SIGNING"
  shows "obeys (paying sha cfg sg R) (build_fresh sha cfg sg op wid) (row_pays sha cfg sg R) fine"
  using assms persist_pays [OF assms(1) built_transfers]
  by (auto simp: build_fresh_def intro!: vetted_write split: sum.split)

lemma build_pays:
  assumes "vetted sha cfg sg R op" "op_state op \<in> {VALIDATED, SIGNING}"
  shows "obeys (paying sha cfg sg R) (build_and_sign sha cfg sg op wid) (row_pays sha cfg sg R) fine"
  unfolding build_and_sign_def obeys_pbind
  using build_fresh_pays assms by (auto simp: vetted_def intro!: write_pays)

lemma validate_pays:
  assumes "row_pays sha cfg sg R op" "op_state op = REQUESTED"
  shows "obeys (paying sha cfg sg R) (p_validate sha cfg op wid) (row_pays sha cfg sg R) fine"
proof -
  have a: "reg_asked R (operation_id op) = Some (asked_of op)" using assms(1) by (simp add: row_pays_def)
  have "obeys (paying sha cfg sg R) (p_cas cfg op REJECTED wid sets []) (row_pays sha cfg sg R) fine"
    if "\<And>d. Set_signed_tx (Some d) \<notin> set sets" for sets
    by (rule write_pays [OF assms(1)]) (use that assms(2) in auto)
  moreover have "obeys (paying sha cfg sg R) (p_cas cfg op VALIDATED wid [] []) (row_pays sha cfg sg R) fine"
    if "admissible sha cfg (asked_of op)"
    by (rule obeys_p_cas) (use that a assms(2) in \<open>auto simp: may_write_def\<close>)
  ultimately show ?thesis by (simp add: p_validate_def asked_of_def)
qed

lemma step_pays:
  assumes "row_pays sha cfg sg R op"
  shows "obeys (paying sha cfg sg R) (pipeline_step sha cfg sg op wid) (row_pays sha cfg sg R) fine"
  using assms validate_pays build_pays broadcast_pays reconcile_pays await_pays
  by (cases "op_state op") (simp_all add: pipeline_step_def vetted_def)

lemma drive_loop_pays:
  assumes "row_pays sha cfg sg R op"
  shows "obeys (paying sha cfg sg R) (drive_loop sha cfg sg wid n op adv)
    (\<lambda>x. case x of Left_Loop op' _ \<Rightarrow> row_pays sha cfg sg R op' | Handler_Error op' _ \<Rightarrow> row_pays sha cfg sg R op' | _ \<Rightarrow> True) fine"
  using assms
proof (induction n arbitrary: op adv)
  case (Suc n)
  then show ?case
    by (auto simp: Let_def split: exn.split intro!: obeys_mono [OF step_pays [OF Suc.prems]])
qed simp

lemma drive_pays:
  assumes "row_pays sha cfg sg R op"
  shows "obeys (paying sha cfg sg R) (drive sha cfg sg wid op) (\<lambda>_. True) fine"
  unfolding drive_def obeys_pbind
  by (rule obeys_mono [OF drive_loop_pays [OF assms]]) (auto simp: may_write_def intro!: obeys_cas split: drive_exit.splits)

lemma drive_all_pays:
  "\<forall>op \<in> set ops. row_pays sha cfg sg R op \<Longrightarrow> obeys (paying sha cfg sg R) (drive_all sha cfg sg wid ops acc) (\<lambda>_. True) fine"
proof (induction ops arbitrary: acc)
  case (Cons op ops)
  then show ?case by (auto intro!: obeys_mono [OF drive_pays])
qed simp

lemma worker_pays: "obeys (paying sha cfg sg R) (run_once sha cfg sg wid) (\<lambda>_. True) fine"
  by (auto simp: run_once_def intro!: obeys_claim drive_all_pays)

interpretation pay: disciplined_fleet "paying sha cfg sg R" "registered sg R" sha cfg sg for sha cfg sg R
  by (rule disciplined_fleet.intro [OF paying_laws]) (simp add: disciplined_fleet_axioms_def worker_pays)

section \<open>Every reachable state\<close>

text \<open>The registry of a state.\<close>

definition registry_of :: "mock_signer \<Rightarrow> world \<Rightarrow> registry" where
  "registry_of sg w = \<lparr> reg_asked = (\<lambda>i. map_option asked_of (get (w_store w) i)), reg_txids = history (w_store w),
     reg_reverted = reverted (w_node w), reg_trusted = trusted sg (nd_signer (w_node w)) \<rparr>"

lemma registered_of: "registered sg (registry_of sg w) w"
  by (simp add: registered_def registry_of_def)

lemma held_is_asked:
  assumes "(sys_step sha cfg sg strict)\<^sup>*\<^sup>* (initial_system clk lag delay nsg) s"
    "dict_get (nd_txs (w_node (s_world s))) t = Some q"
  obtains i r where "get (w_store (s_world s)) i = Some r" "t \<in> history (w_store (s_world s)) i"
    "admissible sha cfg (asked_of r)" "transfers cfg (asked_of r) (rec_tx q)" "authentic sha sg (rec_tx q)"
    "verify sha nsg (rec_tx q) = Inr True"
proof -
  let ?R = "registry_of sg (s_world s)"
  have k: "pay.keeps sha cfg sg ?R (s_world s)"
    using pay.fleet_keeps_reachable [OF assms(1) registered_of] by (simp add: pay.fleet_keeps_def)
  have wf: "node_wf (w_node (s_world s))" "nd_signer (w_node (s_world s)) = nsg"
    using wf_reachable [OF assms(1)] by simp_all
  have t: "st_txid (rec_tx q) = t" using node_wf_get [OF wf(1) assms(2)] unfolding record_wf_def by blast
  have "\<exists>i. pays_for sha cfg sg ?R i (rec_tx q)" using k assms(2) unfolding pay.keeps_def paying_simps by blast
  moreover have "verify sha nsg (rec_tx q) = Inr True"
    using verified_reachable [OF assms(1)] assms(2) wf(2) by (simp add: node_verified_def)
  ultimately show thesis using that t by (auto simp: pays_for_def registry_of_def)
qed

text \<open>The amount the node reports is the amount of the row.\<close>

lemma py_str_int: "py_str n = Inr u \<Longrightarrow> int_of_str u = Inr n"
  by (auto simp: py_str_def int_of_int_str split: if_splits)

lemma transfers_amount:
  "dict_get (nd_txs nd) t = Some q \<Longrightarrow> transfers cfg (asked_of r) (rec_tx q) \<Longrightarrow>
     c_to (rd_contract (st_raw_data (rec_tx q))) = to_address r \<and> tx_amount nd t = Inr (amount_units r)"
  by (auto simp: tx_amount_def asked_of_def Let_def py_str_int)

text \<open>An operation that failed: its envelope is gone, the node does not know the key, or a txid of it is in a
  block without success.\<close>

lemma failed_row:
  assumes "(sys_step sha cfg sg strict)\<^sup>*\<^sup>* (initial_system clk lag delay nsg) s"
    "get (w_store (s_world s)) i = Some r" "op_state r = FAILED"
  shows "signed_tx r = None \<or> \<not> trusted sg nsg \<or> history (w_store (s_world s)) i \<inter> reverted (w_node (s_world s)) \<noteq> {}"
proof -
  let ?R = "registry_of sg (s_world s)"
  have "row_pays sha cfg sg ?R r"
    using pay.fleet_keeps_reachable [OF assms(1) registered_of] assms(2) by (simp add: pay.fleet_keeps_def pay.keeps_def)
  moreover have "operation_id r = i" "nd_signer (w_node (s_world s)) = nsg"
    using wf_reachable [OF assms(1)] assms(2) store_wf_row by blast+
  ultimately show ?thesis using assms(3) by (auto simp: row_pays_def refused_def registry_of_def)
qed

text \<open>What a key the node does not know is worth.\<close>

lemma split_last_colon:
  "CHR '':'' \<notin> set h \<Longrightarrow> CHR '':'' \<notin> set h' \<Longrightarrow> k @ CHR '':'' # h = k' @ CHR '':'' # h' \<Longrightarrow> k = k'"
proof (induction k arbitrary: k')
  case Nil
  then show ?case by (cases k') auto
next
  case (Cons c k)
  then show ?case by (cases k') auto
qed

lemma hmac_hex_no_colon: "CHR '':'' \<notin> set (hmac_hex sha sg t)"
proof
  assume "CHR '':'' \<in> set (hmac_hex sha sg t)"
  then obtain b :: "8 word" where "CHR '':'' = hex_char (unat b div 16) \<or> CHR '':'' = hex_char (unat b mod 16)"
    by (auto simp: hmac_hex_def bytes_hex_def hex_byte_def)
  moreover have "unat b div 16 < 16" "unat b mod 16 < 16"
    using unsigned_less [of b, where 'a = nat] by (simp_all add: less_mult_imp_div_less)
  ultimately obtain n where n: "n < 16" "CHR '':'' = hex_char n" by blast
  then have "(of_char (hex_char n) :: nat) = of_char CHR '':''" by simp
  then show False using n(1) by (simp add: hex_char_of split: if_splits)
qed

lemma untrusted_key:
  assumes "verify sha nsg g = Inr True" "authentic sha sg g" "key_id sg = key_id nsg \<longrightarrow> secret sg = secret nsg"
  shows "trusted sg nsg"
proof -
  have v: "CHR '':'' \<notin> set (key_id nsg)"
    "key_id sg @ CHR '':'' # hmac_hex sha sg (st_txid g) = key_id nsg @ CHR '':'' # hmac_hex sha nsg (st_txid g)"
    using assms(1,2) by (simp_all add: verify_True_iff authentic_def)
  have "key_id sg = key_id nsg" using split_last_colon [OF hmac_hex_no_colon hmac_hex_no_colon v(2)] .
  then show ?thesis using v(1) assms(3) by (simp add: trusted_def)
qed

end
