(* ===== verification/Refused_Run.thy ===== *)
theory Refused_Run
  imports Safety
begin

text \<open>
  A run in which the node refuses the signature of the wallet: the first pass takes the withdrawal to
  \<open>failed\<close>, with its txid on record and nothing on the chain.
\<close>

lemma refusing_broadcast:
  assumes "healthy nd" "verify sha (nd_signer nd) g = Inr False"
  shows "broadcast sha clk nd g (Some wid) =
    (Inr \<lparr> br_code = code_value SIGERROR, br_message = ''bad signature'' \<rparr>, log_it nd g (Some wid) ''rejected:SIGERROR'')"
  using assms by (simp add: broadcast_def take_fault_def healthy_def Let_def)

lemma run_p_broadcast_refused:
  assumes op: "holds_row w op" "op_state op = SIGNED" "signed_tx op = Some (to_json g)"
    and live: "w_clock w < st_expiration g"
    and node: "healthy (w_node w)" "verify sha (nd_signer (w_node w)) g = Inr False"
    and calm: "calm (w_crash w)"
  obtains op' w' nd where "run sha (p_broadcast cfg op wid) w = (Inr op', w')" "wrote_row (w\<lparr>w_node := nd\<rparr>) w' op'"
    "same_claim op op'" "st_txid g \<in> history (w_store w') (operation_id op)" "op_state op' = FAILED"
proof -
  let ?w = "\<lambda>dst sets. written (w_clock w) dst sets (Some (lease_seconds cfg))"
  let ?d1 = "[(''txid'', PStr (st_txid g)), (''reason'', PStr ''write-ahead'')]"
  obtain w1 where r1: "run sha (p_cas cfg op BROADCASTING wid [] ?d1) w = (Inr (?w BROADCASTING [] op), w1)"
    "wrote_row w w1 (?w BROADCASTING [] op)" "same_claim op (?w BROADCASTING [] op)"
    using run_p_cas [OF op(1), of BROADCASTING "[]" sha cfg wid ?d1] op(2) by (auto simp: handler_sets)
  define op1 where "op1 = ?w BROADCASTING [] op"
  have op1: "op_state op1 = BROADCASTING" by (simp add: op1_def written_def Let_def)
  have c1: "w_clock w1 = w_clock w" "w_node w1 = w_node w" "w_crash w1 = w_crash w"
    using r1(2) by (simp_all add: wrote_row_def)
  let ?nd = "log_it (w_node w) g (Some wid) ''rejected:SIGERROR''"
  define w2 where "w2 = w1\<lparr>w_node := ?nd\<rparr>"
  have h2: "holds_row w2 op1" "w_clock w2 = w_clock w"
    using wrote_row_holds [OF r1(2)] c1 by (simp_all add: w2_def holds_row_def op1_def)
  let ?s3 = "[Set_failure_reason (Some (''node rejected: '' @ code_value SIGERROR))]"
  let ?d3 = "[(''txid'', PStr (st_txid g)), (''code'', PStr (code_value SIGERROR))]"
  obtain w3 where r3: "run sha (p_cas cfg op1 FAILED wid ?s3 ?d3) w2 = (Inr (?w FAILED ?s3 op1), w3)"
    "wrote_row w2 w3 (?w FAILED ?s3 op1)" "same_claim op1 (?w FAILED ?s3 op1)"
    "detail_txids ?d3 \<subseteq> history (w_store w3) (operation_id op1)"
    using run_p_cas [OF h2(1), of FAILED ?s3 sha cfg wid ?d3] op1 h2(2) by (auto simp: handler_sets)
  have "run sha (p_broadcast cfg op wid) w = (Inr (?w FAILED ?s3 op1), w3)"
    using op live calm r1(1) r3(1) c1 refusing_broadcast [OF node, of "w_clock w" wid]
    by (simp add: p_broadcast_def load_signed_def first_send_def run_pbind run_catch calm_def
        settle_broadcast_result_def code_sets HARD_REJECT_def Let_def w2_def flip: op1_def)
  moreover have "wrote_row (w\<lparr>w_node := ?nd\<rparr>) w3 (?w FAILED ?s3 op1)"
    using r1(2,3) r3(2,3) same_claim_id c1 by (simp add: wrote_row_def op1_def w2_def)
  moreover have "same_claim op (?w FAILED ?s3 op1)"
    using r1(3) r3(3) by (simp add: same_claim_def op1_def)
  moreover have "st_txid g \<in> history (w_store w3) (operation_id op)"
    using r3(4) same_claim_id [OF r1(3)] by (simp add: detail_txids_def op1_def)
  ultimately show thesis by (rule that) (simp add: written_def Let_def)
qed

lemma refused_drive:
  assumes op: "holds_row w op" "op_state op = REQUESTED" "payable sha cfg op"
    and node: "healthy (w_node w)" "ref_block (w_node w) = Inr ref" "py_str (amount_units op) = Inr units"
    and refuses: "\<And>u. verify sha (nd_signer (w_node w)) (sign sha sg u) = Inr False"
    and "0 < tx_ttl_seconds cfg" "calm (w_crash w)"
  obtains op' w' t nd where "run sha (drive sha cfg sg wid op) w = (Inr 1, w')" "wrote_row (w\<lparr>w_node := nd\<rparr>) w' op'"
    "same_claim op op'" "op_state op' = FAILED" "t \<in> history (w_store w') (operation_id op)"
proof -
  let ?g = "sign sha sg (unsigned_envelope sha cfg op units ref (w_clock w))"
  obtain op1 w1 op2 w2 where s2: "run sha (pipeline_step sha cfg sg op wid) w = (Inr op1, w1)" "op_state op1 = VALIDATED"
      "run sha (pipeline_step sha cfg sg op1 wid) w1 = (Inr op2, w2)" "wrote_row w w2 op2" "same_claim op op2"
      "op_state op2 = SIGNED" "signed_tx op2 = Some (to_json ?g)"
    by (rule run_to_signed [OF op node(2,3) _ refl]) (use assms(9) in \<open>simp add: calm_def\<close>)
  have c2: "w_clock w2 = w_clock w" "w_node w2 = w_node w" "w_crash w2 = w_crash w"
    using s2(4) by (simp_all add: wrote_row_def)
  have exp: "w_clock w < st_expiration ?g" using assms(8) by (simp add: unsigned_envelope_def Let_def sign_def)
  obtain op3 w3 nd where s3: "run sha (p_broadcast cfg op2 wid) w2 = (Inr op3, w3)" "wrote_row (w2\<lparr>w_node := nd\<rparr>) w3 op3"
      "same_claim op2 op3" "st_txid ?g \<in> history (w_store w3) (operation_id op2)" "op_state op3 = FAILED"
    by (rule run_p_broadcast_refused [OF wrote_row_holds [OF s2(4)] s2(6,7), where sha = sha and wid = wid and cfg = cfg])
      (use exp node(1) refuses c2 assms(9) in simp_all)
  have step3: "run sha (pipeline_step sha cfg sg op2 wid) w2 = (Inr op3, w3)"
    using s2(6) s3(1) by (simp add: pipeline_step_def)
  have "run sha (drive_loop sha cfg sg wid 8 op 0) w = (Inr Finished, w3)"
    using drive_loop_moves [OF s2(1), of 7] drive_loop_moves [OF s2(3), of 6] drive_loop_finishes [OF step3, of 5]
      op(2) s2(2,6) s3(5) by (simp add: TERMINAL_def eval_nat_numeral del: drive_loop.simps)
  then have "run sha (drive sha cfg sg wid op) w = (Inr 1, w3)"
    by (simp add: drive_def MAX_STEPS_PER_CLAIM_def run_pbind)
  moreover have "wrote_row (w\<lparr>w_node := nd\<rparr>) w3 op3"
    using s2(4,5) s3(2,3) same_claim_id by (simp add: wrote_row_def)
  moreover have "same_claim op op3" using s2(5) s3(3) by (simp add: same_claim_def)
  ultimately show thesis using s3(4,5) same_claim_id [OF s2(5)] by (intro that) simp_all
qed

text \<open>A node that knows another key only.\<close>

definition other_signer :: mock_signer where
  "other_signer = default_signer\<lparr>key_id := ''hotwallet-2''\<rparr>"

lemma other_refuses: "verify sha other_signer (sign sha default_signer u) = Inr False"
  by (simp add: verify_def sign_def other_signer_def default_signer_def)

lemma sample_refusal:
  obtains s r t where
    "(sys_step sample_sha default_config default_signer True)\<^sup>*\<^sup>* (initial_system 0 19 1 other_signer) s"
    "unshared (w_store (s_world s))" "get (w_store (s_world s)) 7 = Some r" "op_state r = FAILED"
    "PStr t \<in> all_txids (w_store (s_world s)) 7"
proof -
  let ?sys = "sys_step sample_sha default_config default_signer True"
  let ?w = "submitted 0 19 1 other_signer sample_request"
  obtain s1 where s1: "?sys (initial_system 0 19 1 other_signer) s1" "s_world s1 = ?w"
    using sample_submission [of other_signer] by blast
  obtain ms where ms: "only_row ms sample_claimed" "run sample_sha (run_once sample_sha default_config default_signer ''w'') ?w =
      run sample_sha (drive sample_sha default_config default_signer ''w'' sample_claimed) (?w\<lparr>w_store := ms\<rparr>)"
    "holds_row (?w\<lparr>w_store := ms\<rparr>) sample_claimed" "healthy (w_node ?w)" "ref_block (w_node ?w) = Inr (1000, block_hash 1000)"
    by (rule sample_pass [where w = ?w and c = "w_crash ?w" and nsg = other_signer]) simp_all
  let ?w3 = "?w\<lparr>w_store := ms\<rparr>"
  have h3: "healthy (w_node ?w3)" "ref_block (w_node ?w3) = Inr (1000, block_hash 1000)" "calm (w_crash ?w3)"
    using ms(4,5) by (simp_all add: submitted_world calm_def armed_count_def new_crash_switch_def)
  have ref: "verify sample_sha (nd_signer (w_node ?w3)) (sign sample_sha default_signer u) = Inr False" for u
    using other_refuses by (simp add: submitted_world new_node_def)
  have ttl: "0 < tx_ttl_seconds default_config" by (simp add: default_config_def seconds_def)
  obtain op' w' t nd where d: "run sample_sha (drive sample_sha default_config default_signer ''w'' sample_claimed) ?w3 = (Inr 1, w')"
      "wrote_row (?w3\<lparr>w_node := nd\<rparr>) w' op'" "same_claim sample_claimed op'" "op_state op' = FAILED"
      "t \<in> history (w_store w') (operation_id sample_claimed)"
    by (rule refused_drive [OF ms(3) sample_claimed_good(1,2) h3(1,2) sample_claimed_good(3) ref ttl h3(3), where wid = "''w''"])
  have row: "only_row (w_store w') op'"
    using only_row_wrote [OF _ d(2), of sample_claimed] ms(1) same_claim_id [OF d(3)] by simp
  obtain ts where "?sys\<^sup>*\<^sup>* s1 \<lparr> s_world = w', s_threads = ts \<rparr>"
    using run_once_is_path [OF sample_settings(4), of sample_sha default_signer "''w''" s1] ms(2) d(1) s1(2) by auto
  then have path: "?sys\<^sup>*\<^sup>* (initial_system 0 19 1 other_signer) \<lparr> s_world = w', s_threads = ts \<rparr>"
    using s1(1) by (meson sys_path_step)
  have "get (w_store w') 7 = Some op'"
    using row same_claim_id [OF d(3)] sample_claimed_good(4) by (simp add: only_row_def get_def)
  then show thesis using only_row_unshared [OF row] d(4,5) sample_claimed_good(4) by (intro that [OF path]) (simp_all add: history_def)
qed

end
