(* ===== verification/Ledger.thy ===== *)
theory Ledger
  imports Payments Refused_Run
begin

text \<open>
  The contract of the whole system, as a ledger: withdrawals are owed, each may be paid once with exactly
  what is owed, and each is closed once, as confirmed after it was paid or as dropped if it was not.  The
  ledger of a state lists every transfer that succeeded for an operation, so that a second one would show.
  The runs of workers, node and intake that meet the conditions of the safety theorems refine it.
\<close>

section \<open>The ledger\<close>

type_synonym payment = "string \<times> (exn + int)"

record ledger =
  owed :: "uuid \<rightharpoonup> payment"
  paid :: "uuid \<Rightarrow> payment list"
  closed :: "uuid \<rightharpoonup> bool"

definition new_ledger :: ledger where
  "new_ledger = \<lparr> owed = Map.empty, paid = (\<lambda>_. []), closed = Map.empty \<rparr>"

inductive ledger_step :: "ledger \<Rightarrow> ledger \<Rightarrow> bool" where
  admit: "owed L i = None \<Longrightarrow> ledger_step L (L\<lparr>owed := (owed L)(i \<mapsto> p)\<rparr>)"
| pay: "owed L i = Some p \<Longrightarrow> paid L i = [] \<Longrightarrow> closed L i = None \<Longrightarrow>
    ledger_step L (L\<lparr>paid := (paid L)(i := [p])\<rparr>)"
| confirm: "paid L i \<noteq> [] \<Longrightarrow> closed L i = None \<Longrightarrow> ledger_step L (L\<lparr>closed := (closed L)(i \<mapsto> True)\<rparr>)"
| drop_it: "owed L i \<noteq> None \<Longrightarrow> paid L i = [] \<Longrightarrow> closed L i = None \<Longrightarrow>
    ledger_step L (L\<lparr>closed := (closed L)(i \<mapsto> False)\<rparr>)"

text \<open>The books are in order: nothing is paid but what is owed, and that once.\<close>

definition entry_ok :: "payment option \<Rightarrow> payment list \<Rightarrow> bool option \<Rightarrow> bool" where
  "entry_ok ow pd cl \<longleftrightarrow> (pd = [] \<or> (\<exists>p. ow = Some p \<and> pd = [p])) \<and>
     (case cl of None \<Rightarrow> True | Some b \<Rightarrow> ow \<noteq> None \<and> (b \<longleftrightarrow> pd \<noteq> []))"

definition in_order :: "ledger \<Rightarrow> bool" where
  "in_order L \<longleftrightarrow> (\<forall>i. entry_ok (owed L i) (paid L i) (closed L i))"

definition extends :: "ledger \<Rightarrow> ledger \<Rightarrow> bool" where
  "extends L L' \<longleftrightarrow> owed L \<subseteq>\<^sub>m owed L' \<and> (\<forall>i. set (paid L i) \<subseteq> set (paid L' i)) \<and> closed L \<subseteq>\<^sub>m closed L'"

lemma in_order_step: "ledger_step L L' \<Longrightarrow> in_order L \<Longrightarrow> in_order L'"
  unfolding in_order_def
proof (induction rule: ledger_step.induct)
  case (admit L i p)
  then have "entry_ok None (paid L i) (closed L i)" by metis
  then have "paid L i = []" "closed L i = None" by (simp_all add: entry_ok_def split: option.splits)
  with admit show ?case by (simp add: entry_ok_def)
next
  case (pay L i p)
  then show ?case by (simp add: entry_ok_def)
next
  case (confirm L i)
  then have "entry_ok (owed L i) (paid L i) None" by metis
  with confirm show ?case by (auto simp: entry_ok_def)
next
  case (drop_it L i)
  then show ?case by (simp add: entry_ok_def)
qed

lemma in_order_paid: "in_order L \<Longrightarrow> p \<in> set (paid L i) \<Longrightarrow> owed L i = Some p \<and> paid L i = [p]"
  unfolding in_order_def entry_ok_def by (metis empty_iff empty_set set_ConsD)

lemma in_order_closed: "in_order L \<Longrightarrow> closed L i = Some b \<Longrightarrow> owed L i \<noteq> None \<and> (b \<longleftrightarrow> paid L i \<noteq> [])"
  unfolding in_order_def entry_ok_def by (erule allE [of _ i]) simp

text \<open>So the ledger pays nothing twice.\<close>

lemma in_order_once: "in_order L \<Longrightarrow> length (paid L i) \<le> 1"
  using in_order_paid [of L "hd (paid L i)" i] by (cases "paid L i") simp_all

lemma ledger_pays_once:
  assumes "ledger_step\<^sup>*\<^sup>* new_ledger L"
  shows "in_order L" "length (paid L i) \<le> 1"
proof -
  show "in_order L"
    using assms by induction (simp_all add: in_order_step, simp add: in_order_def entry_ok_def new_ledger_def)
  then show "length (paid L i) \<le> 1" by (rule in_order_once)
qed

text \<open>Books in order have one payment or none, as a map.\<close>

definition once :: "(uuid \<rightharpoonup> payment) \<Rightarrow> uuid \<Rightarrow> payment list" where
  "once m i = (case m i of None \<Rightarrow> [] | Some p \<Rightarrow> [p])"

definition settled :: "ledger \<Rightarrow> uuid \<rightharpoonup> payment" where
  "settled L i = (if paid L i = [] then None else owed L i)"

lemma once_upd: "once (m(i \<mapsto> p)) = (once m)(i := [p])"
  by (auto simp: once_def)

lemma settled_once:
  assumes "in_order L"
  shows "paid L = once (settled L)"
proof
  show "paid L i = once (settled L) i" for i
    using in_order_paid [OF assms, of "hd (paid L i)" i] by (cases "paid L i") (simp_all add: once_def settled_def)
qed

lemma settled_owed: "settled L \<subseteq>\<^sub>m owed L"
  by (auto simp: settled_def map_le_def split: if_splits)

lemma settled_extends:
  assumes "in_order L" "extends L L'"
  shows "settled L \<subseteq>\<^sub>m settled L'"
proof (unfold map_le_def, intro ballI)
  fix i assume i: "i \<in> dom (settled L)"
  then obtain p where p: "p \<in> set (paid L i)" by (cases "paid L i") (auto simp: settled_def)
  have "owed L' i = owed L i" using assms(2) in_order_paid [OF assms(1) p] unfolding extends_def map_le_def by (metis domI)
  moreover have "paid L' i \<noteq> []" "paid L i \<noteq> []" using assms(2) p unfolding extends_def by fastforce+
  ultimately show "settled L i = settled L' i" by (simp add: settled_def)
qed

text \<open>Steps of one kind, for all ids of a finite map.\<close>

lemma map_steps:
  assumes "finite (dom m')" "m \<subseteq>\<^sub>m m'"
    and "\<And>n i v. m \<subseteq>\<^sub>m n \<Longrightarrow> n \<subseteq>\<^sub>m m' \<Longrightarrow> n i = None \<Longrightarrow> m' i = Some v \<Longrightarrow> step\<^sup>*\<^sup>* (f n) (f (n(i \<mapsto> v)))"
  shows "step\<^sup>*\<^sup>* (f m) (f m')"
proof -
  have "finite (dom m' - dom m)" using assms(1) by simp
  then have "step\<^sup>*\<^sup>* (f m) (f m')" using assms(2,3)
  proof (induction "dom m' - dom m" arbitrary: m rule: finite_induct)
    case empty
    then have "m = m'" by (metis Diff_eq_empty_iff map_le_antisym map_le_def map_le_implies_dom_le subsetD)
    then show ?case by simp
  next
    case (insert i S)
    then obtain v where v: "m i = None" "m' i = Some v" by (metis DiffE domD domIff insertI1)
    let ?m = "m(i \<mapsto> v)"
    have le: "?m \<subseteq>\<^sub>m m'" "m \<subseteq>\<^sub>m ?m" using insert.prems(1) v by (auto simp: map_le_def)
    have "S = dom m' - dom ?m" using insert.hyps(2,4) by auto
    then have "step\<^sup>*\<^sup>* (f ?m) (f m')"
      using insert.hyps(3) [OF _ le(1)] insert.prems(2) le(2) map_le_trans by blast
    moreover have "step\<^sup>*\<^sup>* (f m) (f ?m)" using insert.prems v by simp
    ultimately show ?case by (rule rtranclp_trans [rotated])
  qed
  then show ?thesis .
qed

text \<open>Books in order that extend books in order are reached by steps of the ledger: first the new debts,
  then the payments, then what is closed.\<close>

lemma extends_steps:
  assumes "in_order L" "in_order L'" "extends L L'" "finite (dom (owed L'))"
  shows "ledger_step\<^sup>*\<^sup>* L L'"
proof -
  have le: "owed L \<subseteq>\<^sub>m owed L'" "settled L \<subseteq>\<^sub>m settled L'" "closed L \<subseteq>\<^sub>m closed L'"
    using assms settled_extends by (simp_all add: extends_def)
  have fin: "finite (dom (settled L'))" "finite (dom (closed L'))"
    using map_le_implies_dom_le [OF settled_owed] in_order_closed [OF assms(2)]
    by (auto intro!: finite_subset [OF _ assms(4)])
  note once = settled_once [OF assms(1)] settled_once [OF assms(2)]
  have "ledger_step\<^sup>*\<^sup>* (L\<lparr>owed := owed L\<rparr>) (L\<lparr>owed := owed L'\<rparr>)"
  proof (rule map_steps [OF assms(4) le(1)])
    fix n :: "uuid \<rightharpoonup> payment" and i p assume "n i = None"
    then show "ledger_step\<^sup>*\<^sup>* (L\<lparr>owed := n\<rparr>) (L\<lparr>owed := n(i \<mapsto> p)\<rparr>)"
      using admit [of "L\<lparr>owed := n\<rparr>" i p] by auto
  qed
  moreover have "ledger_step\<^sup>*\<^sup>* (L\<lparr>owed := owed L', paid := once (settled L)\<rparr>) (L\<lparr>owed := owed L', paid := once (settled L')\<rparr>)"
  proof (rule map_steps [OF fin(1) le(2)])
    fix n i p assume n: "settled L \<subseteq>\<^sub>m n" "n i = None" "settled L' i = Some p"
    have p: "owed L' i = Some p" "paid L' i \<noteq> []" using n(3) by (auto simp: settled_def split: if_splits)
    have "settled L i = None" using n(1,2) unfolding map_le_def by (metis domIff)
    then have "paid L i = []" using once(1) by (simp add: once_def)
    then have "closed L i = None"
      using in_order_closed [OF assms(1), of i] in_order_closed [OF assms(2), of i] p(2) le(3)
      by (cases "closed L i") (force simp: map_le_def dom_def)+
    then show "ledger_step\<^sup>*\<^sup>* (L\<lparr>owed := owed L', paid := once n\<rparr>) (L\<lparr>owed := owed L', paid := once (n(i \<mapsto> p))\<rparr>)"
      using pay [of "L\<lparr>owed := owed L', paid := once n\<rparr>" i p] n(2) p(1) by (auto simp: once_upd) (simp add: once_def)
  qed
  moreover have "ledger_step\<^sup>*\<^sup>* (L'\<lparr>closed := closed L\<rparr>) (L'\<lparr>closed := closed L'\<rparr>)"
  proof (rule map_steps [OF fin(2) le(3)])
    fix n :: "uuid \<rightharpoonup> bool" and i b assume n: "n i = None" "closed L' i = Some b"
    show "ledger_step\<^sup>*\<^sup>* (L'\<lparr>closed := n\<rparr>) (L'\<lparr>closed := n(i \<mapsto> b)\<rparr>)"
      using confirm [of "L'\<lparr>closed := n\<rparr>" i] drop_it [of "L'\<lparr>closed := n\<rparr>" i] in_order_closed [OF assms(2) n(2)] n(1)
      by (cases b) (simp_all add: r_into_rtranclp)
  qed
  moreover have "L\<lparr>owed := owed L', paid := paid L'\<rparr> = L'\<lparr>closed := closed L\<rparr>" by (cases L; cases L') simp
  moreover have "L\<lparr>owed := owed L', paid := once (settled L)\<rparr> = L\<lparr>owed := owed L'\<rparr>" by (simp flip: once(1))
  ultimately show ?thesis by (simp flip: once(2))
qed

section \<open>The ledger of a state\<close>

definition payment_of :: "operation \<Rightarrow> payment" where
  "payment_of r = (to_address r, Inr (amount_units r))"

text \<open>The transfers of an operation on the chain: all records, in the order of the node, that succeeded under a
  txid written for it.\<close>

definition settlements :: "world \<Rightarrow> uuid \<Rightarrow> (string \<times> tx_record) list" where
  "settlements w i = filter (\<lambda>(t, q). rec_included_block q \<noteq> None \<and> receipt q = Some ''SUCCESS'' \<and>
     PStr t \<in> all_txids (w_store w) i) (nd_txs (w_node w))"

definition closing :: "op_state \<Rightarrow> bool option" where
  "closing st = (if st = CONFIRMED then Some True else if st \<in> {FAILED, REJECTED} then Some False else None)"

definition ledger_of :: "world \<Rightarrow> ledger" where
  "ledger_of w =
     \<lparr> owed = (\<lambda>i. map_option payment_of (get (w_store w) i)),
       paid = (\<lambda>i. map (\<lambda>(t, q). (c_to (rd_contract (st_raw_data (rec_tx q))), tx_amount (w_node w) t)) (settlements w i)),
       closed = (\<lambda>i. Option.bind (get (w_store w) i) (\<lambda>r. closing (op_state r))) \<rparr>"

lemma settlements_mem:
  assumes "node_wf (w_node w)" "(t, q) \<in> set (settlements w i)"
  shows "dict_get (nd_txs (w_node w)) t = Some q" "t \<in> successful_txids (w_node w)" "t \<in> history (w_store w) i"
proof -
  have P: "(t, q) \<in> set (nd_txs (w_node w))" "rec_included_block q \<noteq> None" "receipt q = Some ''SUCCESS''"
      "PStr t \<in> all_txids (w_store w) i"
    using assms(2) by (simp_all add: settlements_def)
  moreover have "distinct (map fst (nd_txs (w_node w)))" using assms(1) by (simp add: node_wf_def)
  ultimately show "dict_get (nd_txs (w_node w)) t = Some q" by simp
  then show "t \<in> successful_txids (w_node w)" "t \<in> history (w_store w) i"
    using P assms(1) by (simp_all add: successful_iff history_def)
qed

lemma settlements_none:
  assumes "node_wf (w_node w)" "settlements w i = []" "t \<in> history (w_store w) i"
  shows "t \<notin> successful_txids (w_node w)"
  using assms by (force simp: settlements_def filter_empty_conv successful_txids_def history_def)

text \<open>Where at most one txid of an operation landed, there is at most one transfer.\<close>

lemma settlements_single:
  assumes "node_wf (w_node w)" "landed_ok w" "(t, q) \<in> set (settlements w i)"
  shows "settlements w i = [(t, q)]"
proof -
  have inc: "x \<in> included_txids (w_node w)" if "x \<in> successful_txids (w_node w)" for x
    using that by (auto simp: successful_txids_def included_txids_def)
  have "y = (t, q)" if "y \<in> set (settlements w i)" for y
  proof -
    obtain t' q' where y: "y = (t', q')" by (cases y)
    note m = settlements_mem [OF assms(1,3)] settlements_mem [OF assms(1) that [unfolded y]]
    have "t' = t" using assms(2) inc m carries_unique unfolding landed_ok_def by metis
    then show ?thesis using y m(1,4) by simp
  qed
  moreover have "distinct (settlements w i)"
    using assms(1) by (simp add: settlements_def node_wf_def distinct_map)
  ultimately show ?thesis using distinct_single [of "settlements w i" "(t, q)"] assms(3) by blast
qed

section \<open>The books of every run\<close>

lemma finite_owed: "finite (dom (owed (ledger_of w)))"
proof -
  have "dom (owed (ledger_of w)) = dom (get (w_store w))" by (auto simp: ledger_of_def)
  then show ?thesis unfolding get_def [abs_def] using finite_dom_map_of [of "ms_ops (w_store w)"] by simp
qed

lemma settled_is_owed:
  assumes "(sys_step sha cfg sg strict)\<^sup>*\<^sup>* (initial_system clk lag delay nsg) s" "unshared (w_store (s_world s))"
    "(t, q) \<in> set (settlements (s_world s) i)"
  shows "\<exists>r. get (w_store (s_world s)) i = Some r \<and> admissible sha cfg (asked_of r) \<and> transfers cfg (asked_of r) (rec_tx q)"
proof -
  note t = settlements_mem [OF conjunct1 [OF conjunct2 [OF wf_reachable [OF assms(1)]]] assms(3)]
  obtain j r where j: "get (w_store (s_world s)) j = Some r" "t \<in> history (w_store (s_world s)) j"
      "admissible sha cfg (asked_of r)" "transfers cfg (asked_of r) (rec_tx q)"
    using held_is_asked [OF assms(1) t(1)] by blast
  then have "j = i" using assms(2) t(3) unfolding unshared_def by blast
  then show ?thesis using j by blast
qed

lemma closed_unpaid:
  assumes run: "(sys_step sha cfg sg True)\<^sup>*\<^sup>* (initial_system clk lag delay nsg) s" and uns: "unshared (w_store (s_world s))"
    and key: "key_id sg = key_id nsg \<longrightarrow> secret sg = secret nsg"
    and r: "get (w_store (s_world s)) i = Some r" "op_state r \<in> {FAILED, REJECTED}" "t \<in> history (w_store (s_world s)) i"
  shows "t \<notin> successful_txids (w_node (s_world s))"
proof
  let ?nd = "w_node (s_world s)" and ?ms = "w_store (s_world s)"
  assume t: "t \<in> successful_txids ?nd"
  have wf: "node_wf ?nd" "landed_ok (s_world s)"
    using sys_inv_reachable [OF run uns] by (simp_all add: sys_inv_def world_inv_def)
  obtain q where q: "dict_get (nd_txs ?nd) t = Some q" using t wf(1) by (auto simp: successful_iff)
  have car: "\<exists>g. carries ?ms i g \<and> st_txid g = x" if "x \<in> history ?ms i" "x \<in> included_txids ?nd" for x
    using wf(2) that unfolding landed_ok_def by blast
  have "t \<in> included_txids ?nd" using t by (auto simp: successful_txids_def included_txids_def)
  then obtain g where g: "carries ?ms i g" "st_txid g = t" using car r(3) by blast
  then have f: "op_state r = FAILED" "signed_tx r \<noteq> None" using r by (auto simp: carries_def sent_states_def)
  have "trusted sg nsg"
    using held_is_asked [OF run q] untrusted_key key by metis
  then obtain x where x: "x \<in> history ?ms i" "x \<in> reverted ?nd"
    using failed_row [OF run r(1) f(1)] f(2) by blast
  then obtain g' where "carries ?ms i g'" "st_txid g' = x" using car unfolding reverted_def by blast
  then have "x = t" using carries_unique g by blast
  then show False using x(2) t by (simp add: reverted_def)
qed

lemma in_order_reachable:
  assumes run: "(sys_step sha cfg sg True)\<^sup>*\<^sup>* (initial_system clk lag delay nsg) s" and uns: "unshared (w_store (s_world s))"
    and key: "key_id sg = key_id nsg \<longrightarrow> secret sg = secret nsg"
  shows "in_order (ledger_of (s_world s))"
proof -
  let ?w = "s_world s"
  have inv: "world_inv ?w" using sys_inv_reachable [OF run uns] by (simp add: sys_inv_def)
  then have wf: "node_wf (w_node ?w)" "landed_ok ?w" by (simp_all add: world_inv_def)
  have "\<exists>p. owed (ledger_of ?w) i = Some p \<and> paid (ledger_of ?w) i = [p]" if p: "settlements ?w i \<noteq> []" for i
  proof -
    obtain t q where q: "(t, q) \<in> set (settlements ?w i)" using p by (cases "settlements ?w i") auto
    then show ?thesis
      using settled_is_owed [OF run uns q] transfers_amount [OF settlements_mem(1) [OF wf(1) q]] settlements_single [OF wf q]
      by (auto simp: ledger_of_def payment_of_def)
  qed
  then have p: "paid (ledger_of ?w) i = [] \<or> (\<exists>p. owed (ledger_of ?w) i = Some p \<and> paid (ledger_of ?w) i = [p])" for i
    by (cases "settlements ?w i = []") (simp_all add: ledger_of_def)
  have t: "owed (ledger_of ?w) i \<noteq> None \<and> paid (ledger_of ?w) i \<noteq> []" if c: "closed (ledger_of ?w) i = Some True" for i
  proof -
    obtain r where r: "get (w_store ?w) i = Some r" "op_state r = CONFIRMED"
      using c by (auto simp: ledger_of_def closing_def bind_eq_Some_conv split: if_splits)
    then obtain g where g: "signed_tx r = Some (to_json g)" "st_txid g \<in> successful_txids (w_node ?w)"
      using inv unfolding world_inv_def confirmed_ok_def by blast
    have "carries (w_store ?w) i g" using r g(1) by (simp add: carries_def sent_states_def)
    then have "st_txid g \<in> history (w_store ?w) i" using carries_history inv by (simp add: world_inv_def)
    then have "settlements ?w i \<noteq> []" using settlements_none [OF wf(1)] g(2) by blast
    then show ?thesis using r(1) by (simp add: ledger_of_def)
  qed
  have f: "owed (ledger_of ?w) i \<noteq> None \<and> paid (ledger_of ?w) i = []" if c: "closed (ledger_of ?w) i = Some False" for i
  proof -
    obtain r where r: "get (w_store ?w) i = Some r" "op_state r \<in> {FAILED, REJECTED}"
      using c by (auto simp: ledger_of_def closing_def bind_eq_Some_conv split: if_splits)
    have "settlements ?w i = []"
      using closed_unpaid [OF run uns key r] settlements_mem(2,3) [OF wf(1), of _ _ i]
      by (cases "settlements ?w i") fastforce+
    then show ?thesis using r(1) by (simp add: ledger_of_def)
  qed
  show ?thesis unfolding in_order_def entry_ok_def
    using p t f by (auto split: option.split) (metis (full_types))+
qed

lemma extends_run:
  assumes run: "(sys_step sha cfg sg True)\<^sup>*\<^sup>* (initial_system clk lag delay nsg) s" "(sys_step sha cfg sg True)\<^sup>*\<^sup>* s s'"
    and ord: "in_order (ledger_of (s_world s))" "in_order (ledger_of (s_world s'))"
  shows "extends (ledger_of (s_world s)) (ledger_of (s_world s'))"
proof -
  let ?w = "s_world s" and ?w' = "s_world s'"
  have g: "grows ?w ?w'" using grows_run [OF run] .
  have row: "\<exists>r'. get (w_store ?w') i = Some r' \<and> row_stays r r'" if "get (w_store ?w) i = Some r" for i r
    using g that unfolding grows_def rows_stay_def by blast
  have wf: "node_wf (w_node ?w)" "node_wf (w_node ?w')" using g by (simp_all add: grows_def node_stays_def)
  have owed: "owed (ledger_of ?w) \<subseteq>\<^sub>m owed (ledger_of ?w')"
    using row by (fastforce simp: ledger_of_def map_le_def dom_def row_stays_def payment_of_def intake_part_def)
  have kept: "paid (ledger_of ?w') i \<noteq> []" if p: "p \<in> set (paid (ledger_of ?w) i)" for i p
  proof -
    obtain t q where "(t, q) \<in> set (settlements ?w i)" using p by (auto simp: ledger_of_def)
    note t = settlements_mem [OF wf(1) this]
    have "dict_get (nd_txs (w_node ?w')) t = Some q" "t \<in> history (w_store ?w') i"
      using t g wf(1) unfolding grows_def node_stays_def by (auto simp: successful_iff)
    then have "t \<in> successful_txids (w_node ?w')" using t(1,2) wf by (auto simp: successful_iff)
    then show ?thesis using settlements_none [OF wf(2)] \<open>t \<in> history (w_store ?w') i\<close> by (force simp: ledger_of_def)
  qed
  have "p \<in> set (paid (ledger_of ?w') i)" if p: "p \<in> set (paid (ledger_of ?w) i)" for i p
  proof -
    have "owed (ledger_of ?w') i = Some p"
      using in_order_paid [OF ord(1) p] owed unfolding map_le_def by (metis domI)
    then show ?thesis using kept [OF p] in_order_paid [OF ord(2), of _ i] by (cases "paid (ledger_of ?w') i") auto
  qed
  moreover have "closed (ledger_of ?w') i = Some b" if "closed (ledger_of ?w) i = Some b" for i b
    using that row [of i] by (cases "get (w_store ?w) i") (auto simp: ledger_of_def closing_def row_stays_def split: if_splits)
  ultimately show ?thesis using owed by (auto simp: extends_def map_le_def dom_def)
qed

section \<open>Who was paid\<close>

definition paid_operations :: "world \<Rightarrow> uuid set" where
  "paid_operations w = set (filter (\<lambda>i. settlements w i \<noteq> []) (map fst (ms_ops (w_store w))))"

lemma paid_operations_iff:
  assumes "node_wf (w_node w)"
  shows "i \<in> paid_operations w \<longleftrightarrow> get (w_store w) i \<noteq> None \<and>
    (\<exists>t \<in> successful_txids (w_node w). t \<in> history (w_store w) i)"
proof -
  have "i \<in> fst ` set (ms_ops (w_store w)) \<longleftrightarrow> get (w_store w) i \<noteq> None"
    by (simp add: get_def map_of_eq_None_iff)
  moreover have "settlements w i \<noteq> [] \<longleftrightarrow> (\<exists>t \<in> successful_txids (w_node w). t \<in> history (w_store w) i)"
    using settlements_mem(2,3) [OF assms, of _ _ i] settlements_none [OF assms, of i]
    by (cases "settlements w i") fastforce+
  ultimately show ?thesis by (auto simp: paid_operations_def)
qed

lemma paid_operations_ledger: "i \<in> paid_operations w \<longleftrightarrow> get (w_store w) i \<noteq> None \<and> paid (ledger_of w) i \<noteq> []"
  by (auto simp: paid_operations_def ledger_of_def get_def map_of_eq_None_iff)

text \<open>The transfers that succeeded correspond to the operations that were paid.\<close>

lemma payments_match:
  assumes run: "(sys_step sha cfg sg True)\<^sup>*\<^sup>* (initial_system clk lag delay nsg) s" and uns: "unshared (w_store (s_world s))"
  shows "bij_betw (\<lambda>i. fst (hd (settlements (s_world s) i))) (paid_operations (s_world s)) (successful_txids (w_node (s_world s)))"
  unfolding bij_betw_def
proof
  let ?w = "s_world s" and ?f = "\<lambda>i. fst (hd (settlements (s_world s) i))"
  have wf: "node_wf (w_node ?w)" "landed_ok ?w"
    using sys_inv_reachable [OF run uns] by (simp_all add: sys_inv_def world_inv_def)
  have f: "?f i \<in> successful_txids (w_node ?w) \<and> ?f i \<in> history (w_store ?w) i" if "i \<in> paid_operations ?w" for i
    using that settlements_mem(2,3) [OF wf(1), of "fst (hd (settlements ?w i))" "snd (hd (settlements ?w i))" i]
    by (simp add: paid_operations_def)
  show "inj_on ?f (paid_operations ?w)"
    using f uns unfolding unshared_def inj_on_def by metis
  have "\<exists>i \<in> paid_operations ?w. t = ?f i" if t: "t \<in> successful_txids (w_node ?w)" for t
  proof -
    obtain q where q: "dict_get (nd_txs (w_node ?w)) t = Some q" using t wf(1) by (auto simp: successful_iff)
    obtain i r where i: "get (w_store ?w) i = Some r" "t \<in> history (w_store ?w) i" using held_is_asked [OF run q] by blast
    then have p: "i \<in> paid_operations ?w" using t wf(1) by (auto simp: paid_operations_iff)
    have inc: "x \<in> included_txids (w_node ?w)" if "x \<in> successful_txids (w_node ?w)" for x
      using that by (auto simp: successful_txids_def included_txids_def)
    have "t = ?f i"
      using wf(2) i(2) f [OF p] inc t carries_unique unfolding landed_ok_def by metis
    then show ?thesis using p by blast
  qed
  then show "?f ` paid_operations ?w = successful_txids (w_node ?w)" using f by blast
qed

lemma paid_amount:
  assumes run: "(sys_step sha cfg sg True)\<^sup>*\<^sup>* (initial_system clk lag delay nsg) s" and uns: "unshared (w_store (s_world s))"
    and i: "i \<in> paid_operations (s_world s)"
  shows "\<exists>r. get (w_store (s_world s)) i = Some r \<and>
    tx_amount (w_node (s_world s)) (fst (hd (settlements (s_world s) i))) = Inr (amount_units r)"
proof -
  have wf: "node_wf (w_node (s_world s))" using wf_reachable [OF run] by simp
  obtain t q where q: "hd (settlements (s_world s) i) = (t, q)" "(t, q) \<in> set (settlements (s_world s) i)"
    using i hd_in_set [of "settlements (s_world s) i"]
    by (cases "hd (settlements (s_world s) i)") (auto simp: paid_operations_def)
  then show ?thesis
    using settled_is_owed [OF run uns q(2)] transfers_amount [OF settlements_mem(1) [OF wf q(2)]] by fastforce
qed

section \<open>Properties\<close>

text \<open>
  C6. What is on the chain is what was asked for: in every reachable state, whatever the timing, a transaction
  the node holds or has included carries a txid written for an operation on record, passed the checks of the
  pipeline, and transfers exactly the amount of that operation to its destination through the configured
  contract, under the signature of the wallet.
\<close>

theorem chain_pays_as_asked:
  assumes "(sys_step sha cfg sg strict)\<^sup>*\<^sup>* (initial_system clk lag delay nsg) s"
    and "dict_get (nd_txs (w_node (s_world s))) t = Some q"
  shows "\<exists>i r. get (w_store (s_world s)) i = Some r \<and> PStr t \<in> all_txids (w_store (s_world s)) i \<and>
    is_valid sha (to_address r) \<and> asset r = cfg_asset cfg \<and>
    min_amount_units cfg \<le> amount_units r \<and> amount_units r \<le> max_amount_units cfg \<and>
    (let c = rd_contract (st_raw_data (rec_tx q)) in
      c_type c = ''TriggerSmartContract'' \<and> contract_address c = usdt_contract cfg \<and>
      c_call c = ''transfer(address,uint256)'' \<and> c_to c = to_address r) \<and>
    tx_amount (w_node (s_world s)) t = Inr (amount_units r) \<and>
    st_signature (rec_tx q) = key_id sg @ '':'' @ hmac_hex sha sg t"
proof -
  have "record_wf (w_node (s_world s)) t q" using node_wf_get [OF _ assms(2)] wf_reachable [OF assms(1)] by blast
  then have t: "st_txid (rec_tx q) = t" by (simp add: record_wf_def)
  obtain i r where r: "get (w_store (s_world s)) i = Some r" "t \<in> history (w_store (s_world s)) i"
      "admissible sha cfg (asked_of r)" "transfers cfg (asked_of r) (rec_tx q)" "authentic sha sg (rec_tx q)"
    using held_is_asked [OF assms] by blast
  then show ?thesis
    using t transfers_amount [OF assms(2) r(4)] by (auto simp: asked_of_def authentic_def history_def Let_def)
qed

theorem chain_pays_as_asked_witness:
  "\<exists>s t q. (sys_step sample_sha default_config default_signer True)\<^sup>*\<^sup>* (initial_system 0 19 1 default_signer) s \<and>
     dict_get (nd_txs (w_node (s_world s))) t = Some q \<and>
     st_signature (rec_tx q) = ''hotwallet-1:'' @ hmac_hex sample_sha default_signer t"
proof (rule sample_run)
  fix s r t
  assume s: "(sys_step sample_sha default_config default_signer True)\<^sup>*\<^sup>* (initial_system 0 19 1 default_signer) s"
    and t: "t \<in> included_txids (w_node (s_world s))"
  obtain q where q: "dict_get (nd_txs (w_node (s_world s))) t = Some q"
    using t wf_reachable [OF s] by (auto simp: included_iff)
  show ?thesis using chain_pays_as_asked [OF s q] s q by (auto simp: default_signer_def)
qed

text \<open>
  C5. Failed means not paid: no txid ever written for an operation in state \<open>failed\<close> or \<open>rejected\<close> has
  succeeded on the chain, so closing it is safe.  The conditions are that the run meets the timing condition of
  the no-double-spend theorem, that no two operations share a txid, and that the node knows no other secret
  under the key id of the wallet.
\<close>

theorem failed_is_not_paid:
  assumes "(sys_step sha cfg sg True)\<^sup>*\<^sup>* (initial_system clk lag delay nsg) s"
    and "unshared (w_store (s_world s))"
    and "key_id sg = key_id nsg \<longrightarrow> secret sg = secret nsg"
    and "get (w_store (s_world s)) i = Some r" "op_state r \<in> {FAILED, REJECTED}"
    and "PStr t \<in> all_txids (w_store (s_world s)) i"
  shows "t \<notin> successful_txids (w_node (s_world s))"
  using closed_unpaid [OF assms(1-5)] assms(6) by (simp add: history_def)

theorem failed_is_not_paid_witness:
  "\<exists>s r t. (sys_step sample_sha default_config default_signer True)\<^sup>*\<^sup>* (initial_system 0 19 1 other_signer) s \<and>
     get (w_store (s_world s)) 7 = Some r \<and> op_state r = FAILED \<and>
     PStr t \<in> all_txids (w_store (s_world s)) 7 \<and> t \<notin> successful_txids (w_node (s_world s))"
proof (rule sample_refusal)
  fix s r t
  assume s: "(sys_step sample_sha default_config default_signer True)\<^sup>*\<^sup>* (initial_system 0 19 1 other_signer) s"
    "unshared (w_store (s_world s))" "get (w_store (s_world s)) 7 = Some r" "op_state r = FAILED"
    and t: "PStr t \<in> all_txids (w_store (s_world s)) 7"
  have key: "key_id default_signer = key_id other_signer \<longrightarrow> secret default_signer = secret other_signer"
    by (simp add: other_signer_def)
  show ?thesis using failed_is_not_paid [OF s(1,2) key s(3) _ t] s t by auto
qed

text \<open>
  C3. The system implements the ledger.  On the three conditions that the run meets the timing condition of the
  no-double-spend theorem, that no two operations share a txid, and that the node knows no other secret under
  the key id of the wallet: from the start to any state and from any state to a later one, what the store and
  the chain show moves by steps of the ledger, where the ledger of a state lists every transfer that succeeded
  under a txid of the operation.  So each withdrawal has at most one such transfer, with exactly the
  amount and to the destination it was filed with, is confirmed only after it was paid, is dropped only if it was
  not, and is paid no more once it is closed.
\<close>

theorem fleet_refines_ledger:
  assumes "(sys_step sha cfg sg True)\<^sup>*\<^sup>* (initial_system clk lag delay nsg) s"
    and "(sys_step sha cfg sg True)\<^sup>*\<^sup>* s s'" "unshared (w_store (s_world s'))"
    and "key_id sg = key_id nsg \<longrightarrow> secret sg = secret nsg"
  shows "ledger_of (s_world (initial_system clk lag delay nsg)) = new_ledger \<and>
    ledger_step\<^sup>*\<^sup>* (ledger_of (s_world s)) (ledger_of (s_world s')) \<and>
    (\<forall>i. length (settlements (s_world s') i) \<le> 1)"
proof (intro conjI allI)
  show "ledger_of (s_world (initial_system clk lag delay nsg)) = new_ledger"
    by (simp add: ledger_of_def new_ledger_def initial_system_def settlements_def get_def new_store_def new_node_def)
  have g: "grows (s_world s) (s_world s')" using grows_run [OF assms(1,2)] .
  have uns: "unshared (w_store (s_world s))" using unshared_back assms(3) g unfolding grows_def by blast
  have run': "(sys_step sha cfg sg True)\<^sup>*\<^sup>* (initial_system clk lag delay nsg) s'"
    using assms(1,2) by (rule rtranclp_trans)
  note ord = in_order_reachable [OF assms(1) uns assms(4)] in_order_reachable [OF run' assms(3,4)]
  show "ledger_step\<^sup>*\<^sup>* (ledger_of (s_world s)) (ledger_of (s_world s'))"
    using extends_steps [OF ord extends_run [OF assms(1,2) ord] finite_owed] .
  show "length (settlements (s_world s') i) \<le> 1" for i
    using in_order_once [OF ord(2), of i] by (simp add: ledger_of_def)
qed

theorem fleet_refines_ledger_witness:
  "\<exists>s. (sys_step sample_sha default_config default_signer True)\<^sup>*\<^sup>* (initial_system 0 19 1 default_signer) s \<and>
     ledger_step\<^sup>*\<^sup>* new_ledger (ledger_of (s_world s)) \<and> closed (ledger_of (s_world s)) 7 = Some True \<and>
     length (paid (ledger_of (s_world s)) 7) = 1"
proof (rule sample_run)
  fix s r
  assume s: "(sys_step sample_sha default_config default_signer True)\<^sup>*\<^sup>* (initial_system 0 19 1 default_signer) s"
    "unshared (w_store (s_world s))" and r: "get (w_store (s_world s)) 7 = Some r" "op_state r = CONFIRMED"
  have "ledger_step\<^sup>*\<^sup>* new_ledger (ledger_of (s_world s))"
    using fleet_refines_ledger [OF rtranclp.rtrancl_refl s] by metis
  moreover have "closed (ledger_of (s_world s)) 7 = Some True" using r by (simp add: ledger_of_def closing_def)
  moreover from calculation have "length (paid (ledger_of (s_world s)) 7) = 1"
    using in_order_closed [of "ledger_of (s_world s)" 7 True] ledger_pays_once(1) [of "ledger_of (s_world s)"]
      in_order_once [of "ledger_of (s_world s)" 7]
    by (cases "paid (ledger_of (s_world s)) 7") auto
  ultimately show ?thesis using s(1) by blast
qed

text \<open>
  C10. The books balance.  On the three conditions of the ledger theorem (timing, no shared txids, no other secret
  under the key id of the wallet) the amounts of all transfers that succeeded on the chain add up to the amounts
  of the operations that were paid, each counted once; every confirmed operation is among these and no failed or
  rejected one is.
\<close>

theorem books_balance:
  assumes "(sys_step sha cfg sg True)\<^sup>*\<^sup>* (initial_system clk lag delay nsg) s"
    and "unshared (w_store (s_world s))"
    and "key_id sg = key_id nsg \<longrightarrow> secret sg = secret nsg"
  shows "(\<Sum>t \<in> successful_txids (w_node (s_world s)). projr (tx_amount (w_node (s_world s)) t)) =
      (\<Sum>i \<in> paid_operations (s_world s). amount_units (the (get (w_store (s_world s)) i))) \<and>
    (\<forall>i r. get (w_store (s_world s)) i = Some r \<longrightarrow>
      (op_state r = CONFIRMED \<longrightarrow> i \<in> paid_operations (s_world s)) \<and>
      (op_state r \<in> {FAILED, REJECTED} \<longrightarrow> i \<notin> paid_operations (s_world s)))"
proof -
  let ?w = "s_world s"
  have "(\<Sum>t \<in> successful_txids (w_node ?w). projr (tx_amount (w_node ?w) t)) =
      (\<Sum>i \<in> paid_operations ?w. projr (tx_amount (w_node ?w) (fst (hd (settlements ?w i)))))"
    using sum.reindex_bij_betw [OF payments_match [OF assms(1,2)]] by (rule sym)
  also have "\<dots> = (\<Sum>i \<in> paid_operations ?w. amount_units (the (get (w_store ?w) i)))"
    using paid_amount [OF assms(1,2)] by (intro sum.cong) fastforce+
  finally have bal: "(\<Sum>t \<in> successful_txids (w_node ?w). projr (tx_amount (w_node ?w) t)) =
      (\<Sum>i \<in> paid_operations ?w. amount_units (the (get (w_store ?w) i)))" .
  have "(op_state r = CONFIRMED \<longrightarrow> i \<in> paid_operations ?w) \<and> (op_state r \<in> {FAILED, REJECTED} \<longrightarrow> i \<notin> paid_operations ?w)"
    if r: "get (w_store ?w) i = Some r" for i r
  proof -
    have "closing (op_state r) = Some b \<Longrightarrow> b \<longleftrightarrow> i \<in> paid_operations ?w" for b
      using in_order_closed [OF in_order_reachable [OF assms], of i b] r
      by (simp add: paid_operations_ledger) (simp add: ledger_of_def)
    from this [of True] this [of False] show ?thesis by (auto simp: closing_def)
  qed
  then show ?thesis using bal by blast
qed

theorem books_balance_witness:
  "\<exists>s. (sys_step sample_sha default_config default_signer True)\<^sup>*\<^sup>* (initial_system 0 19 1 default_signer) s \<and>
     7 \<in> paid_operations (s_world s) \<and>
     (\<Sum>t \<in> successful_txids (w_node (s_world s)). projr (tx_amount (w_node (s_world s)) t)) =
       (\<Sum>i \<in> paid_operations (s_world s). amount_units (the (get (w_store (s_world s)) i)))"
proof (rule sample_run)
  fix s r
  assume s: "(sys_step sample_sha default_config default_signer True)\<^sup>*\<^sup>* (initial_system 0 19 1 default_signer) s"
    "unshared (w_store (s_world s))" and r: "get (w_store (s_world s)) 7 = Some r" "op_state r = CONFIRMED"
  show ?thesis using books_balance [OF s] s(1) r by blast
qed

end
