(* ===== verification/Api.thy ===== *)
theory Api
  imports Service
begin

text \<open>
  \<open>sluice/api.py\<close>: the HTTP handlers over the memory store the module runs with.  \<open>Flask\<close> is not
  modelled: a handler is a function of what \<open>request.get_json(silent=True)\<close> returned (\<open>None\<close> for a
  body that is not JSON; a JSON \<open>null\<close> is the same Python value) or of the path segment, and returns
  the status, the body and whether the replay header is set.  An exception that no handler catches is
  \<open>Inl\<close> and becomes the framework's 500.
\<close>

section \<open>Definitions\<close>

datatype body =
    Error_Body string "string option" reason
  | View_Body "(string, pyval) dict"
  | Ok_Body

record response =
  status_code :: int
  resp_body :: body
  replay_header :: bool

definition reply :: "int \<Rightarrow> body \<Rightarrow> exn + response" where
  "reply code b = Inr \<lparr> status_code = code, resp_body = b, replay_header = False \<rparr>"

definition mismatch_text :: "uuid \<Rightarrow> string" where
  "mismatch_text u = ''operation '' @ uuid_str u @ '' already exists with a different payload''"

definition api_submit :: "(bytes \<Rightarrow> bytes) \<Rightarrow> config \<Rightarrow> time \<Rightarrow> time \<Rightarrow> mstore \<Rightarrow> json option \<Rightarrow>
    (exn + response) \<times> mstore" where
  "api_submit sha cfg now at s got =
     (case got of
        None \<Rightarrow> (reply 400 (Error_Body ''bad_json'' None (Reason ''body must be JSON'')), s)
      | Some payload \<Rightarrow>
          if payload = JNull
          then (reply 400 (Error_Body ''bad_json'' None (Reason ''body must be JSON'')), s)
          else
            (case mem_submit sha cfg now at s payload of
               (Inl (ValidationError field msg), s') \<Rightarrow>
                 (reply 422 (Error_Body ''invalid'' (Some field) msg), s')
             | (Inl (PayloadMismatch u), s') \<Rightarrow>
                 (reply 409 (Error_Body ''payload_mismatch'' None (Reason (mismatch_text u))), s')
             | (Inl e, s') \<Rightarrow> (Inl e, s')
             | (Inr res, s') \<Rightarrow>
                 if sr_created res then (reply 201 (View_Body (public_view (sr_operation res))), s')
                 else (Inr \<lparr> status_code = 200, resp_body = View_Body (public_view (sr_operation res)),
                             replay_header = True \<rparr>, s')))"

definition api_status :: "mstore \<Rightarrow> string \<Rightarrow> exn + response" where
  "api_status s op_id =
     (case UUID op_id of
        Inl e \<Rightarrow>
          if e = ValueError
          then reply 422 (Error_Body ''invalid'' None (Reason ''operation_id must be a UUID''))
          else Inl e
      | Inr u \<Rightarrow>
          (case get s u of
             None \<Rightarrow> reply 404 (Error_Body ''not_found'' None (Reason ''unknown operation''))
           | Some op \<Rightarrow> reply 200 (View_Body (public_view op))))"

definition healthz :: "exn + response" where
  "healthz = reply 200 Ok_Body"

section \<open>Lemmas\<close>

text \<open>The exceptions the checks can raise: the validation errors and, for an amount whose digits
  exceed the interpreter's limit, a plain \<open>ValueError\<close>.\<close>

lemma to_units_errors:
  "to_units v d = Inl e \<Longrightarrow> (\<exists>p. e = AmountError p) \<or>
     (e = ValueError \<and> (\<exists>s w fr. v = JStr s \<and> AMOUNT_RE (py_strip is_space s) = Some (w, fr) \<and>
        (max_str_digits < length w \<or> max_str_digits < d)))"
proof -
  have "length (py_ljust f d c) = max (length f) d" for f c
    by (simp add: py_ljust_def)
  then show "to_units v d = Inl e \<Longrightarrow> ?thesis"
    by (auto simp: to_units_def py_int_def max_str_digits_def Let_def max_def
        split: json.splits option.splits prod.splits if_splits)
qed

lemma intake_checks_errors:
  assumes "intake_checks sha cfg d = Inl e"
  shows "(\<exists>f m. e = ValidationError f m) \<or>
    (e = ValueError \<and> (\<exists>s w fr. payload_get d ''amount'' = JStr s \<and>
       AMOUNT_RE (py_strip is_space s) = Some (w, fr) \<and>
       (max_str_digits < length w \<or> max_str_digits < token_decimals cfg)))"
proof (cases "check_id d")
  case (Inl e')
  then show ?thesis using assms by (auto simp: intake_checks_def check_id_def split: sum.splits)
next
  case id: (Inr u)
  show ?thesis
  proof (cases "check_address sha d")
    case (Inl e')
    then show ?thesis
      using assms id by (auto simp: intake_checks_def check_address_def split: json.splits if_splits)
  next
    case addr: (Inr a)
    show ?thesis
    proof (cases "check_asset cfg d")
      case (Inl e')
      then show ?thesis
        using assms id addr by (auto simp: intake_checks_def check_asset_def split: option.splits if_splits)
    next
      case ass: (Inr x)
      then have "check_amount cfg d = Inl e"
        using assms id addr by (cases "check_amount cfg d") (auto simp: intake_checks_def)
      then show ?thesis
        using to_units_errors [of "payload_get d ''amount''" "token_decimals cfg"]
        by (fastforce simp: check_amount_def split: sum.splits exn.splits if_splits)
    qed
  qed
qed

lemma mem_submit_cases:
  assumes "mem_submit sha cfg now at s payload = (ans, s')"
  obtains (invalid) f m where "ans = Inl (ValidationError f m)" "s' = s"
  | (digits) d where "payload = JObj d" "ans = Inl ValueError" "s' = s"
      "\<exists>t w fr. payload_get d ''amount'' = JStr t \<and> AMOUNT_RE (py_strip is_space t) = Some (w, fr) \<and>
         (max_str_digits < length w \<or> max_str_digits < token_decimals cfg)"
  | (mismatch) u where "ans = Inl (PayloadMismatch u)" "s' = s"
  | (replay) r where "ans = Inr \<lparr> sr_operation = r, sr_created = False \<rparr>" "s' = s"
  | (created) op where "ans = Inr \<lparr> sr_operation = stamped now op, sr_created = True \<rparr>"
      "get s (operation_id op) = None" "insert_new now at s op = ((stamped now op, True), s')"
proof (cases payload)
  case (JObj d)
  show thesis
  proof (cases "intake_checks sha cfg d")
    case (Inl e)
    then have "ans = Inl e" "s' = s" using assms JObj by (simp_all add: mem_submit_def submit_withdrawal_def)
    then show thesis using intake_checks_errors [OF Inl] invalid digits JObj by blast
  next
    case (Inr op)
    show thesis
    proof (cases "get s (operation_id op)")
      case None
      then have "insert_new now at s op = ((stamped now op, True), snd (insert_new now at s op))"
        by (simp add: insert_new_def get_def stamped_def Let_def split: option.split)
      then obtain s1 where i: "insert_new now at s op = ((stamped now op, True), s1)" by blast
      then have "ans = Inr \<lparr> sr_operation = stamped now op, sr_created = True \<rparr>" "s' = s1"
        using assms JObj Inr by (simp_all add: mem_submit_def submit_withdrawal_def)
      then show thesis using i None by (intro created) simp_all
    next
      case (Some r)
      then have "insert_new now at s op = ((r, False), s)" by (simp add: insert_new_def get_def)
      then show thesis
        using assms JObj Inr mismatch replay
        by (auto simp: mem_submit_def submit_withdrawal_def split: if_splits)
    qed
  qed
qed (use assms invalid in \<open>auto simp: mem_submit_def submit_withdrawal_def\<close>)

section \<open>Properties\<close>



text \<open>
  C31. A client can always ask: after a submission was answered with 200 or 201, whatever calls the store
  serves in between, \<open>GET\<close> with the \<open>operation_id\<close> of the answer is answered with 200 and the view of
  the row as it then is, whose destination, asset, amount and creation time are those of the first
  answer.
\<close>

theorem api_status_follows:
  assumes "store_wf s" "api_submit sha cfg now at s got = (Inr resp, s1)" "store_step\<^sup>*\<^sup>* s1 s2"
    and "resp_body resp = View_Body v"
  shows "\<exists>u r. dict_get v ''operation_id'' = Some (PStr (uuid_str u)) \<and> get s2 u = Some r \<and>
    api_status s2 (uuid_str u) = reply 200 (View_Body (public_view r)) \<and>
    (\<forall>k \<in> {''operation_id'', ''to_address'', ''asset'', ''amount_units'', ''created_at''}.
       dict_get (public_view r) k = dict_get v k)"
proof -
  obtain payload res where m: "mem_submit sha cfg now at s payload = (Inr res, s1)"
      "v = public_view (sr_operation res)"
    using assms(2,4) by (fastforce simp: api_submit_def reply_def split: option.splits if_splits prod.splits
        sum.splits exn.splits)
  obtain d op where o1: "intake_checks sha cfg d = Inr op" "store_wf s1"
      "get s1 (operation_id op) = Some (sr_operation res)"
    using mem_submit_success [OF assms(1) m(1)] by metis
  obtain r where r: "get s2 (operation_id op) = Some r" "intake_part r = intake_part (sr_operation res)"
    using mem_intake.later_keeps [OF o1(2) assms(3) o1(3)] by blast
  have "operation_id (sr_operation res) = operation_id op" using store_wf_row [OF o1(2,3)] .
  then show ?thesis
    using r m(2) UUID_uuid_str [OF intake_checks_InrD(1,2) [OF o1(1)]]
    by (intro exI [of _ "operation_id op"] exI [of _ r])
      (auto simp: api_status_def public_view_def intake_part_def)
qed

theorem api_status_follows_witness:
  "\<exists>r. get sample_submitted 7 = Some r \<and>
     api_status sample_submitted (uuid_str 7) = reply 200 (View_Body (public_view r))"
proof -
  let ?v = "public_view (stamped 0 sample_op5)"
  have a: "api_submit sample_sha default_config 0 0 new_store (Some (JObj (sample_body ''5''))) =
      (Inr \<lparr> status_code = 201, resp_body = View_Body ?v, replay_header = False \<rparr>, sample_submitted)"
    by (simp add: api_submit_def sample_submit reply_def)
  have v: "dict_get ?v ''operation_id'' = Some (PStr (uuid_str 7))"
    by (simp add: public_view_def sample_op5_def new_operation_def stamped_def)
  obtain u r where ur: "dict_get ?v ''operation_id'' = Some (PStr (uuid_str u))" "get sample_submitted u = Some r"
    "api_status sample_submitted (uuid_str u) = reply 200 (View_Body (public_view r))"
    using api_status_follows [OF store_wf_new a rtranclp.rtrancl_refl, of ?v] by auto
  have "u = 7"
  proof (cases "u = 7")
    case False
    then have "get sample_submitted u = None"
      by (simp add: sample_submitted_def insert_new_def new_store_def get_def sample_op5_def new_operation_def Let_def)
    then show ?thesis using ur(2) by simp
  qed
  then show ?thesis using ur by auto
qed

end
