(* ===== verification/Client.thy ===== *)
theory Client
  imports Ledger Api
begin

text \<open>
  From the request of a client to the chain and back: what \<open>GET\<close> shows of a withdrawal that \<open>POST\<close> accepted is
  true of the chain.  The API, the intake, the store, the pipeline, the worker and the node meet here.
\<close>

section \<open>A submission is a step of the system\<close>

lemma accepted_submission:
  assumes "api_submit sha cfg now at ms (Some (JObj d)) = (Inr resp, ms')" "status_code resp = 201"
  shows "\<exists>op r. intake_checks sha cfg d = Inr op \<and> insert_new now at ms op = ((r, True), ms')"
proof -
  obtain ans t where m: "mem_submit sha cfg now at ms (JObj d) = (ans, t)" by fastforce
  have a: "t = ms' \<and> (\<exists>r. ans = Inr \<lparr> sr_operation = r, sr_created = True \<rparr>)"
  proof (cases ans)
    case (Inr res)
    then show ?thesis using assms m by (cases res) (auto simp: api_submit_def reply_def split: if_splits)
  qed (use assms m in \<open>auto simp: api_submit_def reply_def split: exn.splits\<close>)
  show ?thesis
  proof (cases "intake_checks sha cfg d")
    case (Inr op)
    obtain r c ms1 where "insert_new now at ms op = ((r, c), ms1)" by (metis surj_pair)
    then show ?thesis
      using m a Inr by (auto simp: mem_submit_def submit_withdrawal_def split: if_splits)
  qed (use m a in \<open>auto simp: mem_submit_def submit_withdrawal_def\<close>)
qed

lemma intake_columns:
  assumes "intake_checks sha cfg d = Inr op"
  shows "op = new_operation (operation_id op) (op_request_hash op) REQUESTED (to_address op) (asset op) (amount_units op)"
    "check_id d = Inr (operation_id op)" "payload_get d ''to_address'' = JStr (to_address op)"
    "to_units (payload_get d ''amount'') (token_decimals cfg) = Inr (amount_units op)"
proof -
  obtain u a ass n where p: "check_id d = Inr u" "check_address sha d = Inr a" "check_asset cfg d = Inr ass"
      "check_amount cfg d = Inr n" "op = new_operation u (request_hash sha a n ass) REQUESTED a ass n"
    using assms by (auto simp: intake_checks_def ebind_Inr_iff)
  then show "op = new_operation (operation_id op) (op_request_hash op) REQUESTED (to_address op) (asset op) (amount_units op)"
    "check_id d = Inr (operation_id op)" by (simp_all add: new_operation_def)
  show "payload_get d ''to_address'' = JStr (to_address op)"
    using p(2,5) by (auto simp: check_address_def new_operation_def split: json.splits if_splits)
  show "to_units (payload_get d ''amount'') (token_decimals cfg) = Inr (amount_units op)"
    using p(4,5) by (auto simp: check_amount_def new_operation_def split: sum.splits exn.splits if_splits)
qed

lemma submission_is_step:
  assumes "intake_checks sha cfg d = Inr op" "insert_new now at (w_store (s_world s)) op = (res, ms)"
  shows "sys_step sha cfg sg strict s (s\<lparr>s_world := (s_world s)\<lparr>w_store := ms\<rparr>\<rparr>)"
proof (rule ss_submit)
  show "insert_new now at (w_store (s_world s)) (new_operation (operation_id op) (op_request_hash op) REQUESTED
      (to_address op) (asset op) (amount_units op)) = (res, ms)"
    using assms(2) unfolding intake_columns(1) [OF assms(1), symmetric] .
qed

section \<open>What is on the chain for a row\<close>

lemma confirmed_transfer:
  assumes run: "(sys_step sha cfg sg True)\<^sup>*\<^sup>* (initial_system clk lag delay nsg) s" and uns: "unshared (w_store (s_world s))"
    and r: "get (w_store (s_world s)) i = Some r" "op_state r = CONFIRMED"
  obtains t q where "op_txid r = Some t" "dict_get (nd_txs (w_node (s_world s))) t = Some q"
    "t \<in> successful_txids (w_node (s_world s))" "t \<in> history (w_store (s_world s)) i" "transfers cfg (asked_of r) (rec_tx q)"
    "\<And>t'. t' \<in> history (w_store (s_world s)) i \<Longrightarrow> t' \<in> included_txids (w_node (s_world s)) \<Longrightarrow> t' = t"
proof -
  let ?w = "s_world s"
  have inv: "world_inv ?w" using sys_inv_reachable [OF run uns] by (simp add: sys_inv_def)
  then have wf: "node_wf (w_node ?w)" "rows_ok (w_store ?w)" "landed_ok ?w" by (simp_all add: world_inv_def)
  obtain g where g: "signed_tx r = Some (to_json g)" "st_txid g \<in> successful_txids (w_node ?w)"
    using inv r unfolding world_inv_def confirmed_ok_def by blast
  have h: "st_txid g \<in> history (w_store ?w) i" "op_txid r = Some (st_txid g)"
    using wf(2) r(1) g(1) unfolding rows_ok_def by (metis to_json_inject)+
  have car: "carries (w_store ?w) i g" using r g(1) by (simp add: carries_def sent_states_def)
  obtain q where q: "dict_get (nd_txs (w_node ?w)) (st_txid g) = Some q" using g(2) wf(1) by (auto simp: successful_iff)
  obtain j r' where j: "get (w_store ?w) j = Some r'" "st_txid g \<in> history (w_store ?w) j" "transfers cfg (asked_of r') (rec_tx q)"
    using held_is_asked [OF run q] by blast
  have "j = i" using uns h(1) j(2) unfolding unshared_def by blast
  moreover have "t' = st_txid g" if "t' \<in> history (w_store ?w) i" "t' \<in> included_txids (w_node ?w)" for t'
    using wf(3) that carries_unique [OF car] unfolding landed_ok_def by blast
  moreover have "r' = r" using j(1) \<open>j = i\<close> r(1) by simp
  ultimately show thesis using j(3) by (intro that [OF h(2) q g(2) h(1)]) simp_all
qed

text \<open>The row of an accepted request, in every later state.\<close>

lemma row_of_request:
  assumes "(sys_step sha cfg sg True)\<^sup>*\<^sup>* (initial_system clk lag delay nsg) s"
    "api_submit sha cfg now at (w_store (s_world s)) (Some (JObj d)) = (Inr resp, ms)" "status_code resp = 201"
    "(sys_step sha cfg sg True)\<^sup>*\<^sup>* (s\<lparr>s_world := (s_world s)\<lparr>w_store := ms\<rparr>\<rparr>) s'"
  obtains u r where "(sys_step sha cfg sg True)\<^sup>*\<^sup>* (initial_system clk lag delay nsg) s'" "check_id d = Inr u"
    "get (w_store (s_world s')) u = Some r" "api_status (w_store (s_world s')) (uuid_str u) = reply 200 (View_Body (public_view r))"
    "JStr (to_address r) = payload_get d ''to_address''" "Inr (amount_units r) = to_units (payload_get d ''amount'') (token_decimals cfg)"
proof -
  let ?s1 = "s\<lparr>s_world := (s_world s)\<lparr>w_store := ms\<rparr>\<rparr>" and ?ms = "w_store (s_world s')"
  obtain op r0 where op: "intake_checks sha cfg d = Inr op" "insert_new now at (w_store (s_world s)) op = ((r0, True), ms)"
    using accepted_submission [OF assms(2,3)] by blast
  note cols = intake_columns [OF op(1)]
  have run1: "(sys_step sha cfg sg True)\<^sup>*\<^sup>* (initial_system clk lag delay nsg) ?s1"
    using assms(1) submission_is_step [OF op] by (rule rtranclp.rtrancl_into_rtrancl)
  have "store_wf (w_store (s_world s))" using wf_reachable [OF assms(1)] by simp
  then have "get (w_store (s_world ?s1)) (operation_id op) = Some (stamped now op)"
    using insert_new_effect(3,4) [OF _ op(2)] by simp
  then obtain r where r: "get ?ms (operation_id op) = Some r" "intake_part r = intake_part (stamped now op)"
    using grows_run [OF run1 assms(4)] unfolding grows_def rows_stay_def row_stays_def by blast
  then have "to_address r = to_address op" "amount_units r = amount_units op"
    by (simp_all add: intake_part_def stamped_def)
  moreover have "api_status ?ms (uuid_str (operation_id op)) = reply 200 (View_Body (public_view r))"
    using r(1) UUID_uuid_str [OF intake_checks_InrD(1,2) [OF op(1)]] by (simp add: api_status_def)
  ultimately show thesis using cols(3,4) by (intro that [OF rtranclp_trans [OF run1 assms(4)] cols(2) r(1)]) simp_all
qed

lemma shown_state:
  "dict_get (public_view r) ''state'' = Some (PStr ''confirmed'') \<longleftrightarrow> op_state r = CONFIRMED"
  "dict_get (public_view r) ''state'' \<in> {Some (PStr ''failed''), Some (PStr ''rejected'')} \<longleftrightarrow> op_state r \<in> {FAILED, REJECTED}"
  by (cases "op_state r"; simp add: public_view_def)+

section \<open>Properties\<close>

text \<open>
  C4. The answers of the API are true of the chain, on three conditions: the run meets the timing condition of the
  no-double-spend theorem, no two operations share a txid, and the node knows no other secret under the key id
  of the wallet.  Let \<open>POST\<close> have answered 201 to a request, in any state such a run reaches, and take any later
  state of it: \<open>GET\<close> with the identifier of the request answers 200.  If it shows \<open>confirmed\<close>, the txid it shows succeeded on the chain, transfers to the destination of the request
  exactly the amount its decimal text denotes, and is the only transaction of this withdrawal in any block.  If
  it shows \<open>failed\<close> or \<open>rejected\<close>, no transaction of this withdrawal has succeeded.
\<close>

theorem client_is_told_the_truth:
  assumes "(sys_step sha cfg sg True)\<^sup>*\<^sup>* (initial_system clk lag delay nsg) s"
    and "api_submit sha cfg now at (w_store (s_world s)) (Some (JObj d)) = (Inr resp, ms)" "status_code resp = 201"
    and "(sys_step sha cfg sg True)\<^sup>*\<^sup>* (s\<lparr>s_world := (s_world s)\<lparr>w_store := ms\<rparr>\<rparr>) s'"
    and "unshared (w_store (s_world s'))" "key_id sg = key_id nsg \<longrightarrow> secret sg = secret nsg"
  shows "\<exists>u v. check_id d = Inr u \<and> api_status (w_store (s_world s')) (uuid_str u) = reply 200 (View_Body v) \<and>
    (dict_get v ''state'' = Some (PStr ''confirmed'') \<longrightarrow>
      (\<exists>t q. dict_get v ''txid'' = Some (PStr t) \<and> dict_get (nd_txs (w_node (s_world s'))) t = Some q \<and>
        t \<in> successful_txids (w_node (s_world s')) \<and>
        JStr (c_to (rd_contract (st_raw_data (rec_tx q)))) = payload_get d ''to_address'' \<and>
        tx_amount (w_node (s_world s')) t = to_units (payload_get d ''amount'') (token_decimals cfg) \<and>
        (\<forall>t'. PStr t' \<in> all_txids (w_store (s_world s')) u \<and> t' \<in> included_txids (w_node (s_world s')) \<longrightarrow> t' = t))) \<and>
    (dict_get v ''state'' \<in> {Some (PStr ''failed''), Some (PStr ''rejected'')} \<longrightarrow>
      (\<forall>t. PStr t \<in> all_txids (w_store (s_world s')) u \<longrightarrow> t \<notin> successful_txids (w_node (s_world s'))))"
proof -
  let ?ms = "w_store (s_world s')" and ?nd = "w_node (s_world s')"
  obtain u r where r: "(sys_step sha cfg sg True)\<^sup>*\<^sup>* (initial_system clk lag delay nsg) s'" "check_id d = Inr u"
      "get ?ms u = Some r" "api_status ?ms (uuid_str u) = reply 200 (View_Body (public_view r))"
      "JStr (to_address r) = payload_get d ''to_address''" "Inr (amount_units r) = to_units (payload_get d ''amount'') (token_decimals cfg)"
    using row_of_request [OF assms(1-4)] by blast
  have "\<exists>t q. dict_get (public_view r) ''txid'' = Some (PStr t) \<and> dict_get (nd_txs ?nd) t = Some q \<and>
      t \<in> successful_txids ?nd \<and> JStr (c_to (rd_contract (st_raw_data (rec_tx q)))) = payload_get d ''to_address'' \<and>
      tx_amount ?nd t = to_units (payload_get d ''amount'') (token_decimals cfg) \<and>
      (\<forall>t'. PStr t' \<in> all_txids ?ms u \<and> t' \<in> included_txids ?nd \<longrightarrow> t' = t)" if c: "op_state r = CONFIRMED"
  proof (rule confirmed_transfer [OF r(1) assms(5) r(3) c])
    fix t q assume t: "op_txid r = Some t" "dict_get (nd_txs ?nd) t = Some q" "t \<in> successful_txids ?nd"
      "transfers cfg (asked_of r) (rec_tx q)" "\<And>t'. t' \<in> history ?ms u \<Longrightarrow> t' \<in> included_txids ?nd \<Longrightarrow> t' = t"
    then show ?thesis
      using transfers_amount [OF t(2,4)] r(5,6) by (auto simp: history_def public_view_def opt_str_def)
  qed
  moreover have "t \<notin> successful_txids ?nd" if "op_state r \<in> {FAILED, REJECTED}" "PStr t \<in> all_txids ?ms u" for t
    using closed_unpaid [OF r(1) assms(5,6) r(3) that(1)] that(2) by (simp add: history_def)
  ultimately show ?thesis
    using r(2,4) unfolding shown_state [symmetric] by blast
qed

lemma sample_op5_good:
  "payable sample_sha default_config sample_op5" "py_str (amount_units sample_op5) = Inr (nat_str 5000000)"
  using sample_request_good(1,4) by (simp_all add: payable_def sample_op5_def sample_request_def new_operation_def)

theorem client_is_told_the_truth_witness:
  "\<exists>s v t. (sys_step sample_sha default_config default_signer True)\<^sup>*\<^sup>* (initial_system 0 19 1 default_signer) s \<and>
     api_status (w_store (s_world s)) (uuid_str 7) = reply 200 (View_Body v) \<and>
     dict_get v ''state'' = Some (PStr ''confirmed'') \<and> dict_get v ''txid'' = Some (PStr t) \<and>
     t \<in> successful_txids (w_node (s_world s)) \<and> tx_amount (w_node (s_world s)) t = Inr 5000000"
proof -
  let ?s0 = "initial_system 0 19 1 default_signer"
  let ?s1 = "?s0\<lparr>s_world := (s_world ?s0)\<lparr>w_store := sample_submitted\<rparr>\<rparr>"
  let ?run = "(sys_step sample_sha default_config default_signer True)\<^sup>*\<^sup>*"
  have st: "w_store (s_world ?s0) = new_store" by (simp add: initial_system_def)
  have post: "api_submit sample_sha default_config 0 0 (w_store (s_world ?s0)) (Some (JObj (sample_body ''5''))) =
      (Inr \<lparr> status_code = 201, resp_body = View_Body (public_view (stamped 0 sample_op5)), replay_header = False \<rparr>,
       sample_submitted)"
    by (simp add: api_submit_def sample_submit reply_def st)
  have sub: "s_world ?s1 = submitted 0 19 1 default_signer sample_op5"
    by (simp add: submitted_def sample_submitted_def st Let_def)
  obtain s r g where s: "?run ?s1 s" "only_row (w_store (s_world s)) r" "operation_id r = 7" "op_state r = CONFIRMED"
    by (rule delivery_path [OF sample_op5_def sample_op5_good sample_settings(1) _ _ sample_settings(4) _ _ sub])
      (use sample_settings in auto)
  obtain u v where v: "check_id (sample_body ''5'') = Inr u" "api_status (w_store (s_world s)) (uuid_str u) = reply 200 (View_Body v)"
      "dict_get v ''state'' = Some (PStr ''confirmed'') \<Longrightarrow> \<exists>t. dict_get v ''txid'' = Some (PStr t) \<and>
         t \<in> successful_txids (w_node (s_world s)) \<and>
         tx_amount (w_node (s_world s)) t = to_units (payload_get (sample_body ''5'') ''amount'') (token_decimals default_config)"
    using client_is_told_the_truth [OF rtranclp.rtrancl_refl post _ s(1) only_row_unshared [OF s(2)]] by auto
  have u: "u = 7"
    using v(1) UUID_uuid_str [of 7] by (simp add: check_id_def payload_get_def sample_body_def UUID_of_def)
  have "v = public_view r"
    using v(2) u s(2,3) UUID_uuid_str [of 7] by (simp add: api_status_def only_row_def get_def reply_def)
  then have "dict_get v ''state'' = Some (PStr ''confirmed'')" using s(4) by (simp add: shown_state)
  moreover have "to_units (payload_get (sample_body ''5'') ''amount'') (token_decimals default_config) = Inr 5000000"
    using sample_amounts(1) by (simp add: payload_get_def sample_body_def default_config_def)
  moreover have "?run ?s0 s"
  proof (rule converse_rtranclp_into_rtranclp [OF _ s(1)])
    have "insert_new 0 0 (w_store (s_world ?s0)) sample_op5 = (fst (insert_new 0 0 new_store sample_op5), sample_submitted)"
      by (simp add: st sample_submitted_def)
    then show "sys_step sample_sha default_config default_signer True ?s0 ?s1"
      by (rule submission_is_step [OF sample_checks(1)])
  qed
  ultimately show ?thesis using v u by metis
qed

end
