(* ===== verification/Postgres.thy ===== *)
theory Postgres
  imports Memory_Store
begin

text \<open>
  \<open>sluice/store/postgres.py\<close> over \<open>migrations/001_schema.sql\<close>: each method is one transaction and
  one function on the two tables.  \<open>now()\<close> is the time of the transaction.  What the schema enforces
  is part of the functions: the transition trigger (which also sets \<open>updated_at\<close>), the check and the
  width of the columns, the unique index on \<open>txid\<close>, the bytes a text or a JSON document cannot hold.
  A statement the database refuses is \<open>Inl (DatabaseError ...)\<close> and leaves the tables alone.

  What a statement leaves open is an argument: \<open>claim\<close> skips the rows that other transactions hold
  locked, breaks ties of \<open>created_at\<close> and orders the returned rows in any way.
\<close>

section \<open>Tables\<close>

record pgdb =
  pg_ops :: "(uuid, operation) dict"
  pg_events :: "event list"
  pg_event_seq :: int

definition empty_db :: pgdb where
  "empty_db = \<lparr> pg_ops = [], pg_events = [], pg_event_seq = 1 \<rparr>"

text \<open>Text and JSON documents cannot hold the null character.\<close>

definition text_ok :: "string \<Rightarrow> bool" where
  "text_ok s \<longleftrightarrow> CHR 0x00 \<notin> set s"

definition opt_text_ok :: "string option \<Rightarrow> bool" where
  "opt_text_ok x = (case x of None \<Rightarrow> True | Some s \<Rightarrow> text_ok s)"

definition raw_ok :: "raw_data \<Rightarrow> bool" where
  "raw_ok r = list_all text_ok [c_type (rd_contract r), contract_address (rd_contract r),
     c_call (rd_contract r), c_to (rd_contract r), c_amount_units (rd_contract r), ref_block_hash r]"

fun json_ok :: "pyval \<Rightarrow> bool" where
  "json_ok (PStr s) = text_ok s"
| "json_ok (PRaw r) = raw_ok r"
| "json_ok (PDict d) = list_all (\<lambda>p. text_ok (fst p) \<and> json_ok (snd p)) d"
| "json_ok _ = True"

fun set_ok :: "field_set \<Rightarrow> bool" where
  "set_ok (Set_txid v) = opt_text_ok v"
| "set_ok (Set_last_error v) = opt_text_ok v"
| "set_ok (Set_failure_reason v) = opt_text_ok v"
| "set_ok (Set_unsigned_tx v) = (case v of None \<Rightarrow> True | Some d \<Rightarrow> raw_ok d)"
| "set_ok (Set_signed_tx v) = (case v of None \<Rightarrow> True | Some d \<Rightarrow> json_ok (PDict d))"
| "set_ok _ = True"

definition in_bits :: "nat \<Rightarrow> int \<Rightarrow> bool" where
  "in_bits n i \<longleftrightarrow> - (2 ^ (n - 1)) \<le> i \<and> i < 2 ^ (n - 1)"

text \<open>The column types: \<open>numeric(38,0) CHECK (amount_units > 0)\<close>, \<open>int\<close>, \<open>bigint\<close>, \<open>text\<close>,
  \<open>jsonb\<close>.\<close>

definition row_fits :: "operation \<Rightarrow> bool" where
  "row_fits r \<longleftrightarrow> 0 < amount_units r \<and> amount_units r < 10 ^ 38 \<and>
     in_bits 32 (attempts r) \<and> in_bits 64 (fencing_token r) \<and>
     (case included_block r of None \<Rightarrow> True | Some b \<Rightarrow> in_bits 64 b) \<and>
     text_ok (to_address r) \<and> text_ok (asset r) \<and> opt_text_ok (op_txid r) \<and>
     opt_text_ok (claimed_by r) \<and> opt_text_ok (last_error r) \<and> opt_text_ok (failure_reason r) \<and>
     (case unsigned_tx r of None \<Rightarrow> True | Some d \<Rightarrow> raw_ok d) \<and>
     (case signed_tx r of None \<Rightarrow> True | Some d \<Rightarrow> json_ok (PDict d))"

text \<open>\<open>operations_txid_unique\<close>.\<close>

definition txid_taken :: "(uuid, operation) dict \<Rightarrow> uuid \<Rightarrow> operation \<Rightarrow> bool" where
  "txid_taken d i r =
     (op_txid r \<noteq> None \<and> list_ex (\<lambda>(k, q). k \<noteq> i \<and> op_txid q = op_txid r) d)"

text \<open>The numbers of a \<open>bigserial\<close> column also advance in transactions that are rolled back; here they advance
  with the rows that stay, and nothing is concluded from their values beyond the order they give.\<close>

definition pg_append_event :: "time \<Rightarrow> pgdb \<Rightarrow> uuid \<Rightarrow> op_state option \<Rightarrow> op_state \<Rightarrow> string option \<Rightarrow> int \<Rightarrow>
    (string, pyval) dict \<Rightarrow> pgdb" where
  "pg_append_event now db i src dst wid tok detail =
     db\<lparr>pg_events := pg_events db @
          [\<lparr> ev_operation_id = i, ev_from_state = src, ev_to_state = dst, ev_worker_id = wid,
             ev_fencing_token = tok, ev_detail = detail, ev_at = Some now, ev_seq = pg_event_seq db \<rparr>],
        pg_event_seq := pg_event_seq db + 1\<rparr>"

section \<open>Operations\<close>

text \<open>The insert names six columns; the others take their defaults.\<close>

definition pg_insert_new :: "time \<Rightarrow> pgdb \<Rightarrow> operation \<Rightarrow> (exn + operation \<times> bool) \<times> pgdb" where
  "pg_insert_new now db op =
     (let r = (new_operation (operation_id op) (op_request_hash op) (op_state op) (to_address op)
                 (asset op) (amount_units op))\<lparr>created_at := Some now, updated_at := Some now\<rparr>
      in if \<not> row_fits r then (Inl (DatabaseError ''value out of range''), db)
         else case dict_get (pg_ops db) (operation_id op) of
             None \<Rightarrow>
               (Inr (r, True),
                pg_append_event now (db\<lparr>pg_ops := dict_set (pg_ops db) (operation_id op) r\<rparr>)
                  (operation_id op) None (op_state op) None 0 [(''intake'', PBool True)])
           | Some existing \<Rightarrow> (Inr (existing, False), db))"

definition pg_get :: "pgdb \<Rightarrow> uuid \<Rightarrow> operation option" where
  "pg_get db i = dict_get (pg_ops db) i"

definition pg_lease_free :: "time \<Rightarrow> operation \<Rightarrow> bool" where
  "pg_lease_free now r = (case lease_expires_at r of None \<Rightarrow> True | Some l \<Rightarrow> l < now)"

definition row_created :: "operation \<Rightarrow> time" where
  "row_created r = (case created_at r of None \<Rightarrow> 0 | Some t \<Rightarrow> t)"

text \<open>\<open>WITH picked AS (...)\<close>: oldest first, ties broken by \<open>tie\<close>.\<close>

definition picked :: "uuid list \<Rightarrow> (uuid \<Rightarrow> nat) \<Rightarrow> time \<Rightarrow> pgdb \<Rightarrow> op_state list \<Rightarrow> int \<Rightarrow>
    (uuid \<times> operation) list" where
  "picked locked tie now db states limit =
     take (nat limit)
       (sort_key (\<lambda>(k, r). row_created r) (sort_key (\<lambda>(k, r). tie k)
         (filter (\<lambda>(k, r). op_state r \<in> set states \<and> pg_lease_free now r \<and> k \<notin> set locked)
            (pg_ops db))))"

definition pg_claim :: "uuid list \<times> (uuid \<Rightarrow> nat) \<times> (uuid \<Rightarrow> nat) \<Rightarrow> time \<Rightarrow> pgdb \<Rightarrow> op_state list \<Rightarrow> int \<Rightarrow>
    string \<Rightarrow> duration \<Rightarrow> (exn + operation list) \<times> pgdb" where
  "pg_claim env now db states limit wid lease =
     (let (locked, tie, ret) = env;
          ps = picked locked tie now db states limit;
          upd = (\<lambda>r. r\<lparr>claimed_by := Some wid, lease_expires_at := Some (now + lease),
                       fencing_token := fencing_token r + 1, updated_at := Some now\<rparr>)
      in if \<not> text_ok wid \<or> limit < 0 then (Inl (DatabaseError ''bad parameter''), db)
         else if list_ex (\<lambda>(k, r). op_transition_guard (op_state r) (op_state r) \<noteq> Update_Allowed) ps
           then (Inl (DatabaseError ''check_violation''), db)
         else if \<not> list_all (\<lambda>(k, r). row_fits (upd r)) ps
           then (Inl (DatabaseError ''value out of range''), db)
         else
           (Inr (map (\<lambda>(k, r). upd r) (sort_key (\<lambda>(k, r). ret k) ps)),
            db\<lparr>pg_ops := fold (\<lambda>(k, r) d. dict_set d k (upd r)) ps (pg_ops db)\<rparr>))"

text \<open>
  The update statement of \<open>cas\<close> is put together from clauses.  With a lease to renew and a terminal
  target it assigns \<open>lease_expires_at\<close> twice, which the database refuses before it looks at any row.
\<close>

definition pg_cas :: "time \<Rightarrow> pgdb \<Rightarrow> uuid \<Rightarrow> int \<Rightarrow> op_state \<Rightarrow> op_state \<Rightarrow> field_set list \<Rightarrow>
    (string, pyval) dict \<Rightarrow> duration option \<Rightarrow> string option \<Rightarrow> (exn + operation option) \<times> pgdb" where
  "pg_cas now db i tok from_state to_state sets detail renew wid =
     (if \<not> list_all (\<lambda>f. field_name f \<in> set MUTABLE_FIELDS) sets then (Inl ValueError, db)
      else if \<not> can_transition from_state to_state
        then (Inl (IllegalTransition from_state to_state), db)
      else if \<not> list_all set_ok sets then (Inl (DatabaseError ''bad parameter''), db)
      else if renew \<noteq> None \<and> to_state \<in> set TERMINAL
        then (Inl (DatabaseError ''multiple assignments to same column''), db)
      else case dict_get (pg_ops db) i of
        None \<Rightarrow> (Inr None, db)
      | Some r \<Rightarrow>
          if fencing_token r \<noteq> tok \<or> op_state r \<noteq> from_state then (Inr None, db)
          else if op_transition_guard (op_state r) to_state \<noteq> Update_Allowed
            then (Inl (DatabaseError ''check_violation''), db)
          else
            (let r1 = (fold apply_set sets r)\<lparr>op_state := to_state, updated_at := Some now\<rparr>;
                 r2 = (case renew of None \<Rightarrow> r1
                       | Some d \<Rightarrow> r1\<lparr>lease_expires_at := Some (now + d)\<rparr>);
                 r3 = (if to_state \<in> set TERMINAL
                       then r2\<lparr>claimed_by := None, lease_expires_at := None\<rparr> else r2)
             in if \<not> row_fits r3 \<or> \<not> opt_text_ok wid \<or> \<not> json_ok (PDict detail)
                then (Inl (DatabaseError ''value out of range''), db)
                else if txid_taken (pg_ops db) i r3
                  then (Inl (DatabaseError ''unique_violation''), db)
                else
                  (Inr (Some r3),
                   pg_append_event now (db\<lparr>pg_ops := dict_set (pg_ops db) i r3\<rparr>) i
                     (Some from_state) to_state wid tok detail)))"

definition pg_release :: "time \<Rightarrow> pgdb \<Rightarrow> uuid \<Rightarrow> int \<Rightarrow> pgdb" where
  "pg_release now db i tok =
     (case dict_get (pg_ops db) i of
        None \<Rightarrow> db
      | Some r \<Rightarrow>
          if fencing_token r \<noteq> tok \<or> state_value (op_state r) \<in> {''confirmed'', ''failed'', ''rejected''}
          then db
          else db\<lparr>pg_ops := dict_set (pg_ops db) i
                 (r\<lparr>claimed_by := None, lease_expires_at := None, updated_at := Some now\<rparr>)\<rparr>)"

definition pg_events_of :: "pgdb \<Rightarrow> uuid \<Rightarrow> event list" where
  "pg_events_of db i = sort_key ev_seq (filter (\<lambda>e. ev_operation_id e = i) (pg_events db))"

definition pg_all_txids :: "pgdb \<Rightarrow> uuid \<Rightarrow> string set" where
  "pg_all_txids db i =
     set (List.map_filter
       (\<lambda>e. if ev_operation_id e = i then
              (case dict_get (ev_detail e) ''txid'' of
                 Some (PStr t) \<Rightarrow> if t = [] then None else Some t
               | _ \<Rightarrow> None)
            else None) (pg_events db))"

section \<open>The invariant\<close>

definition txids_unique :: "pgdb \<Rightarrow> bool" where
  "txids_unique db \<longleftrightarrow> (\<forall>i j r q. pg_get db i = Some r \<longrightarrow> pg_get db j = Some q \<longrightarrow> op_txid r \<noteq> None \<longrightarrow>
     op_txid r = op_txid q \<longrightarrow> i = j)"

definition pg_wf :: "pgdb \<Rightarrow> bool" where
  "pg_wf db \<longleftrightarrow> distinct (map fst (pg_ops db)) \<and> txids_unique db \<and>
     (\<forall>i r. pg_get db i = Some r \<longrightarrow> operation_id r = i \<and> row_fits r \<and> created_at r \<noteq> None)"

section \<open>Lemmas\<close>

lemma pg_get_dict_set [simp]:
  "pg_get (db\<lparr>pg_ops := dict_set (pg_ops db) i r\<rparr>) = (pg_get db)(i \<mapsto> r)"
  by (auto simp: pg_get_def dict_simps)

lemma pg_append_event_simps [simp]:
  "pg_ops (pg_append_event now db i src dst wid tok detail) = pg_ops db"
  "pg_get (pg_append_event now db i src dst wid tok detail) = pg_get db"
  by (simp_all add: pg_append_event_def pg_get_def fun_eq_iff)

lemma pg_append_event_log:
  "\<exists>e. pg_events (pg_append_event now db i src dst wid tok detail) = pg_events db @ [e] \<and>
     ev_operation_id e = i \<and> ev_from_state e = src \<and> ev_to_state e = dst \<and> ev_detail e = detail"
  by (simp add: pg_append_event_def)

lemma txid_taken_iff:
  "distinct (map fst (pg_ops db)) \<Longrightarrow> txid_taken (pg_ops db) i r \<longleftrightarrow>
     op_txid r \<noteq> None \<and> (\<exists>k q. k \<noteq> i \<and> pg_get db k = Some q \<and> op_txid q = op_txid r)"
  unfolding txid_taken_def pg_get_def list_ex_iff by (auto simp flip: dict_get_distinct)

text \<open>One row rewritten within the constraints.\<close>

lemma pg_wf_update:
  assumes "pg_wf db" "operation_id r = i" "row_fits r" "created_at r \<noteq> None"
    "op_txid r = None \<or> (\<forall>k q. k \<noteq> i \<longrightarrow> pg_get db k = Some q \<longrightarrow> op_txid q \<noteq> op_txid r)"
  shows "pg_wf (db\<lparr>pg_ops := dict_set (pg_ops db) i r\<rparr>)"
  using assms unfolding pg_wf_def txids_unique_def by (auto split: if_splits)

lemma pg_wf_append_event [simp]: "pg_wf (pg_append_event now db i src dst wid tok detail) = pg_wf db"
  by (simp add: pg_wf_def txids_unique_def)

lemma pg_wf_empty: "pg_wf empty_db"
  by (simp add: pg_wf_def txids_unique_def empty_db_def pg_get_def)

lemma trigger_ok_iff: "op_transition_guard s t = Update_Allowed \<longleftrightarrow> s \<notin> set TERMINAL \<and> can_transition s t"
  using trigger_agrees_live [of s t] trigger_terminal [of s t] by (cases "op_transition_guard s t") auto

lemma pg_cas_cases:
  assumes "pg_cas now db i tok src dst sets detail renew who = (res, db')"
  obtains (refused) "db' = db" "\<forall>r'. res \<noteq> Inr (Some r')"
  | (wrote) r where "pg_get db i = Some r" "fencing_token r = tok" "op_state r = src"
      "src \<notin> set TERMINAL" "can_transition src dst" "mutable_sets sets"
      "renew = None \<or> dst \<notin> set TERMINAL"
      "res = Inr (Some (written now dst sets renew r))" "row_fits (written now dst sets renew r)"
      "\<not> txid_taken (pg_ops db) i (written now dst sets renew r)"
      "db' = pg_append_event now
         (db\<lparr>pg_ops := dict_set (pg_ops db) i (written now dst sets renew r)\<rparr>) i (Some src) dst who tok detail"
proof (cases "db' = db \<and> (\<forall>r'. res \<noteq> Inr (Some r'))")
  case True
  then show thesis using refused by blast
next
  case False
  then have ok: "list_all (\<lambda>f. field_name f \<in> set MUTABLE_FIELDS) sets" "can_transition src dst"
      "list_all set_ok sets" "renew = None \<or> dst \<notin> set TERMINAL"
    using assms by (auto simp: pg_cas_def split: if_splits)
  then obtain r where r: "dict_get (pg_ops db) i = Some r"
    using assms False by (auto simp: pg_cas_def split: option.splits if_splits)
  with assms False ok have g: "fencing_token r = tok" "op_state r = src" "op_transition_guard src dst = Update_Allowed"
    by (auto simp: pg_cas_def split: if_splits)
  let ?r = "written now dst sets renew r"
  have "\<not> (\<not> row_fits ?r \<or> \<not> opt_text_ok who \<or> \<not> json_ok (PDict detail))" "\<not> txid_taken (pg_ops db) i ?r"
    using assms False ok r g unfolding pg_cas_def written_def Let_def by (auto split: if_splits)
  moreover from this have "(res, db') = (Inr (Some ?r), pg_append_event now
         (db\<lparr>pg_ops := dict_set (pg_ops db) i ?r\<rparr>) i (Some src) dst who tok detail)"
    using assms ok r g unfolding pg_cas_def written_def Let_def by (auto split: if_splits)
  ultimately show thesis
    using wrote [of r] ok r g by (simp add: trigger_ok_iff pg_get_def mutable_sets_def)
qed

lemma picked_rows:
  assumes "distinct (map fst (pg_ops db))"
  shows "distinct (map fst (picked locked tie now db states limit))"
    "(k, r) \<in> set (picked locked tie now db states limit) \<Longrightarrow>
       pg_get db k = Some r \<and> op_state r \<in> set states \<and> pg_lease_free now r"
proof -
  let ?f = "filter (\<lambda>(k, r). op_state r \<in> set states \<and> pg_lease_free now r \<and> k \<notin> set locked) (pg_ops db)"
  let ?s = "sort_key (\<lambda>(k, r). row_created r) (sort_key (\<lambda>(k, r). tie k) ?f)"
  have "distinct (map fst ?f)" using assms by (rule distinct_map_filter)
  moreover have "mset (map fst ?s) = mset (map fst ?f)" by simp
  ultimately have "distinct (map fst ?s)"
    using mset_eq_imp_distinct_iff [of "map fst ?s" "map fst ?f"] by blast
  then have "distinct (take (nat limit) (map fst ?s))" by (rule distinct_take)
  then show "distinct (map fst (picked locked tie now db states limit))"
    unfolding picked_def take_map .
  show "(k, r) \<in> set (picked locked tie now db states limit) \<Longrightarrow>
       pg_get db k = Some r \<and> op_state r \<in> set states \<and> pg_lease_free now r"
    using assms by (auto simp: picked_def pg_get_def dest!: in_set_takeD)
qed

lemma pg_claim_cases:
  assumes "pg_wf db" "pg_claim env now db states limit wid d = (res, db')"
  obtains (refused) e where "res = Inl e" "db' = db"
  | (took) ps qs where "res = Inr (map (\<lambda>(k, r). claimed now wid d r) qs)" "mset qs = mset ps"
      "distinct (map fst ps)"
      "\<And>k r. (k, r) \<in> set ps \<Longrightarrow> pg_get db k = Some r \<and> op_state r \<in> set states \<and> pg_lease_free now r \<and>
         op_state r \<notin> set TERMINAL \<and> row_fits (claimed now wid d r)"
      "db' = db\<lparr>pg_ops := fold (\<lambda>(k, r) d'. dict_set d' k (claimed now wid d r)) ps (pg_ops db)\<rparr>"
proof -
  obtain locked tie ret where env: "env = (locked, tie, ret)" by (cases env)
  let ?ps = "picked locked tie now db states limit"
  have dist: "distinct (map fst (pg_ops db))" using assms(1) by (simp add: pg_wf_def)
  show thesis
  proof (cases res)
    case (Inl e)
    then have "db' = db" using assms(2) by (auto simp: pg_claim_def env Let_def split: if_splits)
    then show thesis using Inl refused by blast
  next
    case (Inr out)
    then have ok: "\<not> list_ex (\<lambda>(k, r). op_transition_guard (op_state r) (op_state r) \<noteq> Update_Allowed) ?ps"
      "list_all (\<lambda>(k, r). row_fits (claimed now wid d r)) ?ps"
      and eq: "out = map (\<lambda>(k, r). claimed now wid d r) (sort_key (\<lambda>(k, r). ret k) ?ps)"
      "db' = db\<lparr>pg_ops := fold (\<lambda>(k, r) d'. dict_set d' k (claimed now wid d r)) ?ps (pg_ops db)\<rparr>"
      using assms(2) unfolding pg_claim_def env Let_def claimed_def by (auto split: if_splits)
    show thesis
    proof (rule took [of "sort_key (\<lambda>(k, r). ret k) ?ps" ?ps])
      show "pg_get db k = Some r \<and> op_state r \<in> set states \<and> pg_lease_free now r \<and>
         op_state r \<notin> set TERMINAL \<and> row_fits (claimed now wid d r)" if "(k, r) \<in> set ?ps" for k r
        using picked_rows(2) [OF dist that] ok that by (auto simp: list_ex_iff list_all_iff trigger_ok_iff)
    qed (use Inr eq picked_rows(1) [OF dist] in simp_all)
  qed
qed

lemma pg_claim_get:
  assumes "distinct (map fst ps)"
  shows "pg_get (db\<lparr>pg_ops := fold (\<lambda>(k, r) d'. dict_set d' k (f r)) ps (pg_ops db)\<rparr>) i =
    (case dict_get ps i of None \<Rightarrow> pg_get db i | Some r \<Rightarrow> Some (f r))"
  using fold_dict_set_get [OF assms, of f "pg_ops db" i] unfolding pg_get_def by simp

lemma pg_claim_wf:
  assumes "pg_wf db" "pg_claim env now db states limit wid d = (res, db')"
  shows "pg_wf db'"
  using assms
proof (cases rule: pg_claim_cases)
  case (took ps qs)
  have row: "\<exists>r. pg_get db i = Some r \<and> (q = r \<or> q = claimed now wid d r \<and> row_fits q)"
    if "pg_get db' i = Some q" for i q
    using that took(4) [of i] unfolding took(5) pg_claim_get [OF took(3)]
    by (auto split: option.splits dest: dict_get_mem)
  have "txids_unique db'"
    unfolding txids_unique_def
  proof (intro allI impI)
    fix i j r q assume a: "pg_get db' i = Some r" "pg_get db' j = Some q" "op_txid r \<noteq> None" "op_txid r = op_txid q"
    obtain r' where r': "pg_get db i = Some r'" "op_txid r' = op_txid r"
      using row [OF a(1)] by (auto simp: claimed_def)
    obtain q' where q': "pg_get db j = Some q'" "op_txid q' = op_txid q"
      using row [OF a(2)] by (auto simp: claimed_def)
    show "i = j" using assms(1) r' q' a(3,4) unfolding pg_wf_def txids_unique_def by metis
  qed
  moreover have "operation_id q = i \<and> row_fits q \<and> created_at q \<noteq> None" if "pg_get db' i = Some q" for i q
    using row [OF that] assms(1) unfolding pg_wf_def by (auto simp: claimed_def)
  moreover have "distinct (map fst (pg_ops db'))"
    using assms(1) took(5) fold_dict_set_distinct by (auto simp: pg_wf_def)
  ultimately show ?thesis unfolding pg_wf_def by blast
qed (use assms in simp)

lemma written_id:
  "mutable_sets sets \<Longrightarrow> operation_id (written now dst sets renew r) = operation_id r"
  "mutable_sets sets \<Longrightarrow> created_at (written now dst sets renew r) = created_at r"
  using written_keeps(1) [of sets now dst renew r] by (simp_all add: intake_part_def)

lemma pg_cas_wf:
  assumes "pg_wf db" "pg_cas now db i tok src dst sets detail renew who = (res, db')"
  shows "pg_wf db'"
  using assms(2)
proof (cases rule: pg_cas_cases)
  case (wrote r)
  have "operation_id r = i" "created_at r \<noteq> None" "distinct (map fst (pg_ops db))"
    using assms(1) wrote(1) by (auto simp: pg_wf_def)
  then show ?thesis
    using wrote(6,9,10) pg_wf_update [OF assms(1), of "written now dst sets renew r" i]
    by (auto simp: wrote(11) written_id txid_taken_iff)
qed (use assms in simp)

lemma pg_release_cases:
  obtains "pg_release now db i tok = db"
  | r where "pg_get db i = Some r" "fencing_token r = tok" "op_state r \<notin> set TERMINAL"
      "pg_release now db i tok = db\<lparr>pg_ops := dict_set (pg_ops db) i (released now r)\<rparr>"
proof (cases "pg_get db i")
  case (Some r)
  have "state_value (op_state r) \<in> {''confirmed'', ''failed'', ''rejected''} \<longleftrightarrow> op_state r \<in> set TERMINAL"
    by (cases "op_state r") simp_all
  then show thesis
    using Some that by (cases "fencing_token r = tok \<and> op_state r \<notin> set TERMINAL")
      (auto simp: pg_release_def pg_get_def released_def)
qed (use that in \<open>simp add: pg_release_def pg_get_def\<close>)

lemma pg_release_wf: "pg_wf db \<Longrightarrow> pg_wf (pg_release now db i tok)"
proof (rule pg_release_cases [of now db i tok])
  fix r assume a: "pg_wf db" "pg_get db i = Some r"
    "pg_release now db i tok = db\<lparr>pg_ops := dict_set (pg_ops db) i (released now r)\<rparr>"
  have "\<forall>k q. k \<noteq> i \<longrightarrow> pg_get db k = Some q \<longrightarrow> op_txid r \<noteq> None \<longrightarrow> op_txid q \<noteq> op_txid r"
    using a(1,2) unfolding pg_wf_def txids_unique_def by metis
  moreover have "row_fits (released now r)" "created_at r \<noteq> None" "operation_id r = i"
    using a(1,2) by (auto simp: pg_wf_def row_fits_def released_def opt_text_ok_def)
  ultimately show ?thesis
    unfolding a(3) by (intro pg_wf_update [OF a(1)]) (auto simp: released_def)
qed simp

lemma pg_insert_cases:
  assumes "pg_insert_new now db op = (res, db')"
  obtains (refused) e where "res = Inl e" "db' = db"
  | (existing) r where "pg_get db (operation_id op) = Some r" "res = Inr (r, False)" "db' = db"
  | (created) r where "pg_get db (operation_id op) = None" "res = Inr (r, True)" "row_fits r"
      "r = stamped now (new_operation (operation_id op) (op_request_hash op) (op_state op) (to_address op)
         (asset op) (amount_units op))"
      "db' = pg_append_event now (db\<lparr>pg_ops := dict_set (pg_ops db) (operation_id op) r\<rparr>)
         (operation_id op) None (op_state op) None 0 [(''intake'', PBool True)]"
proof -
  let ?r = "stamped now (new_operation (operation_id op) (op_request_hash op) (op_state op) (to_address op)
         (asset op) (amount_units op))"
  show thesis
  proof (cases "row_fits ?r")
    case False
    then show thesis using assms refused by (auto simp: pg_insert_new_def stamped_def Let_def)
  next
    case True
    have ins: "pg_insert_new now db op =
        (case pg_get db (operation_id op) of
           None \<Rightarrow> (Inr (?r, True), pg_append_event now (db\<lparr>pg_ops := dict_set (pg_ops db) (operation_id op) ?r\<rparr>)
             (operation_id op) None (op_state op) None 0 [(''intake'', PBool True)])
         | Some r \<Rightarrow> (Inr (r, False), db))"
      using True unfolding pg_insert_new_def stamped_def pg_get_def Let_def by (simp split: option.split)
    show thesis
    proof (cases "pg_get db (operation_id op)")
      case None
      then show thesis using assms ins by (intro created [OF None _ True refl]) simp_all
    next
      case (Some r)
      then show thesis using assms ins by (intro existing [OF Some]) simp_all
    qed
  qed
qed

lemma pg_insert_wf:
  assumes "pg_wf db" "pg_insert_new now db op = (res, db')"
  shows "pg_wf db'"
  using assms(2)
proof (cases rule: pg_insert_cases)
  case (created r)
  have "op_txid r = None" "operation_id r = operation_id op" "created_at r \<noteq> None"
    by (simp_all add: created(4) new_operation_def stamped_def)
  then show ?thesis using created(3,5) pg_wf_update [OF assms(1), of r] by simp
qed (use assms in simp_all)

section \<open>The laws of the contract\<close>

lemma pg_insert_law:
  assumes wf: "pg_wf s" and ins: "pg_insert_new now s op = (ans, s')"
  shows "pg_wf s' \<and> (\<exists>es. pg_events s' = pg_events s @ es) \<and>
      (case ans of
         Inl e \<Rightarrow> pg_get s' = pg_get s
       | Inr (r, created) \<Rightarrow>
           pg_get s' (operation_id op) = Some r \<and> created = (pg_get s (operation_id op) = None) \<and>
           (created \<longrightarrow> intake_part r = intake_part (stamped now op) \<and> op_state r = op_state op) \<and>
           (\<forall>i. pg_get s i \<noteq> None \<or> i \<noteq> operation_id op \<longrightarrow> pg_get s' i = pg_get s i))"
  using ins
proof (cases rule: pg_insert_cases)
  case (created r)
  then show ?thesis
    using pg_insert_wf [OF wf ins]
    by (auto simp: pg_append_event_def pg_get_def dict_simps new_operation_def stamped_def intake_part_def)
qed (use wf in auto)

lemma pg_claim_law:
  assumes wf: "pg_wf s" and cl: "pg_claim env now s states limit wid d = (claims, s')"
  shows "pg_wf s' \<and> pg_events s' = pg_events s \<and>
      (\<forall>i. pg_get s' i = pg_get s i \<or> (\<exists>r. pg_get s i = Some r \<and> op_state r \<in> set states \<and>
         pg_get s' i = Some (claimed now wid d r))) \<and>
      (\<forall>out. claims = Inr out \<longrightarrow> distinct (map operation_id out) \<and>
         (\<forall>r' \<in> set out. pg_get s' (operation_id r') = Some r' \<and>
           (\<exists>r. pg_get s (operation_id r') = Some r \<and> op_state r \<in> set states \<and>
             (\<forall>l. lease_expires_at r = Some l \<longrightarrow> l \<le> now) \<and> r' = claimed now wid d r)))"
  using wf cl
proof (cases rule: pg_claim_cases)
  case (took ps qs)
  have set: "set qs = set ps" using took(2) by (metis set_mset_mset)
  have "mset (map fst qs) = mset (map fst ps)" using took(2) by (metis mset_map)
  then have dq: "distinct (map fst qs)" using took(3) mset_eq_imp_distinct_iff by blast
  have rows: "pg_get s k = Some r \<and> operation_id r = k \<and> op_state r \<in> set states \<and>
      (\<forall>l. lease_expires_at r = Some l \<longrightarrow> l \<le> now)" if "(k, r) \<in> set ps" for k r
    using took(4) [OF that] wf by (auto simp: pg_wf_def pg_lease_free_def)
  have new: "pg_get s' i = (case dict_get ps i of None \<Rightarrow> pg_get s i | Some r \<Rightarrow> Some (claimed now wid d r))" for i
    unfolding took(5) by (rule pg_claim_get [OF took(3)])
  have log: "pg_events s' = pg_events s" unfolding took(5) by simp
  show ?thesis
    using handed_out [OF rows took(3) set dq new refl] pg_claim_wf [OF wf cl] log took(1) by auto
qed (use wf in auto)

lemma pg_cas_law:
  assumes wf: "pg_wf s" and c: "pg_cas now s i tok from to sets detail renew who = (res, s')"
  shows "pg_wf s' \<and>
      ((\<forall>r'. res \<noteq> Inr (Some r')) \<and> pg_get s' = pg_get s \<and> pg_events s' = pg_events s \<or>
       (\<exists>r. pg_get s i = Some r \<and> fencing_token r = tok \<and> op_state r = from \<and>
          from \<notin> set TERMINAL \<and> can_transition from to \<and> mutable_sets sets \<and>
          res = Inr (Some (written now to sets renew r)) \<and>
          pg_get s' = (pg_get s)(i \<mapsto> written now to sets renew r) \<and>
          (\<exists>e. pg_events s' = pg_events s @ [e] \<and> ev_operation_id e = i \<and>
             ev_from_state e = Some from \<and> ev_to_state e = to \<and> ev_detail e = detail)))"
  using c
proof (cases rule: pg_cas_cases)
  case (wrote r)
  then have "\<exists>e. pg_events s' = pg_events s @ [e] \<and> ev_operation_id e = i \<and>
      ev_from_state e = Some from \<and> ev_to_state e = to \<and> ev_detail e = detail"
    by (simp add: pg_append_event_def)
  then show ?thesis using pg_cas_wf [OF wf c] wrote(1-6,8) wrote(11) by auto
qed (use wf in simp)

lemma pg_release_law:
  assumes "pg_wf s" "s' = pg_release now s i tok"
  shows "pg_wf s' \<and> pg_events s' = pg_events s \<and>
      (pg_get s' = pg_get s \<or> (\<exists>r. pg_get s i = Some r \<and> fencing_token r = tok \<and>
         pg_get s' = (pg_get s)(i \<mapsto> released now r)))"
  using assms pg_release_wf [OF assms(1)] by (auto intro: pg_release_cases [of now s i tok])

lemma pg_row_id: "pg_wf s \<Longrightarrow> pg_get s i = Some r \<Longrightarrow> operation_id r = i"
  by (simp add: pg_wf_def)

interpretation pg: fenced_store pg_wf pg_get pg_events "\<lambda>now at. pg_insert_new now" pg_claim
  "\<lambda>now at. pg_cas now" pg_release
  by unfold_locales
    (rule pg_row_id pg_insert_law pg_claim_law pg_cas_law pg_release_law; assumption)+

section \<open>Reachable databases\<close>

text \<open>Any call by anybody.\<close>

inductive pg_step :: "pgdb \<Rightarrow> pgdb \<Rightarrow> bool" where
  pg_insert: "pg_insert_new now db op = (res, db') \<Longrightarrow> pg_step db db'"
| pg_claims: "set states \<subseteq> set CLAIMABLE \<Longrightarrow> pg_claim env now db states limit wid d = (res, db') \<Longrightarrow>
    pg_step db db'"
| pg_write: "pg_cas now db i tok src dst sets detail renew who = (res, db') \<Longrightarrow> pg_step db db'"
| pg_releases: "pg_step db (pg_release now db i tok)"

lemma pg_step_call: "pg_step = pg.call"
proof (intro ext iffI)
  show "pg_step s s' \<Longrightarrow> pg.call s s'" for s s'
    by (induction rule: pg_step.induct) (auto intro: pg.call.intros)
  show "pg.call s s' \<Longrightarrow> pg_step s s'" for s s'
    by (induction rule: pg.call.induct) (auto intro: pg_step.intros)
qed

lemma pg_run_wf: "pg_step\<^sup>*\<^sup>* db db' \<Longrightarrow> pg_wf db \<Longrightarrow> pg_wf db'"
  unfolding pg_step_call using pg.run_log by blast

text \<open>The calls of the intake, of the pipeline (which always renews the lease) and of the worker.\<close>

inductive pg_worker_step :: "pgdb \<Rightarrow> pgdb \<Rightarrow> bool" where
  pw_insert: "op_state op = REQUESTED \<Longrightarrow> pg_insert_new now db op = (res, db') \<Longrightarrow> pg_worker_step db db'"
| pw_claim: "pg_claim env now db CLAIMABLE limit wid d = (res, db') \<Longrightarrow> pg_worker_step db db'"
| pw_pipeline: "pg_cas now db i tok src dst sets detail (Some d) who = (res, db') \<Longrightarrow> pg_worker_step db db'"
| pw_breadcrumb: "pg_cas now db i tok st st sets detail None who = (res, db') \<Longrightarrow> pg_worker_step db db'"
| pw_release: "pg_worker_step db (pg_release now db i tok)"

lemma pg_worker_step_is_step: "pg_worker_step db db' \<Longrightarrow> pg_step db db'"
  by (induction rule: pg_worker_step.induct) (auto intro: pg_step.intros)

definition all_live :: "pgdb \<Rightarrow> bool" where
  "all_live db \<longleftrightarrow> (\<forall>i r. pg_get db i = Some r \<longrightarrow> op_state r \<notin> set TERMINAL)"

lemma all_live_update: "all_live db \<Longrightarrow> op_state r \<notin> set TERMINAL \<Longrightarrow>
    all_live (db\<lparr>pg_ops := dict_set (pg_ops db) i r\<rparr>)"
  by (auto simp: all_live_def)

lemma all_live_append_event [simp]: "all_live (pg_append_event now db i src dst wid tok detail) = all_live db"
  by (simp add: all_live_def)

lemma pg_worker_live:
  assumes "pg_worker_step db db'" "pg_wf db" "all_live db"
  shows "all_live db'"
  using assms
proof cases
  case (pw_insert op now res)
  from pw_insert(2) show ?thesis
    by (cases rule: pg_insert_cases)
      (use assms(3) pw_insert(1) in \<open>simp_all add: all_live_update new_operation_def del: TERMINAL_set\<close>,
       simp add: all_live_update)
next
  case (pw_claim env now limit wid d res)
  with assms(2) show ?thesis
  proof (cases rule: pg_claim_cases)
    case (took ps qs)
    then show ?thesis
      using assms(3) unfolding all_live_def took(5) pg_claim_get [OF took(3)]
      by (auto split: option.splits dest!: dict_get_mem)
  qed (use assms in simp)
next
  case (pw_pipeline now i tok src dst sets detail d who res)
  then show ?thesis
    by (cases rule: pg_cas_cases)
      (use assms(3) in \<open>simp_all add: all_live_update written_keeps(2) del: TERMINAL_set\<close>)
next
  case (pw_breadcrumb now i tok st sets detail who res)
  then show ?thesis
    by (cases rule: pg_cas_cases)
      (use assms(3) in \<open>simp_all add: all_live_update written_keeps(2) del: TERMINAL_set\<close>)
next
  case (pw_release now i tok)
  show ?thesis
    unfolding pw_release
    by (rule pg_release_cases [of now db i tok])
      (use assms(3) in \<open>simp_all add: all_live_update del: TERMINAL_set\<close>)
qed

section \<open>A sample row\<close>

definition pg_sample_op :: operation where
  "pg_sample_op = new_operation 7 [] REQUESTED ''a'' ''USDT'' 5"

definition pg_sample_db :: pgdb where
  "pg_sample_db = snd (pg_insert_new 0 empty_db pg_sample_op)"

abbreviation pg_sample_env :: "uuid list \<times> (uuid \<Rightarrow> nat) \<times> (uuid \<Rightarrow> nat)" where
  "pg_sample_env \<equiv> ([], (\<lambda>_. 0), (\<lambda>_. 0))"

lemmas pg_sample_simps = pg_sample_op_def new_operation_def row_fits_def in_bits_def text_ok_def opt_text_ok_def
  picked_def pg_lease_free_def row_created_def trigger_ok_iff pg_claim_def claimed_def stamped_def

lemma pg_sample_insert:
  "pg_insert_new 0 empty_db pg_sample_op = (Inr (stamped 0 pg_sample_op, True), pg_sample_db)"
  by (simp add: pg_insert_new_def pg_sample_db_def empty_db_def pg_sample_simps Let_def)

lemma pg_sample_ops: "pg_ops pg_sample_db = [(7, stamped 0 pg_sample_op)]"
  by (simp add: pg_insert_new_def pg_sample_db_def empty_db_def pg_append_event_def pg_sample_simps Let_def)

lemma pg_sample_wf: "pg_wf pg_sample_db"
  using pg_insert_wf [OF pg_wf_empty pg_sample_insert] .

lemma pg_sample_claim:
  "pg_claim pg_sample_env 1 pg_sample_db CLAIMABLE 10 ''w'' 30 =
     (Inr [claimed 1 ''w'' 30 (stamped 0 pg_sample_op)],
      pg_sample_db\<lparr>pg_ops := [(7, claimed 1 ''w'' 30 (stamped 0 pg_sample_op))]\<rparr>)"
  by (simp add: pg_sample_ops pg_sample_simps Let_def)

section \<open>Properties\<close>

text \<open>
  C17. On Postgres too a fenced worker writes nothing: once a claim returned a row, then after any calls
  by anybody (whatever rows were locked and however ties were broken), \<open>cas\<close> and \<open>release\<close> with an
  older token leave every row and the event log as they are, and \<open>cas\<close> returns no row.
\<close>

theorem pg_stale_writer_is_void:
  assumes "pg_wf s" "set states \<subseteq> set CLAIMABLE" "pg_claim env now s states limit wid d = (Inr out, s1)"
    and "r \<in> set out" "pg_step\<^sup>*\<^sup>* s1 s2" "tok < fencing_token r"
    and "pg_cas now' s2 (operation_id r) tok src dst sets detail renew who = (res, s3)"
  shows "pg_get s3 = pg_get s2 \<and> pg_events s3 = pg_events s2 \<and> (\<forall>r'. res \<noteq> Inr (Some r')) \<and>
    pg_get (pg_release now' s2 (operation_id r) tok) = pg_get s2"
proof -
  have s1: "pg_wf s1" "pg_get s1 (operation_id r) = Some r"
    using pg.claim_law [OF assms(1-3)] assms(4) by blast+
  then show ?thesis
    using pg.stale_token_writes_nothing [OF s1 assms(6) assms(5) [unfolded pg_step_call] assms(7)]
      pg.stale_token_releases_nothing [OF s1 assms(6) assms(5) [unfolded pg_step_call]] by blast
qed

theorem pg_stale_writer_is_void_witness:
  "\<exists>s1 r. pg_claim pg_sample_env 1 pg_sample_db CLAIMABLE 10 ''w'' 30 = (Inr [r], s1) \<and>
     pg_get (pg_release 2 s1 (operation_id r) 0) = pg_get s1 \<and>
     (\<forall>r'. fst (pg_cas 2 s1 (operation_id r) 0 REQUESTED VALIDATED [] [] None None) \<noteq> Inr (Some r'))"
proof -
  let ?r = "claimed 1 ''w'' 30 (stamped 0 pg_sample_op)"
  let ?s1 = "pg_sample_db\<lparr>pg_ops := [(7, ?r)]\<rparr>"
  obtain res s3 where "pg_cas 2 ?s1 (operation_id ?r) 0 REQUESTED VALIDATED [] [] None None = (res, s3)" by fastforce
  moreover from this have "(\<forall>r'. res \<noteq> Inr (Some r')) \<and> pg_get (pg_release 2 ?s1 (operation_id ?r) 0) = pg_get ?s1"
    using pg_stale_writer_is_void [OF pg_sample_wf subset_refl pg_sample_claim _ rtranclp.rtrancl_refl, of ?r 0 2]
    by (simp add: pg_sample_op_def new_operation_def)
  ultimately show ?thesis using pg_sample_claim by auto
qed

text \<open>
  C27. What the schema guarantees: in every database reached from the empty one by any calls, no two
  operations carry the same txid, every row is filed once under its own identifier, amounts are
  positive with at most 38 digits, and the attempts, token and block columns are within 32 and 64 bits.
\<close>

theorem pg_schema_holds:
  assumes "pg_step\<^sup>*\<^sup>* empty_db db" "pg_get db i = Some r"
  shows "operation_id r = i \<and> 0 < amount_units r \<and> amount_units r < 10 ^ 38 \<and>
    attempts r \<in> {- (2 ^ 31) ..< 2 ^ 31} \<and> fencing_token r \<in> {- (2 ^ 63) ..< 2 ^ 63} \<and>
    (\<forall>b. included_block r = Some b \<longrightarrow> b \<in> {- (2 ^ 63) ..< 2 ^ 63}) \<and>
    (\<forall>j q. pg_get db j = Some q \<longrightarrow> j \<noteq> i \<longrightarrow> op_txid r \<noteq> None \<longrightarrow> op_txid q \<noteq> op_txid r)"
proof -
  have wf: "pg_wf db" using pg_run_wf [OF assms(1) pg_wf_empty] .
  then have "row_fits r" "operation_id r = i" using assms(2) by (simp_all add: pg_wf_def)
  moreover have "op_txid q \<noteq> op_txid r" if "pg_get db j = Some q" "j \<noteq> i" "op_txid r \<noteq> None" for j q
    using wf assms(2) that unfolding pg_wf_def txids_unique_def by metis
  ultimately show ?thesis by (auto simp: row_fits_def in_bits_def)
qed

theorem pg_schema_holds_witness:
  "pg_step\<^sup>*\<^sup>* empty_db pg_sample_db \<and> pg_get pg_sample_db 7 = Some (stamped 0 pg_sample_op) \<and>
   0 < amount_units (stamped 0 pg_sample_op)"
proof -
  have run: "pg_step\<^sup>*\<^sup>* empty_db pg_sample_db" using pg_insert [OF pg_sample_insert] by blast
  have row: "pg_get pg_sample_db 7 = Some (stamped 0 pg_sample_op)" by (simp add: pg_get_def pg_sample_ops)
  show ?thesis using run row pg_schema_holds [OF run row] by blast
qed

text \<open>
  C26. On Postgres no operation is ever finished: through the calls that the intake, the pipeline and the
  worker issue, no row of the database reaches \<open>confirmed\<close>, \<open>failed\<close> or \<open>rejected\<close>.  The pipeline
  renews the lease on every write, and with a terminal target the update then assigns
  \<open>lease_expires_at\<close> twice, which the database refuses; such a write always raises and changes
  nothing.
\<close>

theorem pg_never_finishes:
  assumes "pg_worker_step\<^sup>*\<^sup>* empty_db db"
  shows "(\<forall>i r. pg_get db i = Some r \<longrightarrow> op_state r \<notin> set TERMINAL) \<and>
    (dst \<in> set TERMINAL \<longrightarrow>
       (\<exists>e. pg_cas now db i tok src dst sets detail (Some d) who = (Inl e, db)))"
proof -
  have "pg_wf db \<and> all_live db"
    using assms
  proof (induction rule: rtranclp_induct)
    case base
    show ?case using pg_wf_empty by (simp add: all_live_def empty_db_def pg_get_def)
  next
    case (step y z)
    have "pg_step\<^sup>*\<^sup>* y z" using pg_worker_step_is_step [OF step.hyps(2)] by blast
    then show ?case using pg_worker_live [OF step.hyps(2)] pg_run_wf step.IH by blast
  qed
  moreover have "\<exists>e. pg_cas now db i tok src dst sets detail (Some d) who = (Inl e, db)" if "dst \<in> set TERMINAL"
    using that by (simp add: pg_cas_def del: TERMINAL_set)
  ultimately show ?thesis unfolding all_live_def by blast
qed

theorem pg_never_finishes_witness:
  "pg_worker_step\<^sup>*\<^sup>* empty_db pg_sample_db \<and>
   (\<exists>e. pg_cas 1 pg_sample_db 7 0 REQUESTED REJECTED [] [] (Some 30) None = (Inl e, pg_sample_db))"
proof -
  have "op_state pg_sample_op = REQUESTED" by (simp add: pg_sample_op_def new_operation_def)
  then have run: "pg_worker_step\<^sup>*\<^sup>* empty_db pg_sample_db" using pw_insert pg_sample_insert by blast
  show ?thesis using run pg_never_finishes [OF run] by simp
qed

end
