(* ===== verification/Pg_Intake.thy ===== *)
theory Pg_Intake
  imports Api Postgres
begin

text \<open>
  The intake over the database: \<open>submit_withdrawal\<close> with \<open>PostgresStore.insert_new\<close>.  The database is
  another instance of the interface the intake relies on; what is particular to it is that it can refuse
  a row, and that the rows the checks admit fit its columns under settings that fit them.
\<close>

section \<open>Definitions\<close>

definition pg_submit :: "(bytes \<Rightarrow> bytes) \<Rightarrow> config \<Rightarrow> time \<Rightarrow> pgdb \<Rightarrow> json \<Rightarrow> (exn + submit_result) \<times> pgdb" where
  "pg_submit sha cfg now = submit_withdrawal sha cfg (pg_insert_new now)"

definition settings_fit :: "config \<Rightarrow> bool" where
  "settings_fit cfg \<longleftrightarrow> 0 < min_amount_units cfg \<and> max_amount_units cfg < 10 ^ 38 \<and> text_ok (cfg_asset cfg)"

interpretation pg_intake: intake_store pg_wf pg_get "\<lambda>now at. pg_insert_new now" "pg_step\<^sup>*\<^sup>*"
  unfolding pg_step_call by (rule fenced_store.serves_intake [OF pg.fenced_store_axioms])

lemmas pg_submit_success = pg_intake.submit_success [folded pg_submit_def]

section \<open>Lemmas\<close>

lemma alphabet_text: "b58_num n s = Inr k \<Longrightarrow> text_ok s"
proof (induction n s rule: b58_num.induct)
  case (2 n c cs)
  then obtain i where i: "INDEX c = Some i" "text_ok cs" by (auto split: option.splits)
  have "CHR 0x00 \<notin> set ALPHABET" by (simp add: ALPHABET_def)
  moreover have "c \<in> set ALPHABET" using INDEX_SomeD [OF i(1)] nth_mem [of i ALPHABET] by auto
  ultimately show ?case using i(2) by (auto simp: text_ok_def)
qed (simp add: text_ok_def)

lemma valid_address_text: "is_valid sha a \<Longrightarrow> text_ok a"
  by (auto simp: is_valid_def b58decode_def ebind_Inr_iff split: if_splits sum.splits intro: alphabet_text)

text \<open>The columns of an admitted row fit, so that the database takes it.\<close>

lemma admitted_row_fits:
  assumes "intake_checks sha cfg d = Inr op" "settings_fit cfg"
  shows "row_fits (stamped now (new_operation (operation_id op) (op_request_hash op) (op_state op) (to_address op)
           (asset op) (amount_units op)))"
proof -
  note c = intake_checks_InrD [OF assms(1)]
  have "text_ok (to_address op)" using valid_address_text [OF c(3)] .
  then show ?thesis
    using c(4-6) assms(2)
    by (simp add: row_fits_def settings_fit_def stamped_def new_operation_def in_bits_def opt_text_ok_def)
qed

lemma pg_resubmit:
  assumes "pg_get s (operation_id op) = Some r" "intake_checks sha cfg d = Inr op" "settings_fit cfg"
  shows "pg_submit sha cfg now s (JObj d) =
    (if op_request_hash r = op_request_hash op then Inr \<lparr> sr_operation = r, sr_created = False \<rparr>
     else Inl (PayloadMismatch (operation_id op)), s)"
proof -
  have "pg_insert_new now s op = (Inr (r, False), s)"
    using assms(1) admitted_row_fits [OF assms(2,3), of now]
    by (simp add: pg_insert_new_def pg_get_def stamped_def Let_def)
  then show ?thesis using assms(2) by (simp add: pg_submit_def submit_withdrawal_def)
qed

lemma pg_first_submit:
  assumes "pg_get s (operation_id op) = None" "intake_checks sha cfg d = Inr op" "settings_fit cfg"
  shows "\<exists>s'. pg_submit sha cfg now s (JObj d) =
    (Inr \<lparr> sr_operation = stamped now op, sr_created = True \<rparr>, s')"
proof -
  have new: "new_operation (operation_id op) (op_request_hash op) (op_state op) (to_address op) (asset op)
      (amount_units op) = op"
    using assms(2) by (auto simp: intake_checks_def ebind_Inr_iff new_operation_def)
  then have "\<exists>s'. pg_insert_new now s op = (Inr (stamped now op, True), s')"
    using assms(1) admitted_row_fits [OF assms(2,3), of now]
    by (simp add: pg_insert_new_def pg_get_def stamped_def Let_def)
  then show ?thesis using assms(2) by (auto simp: pg_submit_def submit_withdrawal_def)
qed

lemma pg_submitted_row:
  assumes "pg_wf s" "pg_submit sha cfg now s (JObj d) = (Inr res, s1)" "intake_checks sha cfg d = Inr op"
  shows "pg_wf s1" "pg_get s1 (operation_id op) = Some (sr_operation res)"
  by (rule pg_submit_success [OF assms(1,2)], use assms(3) in simp)+

section \<open>Properties\<close>

text \<open>
  C19. Retrying a submission on Postgres is safe.  Under settings that fit the columns, the first valid
  submission of an identifier is filed; then, whatever calls the database serves in between, a valid
  submission under that identifier changes nothing.  It returns the present row, with the columns filed
  at first, when destination, amount and asset are the same, and is refused with \<open>PayloadMismatch\<close>
  otherwise (where the digest does not collide on the two canonical texts).
\<close>

theorem pg_intake_is_idempotent:
  assumes "pg_wf s" "settings_fit cfg" "intake_checks sha cfg d0 = Inr op0" "pg_get s (operation_id op0) = None"
    and "pg_submit sha cfg now s (JObj d0) = (ans, s1)" "pg_step\<^sup>*\<^sup>* s1 s2"
    and "intake_checks sha cfg d = Inr op" "operation_id op = operation_id op0"
    and "inj_on sha {canonical_request (to_address op0) (amount_units op0) (asset op0),
                     canonical_request (to_address op) (amount_units op) (asset op)}"
  shows "ans = Inr \<lparr> sr_operation = stamped now op0, sr_created = True \<rparr> \<and>
    (\<exists>r. pg_get s2 (operation_id op) = Some r \<and> intake_part r = intake_part (stamped now op0) \<and>
       pg_submit sha cfg now' s2 (JObj d) =
         (if (to_address op, amount_units op, asset op) = (to_address op0, amount_units op0, asset op0)
          then Inr \<lparr> sr_operation = r, sr_created = False \<rparr>
          else Inl (PayloadMismatch (operation_id op)), s2))"
proof -
  have first: "ans = Inr \<lparr> sr_operation = stamped now op0, sr_created = True \<rparr>"
    using pg_first_submit [OF assms(4,3,2), of now] assms(5) by auto
  note row = pg_submitted_row [OF assms(1) assms(5) [unfolded first] assms(3), simplified]
  obtain r where r: "pg_get s2 (operation_id op) = Some r" "intake_part r = intake_part (stamped now op0)"
    using pg_intake.later_keeps [OF row(1) assms(6) row(2)] assms(8) by auto
  have "op_request_hash r = op_request_hash op0" using r(2) by (simp add: intake_part_def stamped_def)
  then have "op_request_hash r = op_request_hash op \<longleftrightarrow>
      (to_address op, amount_units op, asset op) = (to_address op0, amount_units op0, asset op0)"
    using same_hash_iff [OF assms(3,7,9)] by auto
  then show ?thesis using first r pg_resubmit [OF r(1) assms(7,2), of now'] by auto
qed

theorem pg_intake_is_idempotent_witness:
  "\<exists>s1. pg_submit sample_sha default_config 0 empty_db (JObj (sample_body ''5'')) =
      (Inr \<lparr> sr_operation = stamped 0 sample_op5, sr_created = True \<rparr>, s1) \<and>
    pg_submit sample_sha default_config 9 s1 (JObj (sample_body ''5.0'')) =
      (Inr \<lparr> sr_operation = stamped 0 sample_op5, sr_created = False \<rparr>, s1)"
proof -
  have fit: "settings_fit default_config" by (simp add: settings_fit_def default_config_def text_ok_def)
  have none: "pg_get empty_db (operation_id sample_op5) = None" by (simp add: pg_get_def empty_db_def)
  let ?text = "canonical_request (to_address sample_op5) (amount_units sample_op5) (asset sample_op5)"
  have inj: "inj_on sample_sha {?text, ?text}" by simp
  obtain ans s1 where s1: "pg_submit sample_sha default_config 0 empty_db (JObj (sample_body ''5'')) = (ans, s1)"
    by fastforce
  have ans: "ans = Inr \<lparr> sr_operation = stamped 0 sample_op5, sr_created = True \<rparr>" and
    again: "\<exists>r. pg_get s1 (operation_id sample_op5) = Some r \<and>
      pg_submit sample_sha default_config 9 s1 (JObj (sample_body ''5.0'')) =
        (Inr \<lparr> sr_operation = r, sr_created = False \<rparr>, s1)"
    using pg_intake_is_idempotent [OF pg_wf_empty fit sample_checks(1) none s1 rtranclp.rtrancl_refl
        sample_checks(2) refl inj, of 9] by auto
  have "pg_get s1 (operation_id sample_op5) = Some (stamped 0 sample_op5)"
    using pg_submitted_row(2) [OF pg_wf_empty s1 [unfolded ans] sample_checks(1)] by simp
  then show ?thesis using s1 ans again by auto
qed

end
