(* ===== verification/Pg_Rows.thy ===== *)
theory Pg_Rows
  imports Postgres
begin

text \<open>
  \<open>_row_to_op\<close> and the rows of \<open>events\<close> in \<open>sluice/store/postgres.py\<close>: the driver returns a row as a
  dictionary of columns in which a state is a text, an amount a decimal and a missing value \<open>None\<close>.  The
  tables of \<open>Postgres\<close> hold the converted rows; here is the conversion, and that it loses nothing.
\<close>

section \<open>Decimals and state names\<close>

text \<open>A decimal is a coefficient with a power of ten; \<open>int()\<close> cuts off what follows the point.\<close>

record decimal =
  dec_coeff :: int
  dec_exp :: int

definition int_of_decimal :: "decimal \<Rightarrow> int" where
  "int_of_decimal x =
     (if 0 \<le> dec_exp x then dec_coeff x * 10 ^ nat (dec_exp x)
      else sgn (dec_coeff x) * (\<bar>dec_coeff x\<bar> div 10 ^ nat (- dec_exp x)))"

definition OpState_of :: "string \<Rightarrow> exn + op_state" where
  "OpState_of v = (case find (\<lambda>s. state_value s = v) all_states of None \<Rightarrow> Inl ValueError | Some s \<Rightarrow> Inr s)"

section \<open>Rows of the operations table\<close>

record pg_row =
  col_operation_id :: uuid
  col_request_hash :: bytes
  col_state :: string
  col_to_address :: string
  col_asset :: string
  col_amount_units :: decimal
  col_unsigned_tx :: "raw_data option"
  col_txid :: "string option"
  col_tx_expiration :: "time option"
  col_signed_tx :: "(string, pyval) dict option"
  col_attempts :: int
  col_claimed_by :: "string option"
  col_lease_expires_at :: "time option"
  col_fencing_token :: int
  col_last_error :: "string option"
  col_failure_reason :: "string option"
  col_broadcast_at :: "time option"
  col_included_block :: "int option"
  col_confirmed_at :: "time option"
  col_created_at :: time
  col_updated_at :: time

definition row_to_op :: "pg_row \<Rightarrow> exn + operation" where
  "row_to_op r =
     ebind (OpState_of (col_state r)) (\<lambda>s.
       Inr \<lparr> operation_id = col_operation_id r, op_request_hash = col_request_hash r, op_state = s,
             to_address = col_to_address r, asset = col_asset r,
             amount_units = int_of_decimal (col_amount_units r), unsigned_tx = col_unsigned_tx r,
             op_txid = col_txid r, tx_expiration = col_tx_expiration r, signed_tx = col_signed_tx r,
             attempts = col_attempts r, claimed_by = col_claimed_by r,
             lease_expires_at = col_lease_expires_at r, fencing_token = col_fencing_token r,
             last_error = col_last_error r, failure_reason = col_failure_reason r,
             broadcast_at = col_broadcast_at r, included_block = col_included_block r,
             confirmed_at = col_confirmed_at r, created_at = Some (col_created_at r),
             updated_at = Some (col_updated_at r) \<rparr>)"

section \<open>Rows of the event table\<close>

record pg_event_row =
  evc_event_id :: int
  evc_operation_id :: uuid
  evc_from_state :: "string option"
  evc_to_state :: string
  evc_worker_id :: "string option"
  evc_fencing_token :: int
  evc_detail :: "(string, pyval) dict"
  evc_created_at :: time

definition row_to_event :: "pg_event_row \<Rightarrow> exn + event" where
  "row_to_event r =
     ebind (case evc_from_state r of
              None \<Rightarrow> Inr None
            | Some v \<Rightarrow> if v = [] then Inr None else ebind (OpState_of v) (\<lambda>s. Inr (Some s))) (\<lambda>src.
     ebind (OpState_of (evc_to_state r)) (\<lambda>dst.
       Inr \<lparr> ev_operation_id = evc_operation_id r, ev_from_state = src, ev_to_state = dst,
             ev_worker_id = evc_worker_id r, ev_fencing_token = evc_fencing_token r,
             ev_detail = evc_detail r, ev_at = Some (evc_created_at r), ev_seq = evc_event_id r \<rparr>))"

section \<open>Nothing is lost\<close>

lemma OpState_of_value [simp]: "OpState_of (state_value s) = Inr s"
  by (cases s) (simp_all add: OpState_of_def all_states_def)

lemma OpState_of_Inr: "OpState_of v = Inr s \<longleftrightarrow> v = state_value s"
proof
  assume "OpState_of v = Inr s"
  then have "find (\<lambda>s. state_value s = v) all_states = Some s" by (simp add: OpState_of_def split: option.splits)
  then show "v = state_value s" by (auto simp: find_Some_iff)
qed simp

text \<open>What a \<open>SELECT\<close> returns for a row of the model: the state by name, the amount with no digits after the
  point, the two timestamps that are never null.\<close>

definition stored_row :: "operation \<Rightarrow> pg_row" where
  "stored_row r =
     \<lparr> col_operation_id = operation_id r, col_request_hash = op_request_hash r,
       col_state = state_value (op_state r), col_to_address = to_address r, col_asset = asset r,
       col_amount_units = \<lparr> dec_coeff = amount_units r, dec_exp = 0 \<rparr>, col_unsigned_tx = unsigned_tx r,
       col_txid = op_txid r, col_tx_expiration = tx_expiration r, col_signed_tx = signed_tx r,
       col_attempts = attempts r, col_claimed_by = claimed_by r,
       col_lease_expires_at = lease_expires_at r, col_fencing_token = fencing_token r,
       col_last_error = last_error r, col_failure_reason = failure_reason r,
       col_broadcast_at = broadcast_at r, col_included_block = included_block r,
       col_confirmed_at = confirmed_at r, col_created_at = the (created_at r),
       col_updated_at = the (updated_at r) \<rparr>"

definition stored_event :: "event \<Rightarrow> pg_event_row" where
  "stored_event e =
     \<lparr> evc_event_id = ev_seq e, evc_operation_id = ev_operation_id e,
       evc_from_state = map_option state_value (ev_from_state e), evc_to_state = state_value (ev_to_state e),
       evc_worker_id = ev_worker_id e, evc_fencing_token = ev_fencing_token e, evc_detail = ev_detail e,
       evc_created_at = the (ev_at e) \<rparr>"

lemma row_to_op_stored: "created_at r \<noteq> None \<Longrightarrow> updated_at r \<noteq> None \<Longrightarrow> row_to_op (stored_row r) = Inr r"
  by (cases r) (auto simp: row_to_op_def stored_row_def int_of_decimal_def)

lemma state_value_nonempty [simp]: "state_value s \<noteq> []" by (cases s) simp_all

lemma row_to_event_stored: "ev_at e \<noteq> None \<Longrightarrow> row_to_event (stored_event e) = Inr e"
  by (cases e) (auto simp: row_to_event_def stored_event_def split: option.splits)

text \<open>A row is refused exactly when its state is no state of the program.\<close>

lemma row_to_op_refused: "row_to_op r = Inl e \<longleftrightarrow> e = ValueError \<and> (\<forall>s. col_state r \<noteq> state_value s)"
  by (cases "OpState_of (col_state r)")
    (auto simp: row_to_op_def OpState_of_Inr, auto simp: OpState_of_def split: option.splits)

section \<open>Every row and event of a reachable database reads back\<close>

definition dated :: "pgdb \<Rightarrow> bool" where
  "dated db \<longleftrightarrow> (\<forall>i r. pg_get db i = Some r \<longrightarrow> updated_at r \<noteq> None) \<and> (\<forall>e \<in> set (pg_events db). ev_at e \<noteq> None)"

lemma dated_update: "dated db \<Longrightarrow> updated_at r \<noteq> None \<Longrightarrow> dated (db\<lparr>pg_ops := dict_set (pg_ops db) i r\<rparr>)"
  by (auto simp: dated_def)

lemma dated_append_event [simp]: "dated (pg_append_event now db i src dst wid tok detail) = dated db"
  by (auto simp: dated_def pg_append_event_def pg_get_def)

lemma written_dated: "updated_at (written now dst sets renew r) = Some now"
  by (simp add: written_def Let_def split: option.splits)

lemma dated_step:
  assumes "pg_step db db'" "pg_wf db" "dated db"
  shows "dated db'"
  using assms
proof cases
  case (pg_insert now op res)
  then show ?thesis
    by (cases rule: pg_insert_cases) (use assms(3) in \<open>simp_all add: dated_update stamped_def\<close>)
next
  case (pg_claims states env now limit wid d res)
  show ?thesis
    using assms(2) pg_claims(2)
  proof (cases rule: pg_claim_cases)
    case (took ps qs)
    then show ?thesis
      using assms(3) unfolding dated_def took(5) pg_claim_get [OF took(3)]
      by (auto simp: claimed_def split: option.splits)
  qed (use assms in simp)
next
  case (pg_write now i tok src dst sets detail renew who res)
  then show ?thesis
    by (cases rule: pg_cas_cases) (use assms(3) in \<open>simp_all add: dated_update written_dated\<close>)
next
  case (pg_releases now i tok)
  show ?thesis
    unfolding pg_releases
    by (rule pg_release_cases [of now db i tok]) (use assms(3) in \<open>simp_all add: dated_update released_def\<close>)
qed

lemma reachable_rows_read_back:
  assumes "pg_step\<^sup>*\<^sup>* empty_db db"
  shows "(\<forall>i r. pg_get db i = Some r \<longrightarrow> row_to_op (stored_row r) = Inr r) \<and>
    (\<forall>e \<in> set (pg_events db). row_to_event (stored_event e) = Inr e)"
proof -
  have "dated db"
    using assms
  proof (induction rule: rtranclp_induct)
    case base
    show ?case by (simp add: dated_def empty_db_def pg_get_def)
  next
    case (step y z)
    then show ?case using dated_step [OF step.hyps(2) pg_run_wf [OF step.hyps(1) pg_wf_empty]] by blast
  qed
  then show ?thesis
    using pg_run_wf [OF assms pg_wf_empty] unfolding dated_def pg_wf_def
    by (blast intro: row_to_op_stored row_to_event_stored)
qed

end
