(* ===== verification/Store_Refinement.thy ===== *)
theory Store_Refinement
  imports Postgres
begin

text \<open>
  The two stores side by side.  The memory store is meant to be a faithful stand-in for Postgres: here
  a sequence of calls is replayed on both, and wherever the database raises no error and the calls stay
  within what the two agree on, the answers and the rows are the same and the event logs agree in
  everything but the sequence numbers.  The conditions name the differences: a claim has room for all
  rows, meets no locked row and no lease that ends at this very instant, and only live rows are released.
\<close>

section \<open>Calls\<close>

datatype store_call =
    Insert_Call operation
  | Claim_Call "uuid list \<times> (uuid \<Rightarrow> nat) \<times> (uuid \<Rightarrow> nat)" "op_state list" int string duration
  | Cas_Call uuid int op_state op_state "field_set list" "(string, pyval) dict" "duration option" "string option"
  | Release_Call uuid int

text \<open>The order in which a claim returns its rows is left open.\<close>

datatype answer =
    Inserted operation bool
  | Claimed "operation set"
  | Wrote "operation option"
  | Released

fun mem_do :: "time \<Rightarrow> store_call \<Rightarrow> mstore \<Rightarrow> (exn + answer) \<times> mstore" where
  "mem_do now (Insert_Call op) ms =
     (let ((r, created), ms') = insert_new now now ms op in (Inr (Inserted r created), ms'))"
| "mem_do now (Claim_Call env states limit wid d) ms =
     (case claim now ms states limit wid d of
        (Inl e, ms') \<Rightarrow> (Inl e, ms') | (Inr out, ms') \<Rightarrow> (Inr (Claimed (set out)), ms'))"
| "mem_do now (Cas_Call i tok src dst sets detail renew who) ms =
     (case cas now now ms i tok src dst sets detail renew who of
        (Inl e, ms') \<Rightarrow> (Inl e, ms') | (Inr r, ms') \<Rightarrow> (Inr (Wrote r), ms'))"
| "mem_do now (Release_Call i tok) ms = (Inr Released, release now ms i tok)"

fun pg_do :: "time \<Rightarrow> store_call \<Rightarrow> pgdb \<Rightarrow> (exn + answer) \<times> pgdb" where
  "pg_do now (Insert_Call op) db =
     (case pg_insert_new now db op of
        (Inl e, db') \<Rightarrow> (Inl e, db') | (Inr (r, created), db') \<Rightarrow> (Inr (Inserted r created), db'))"
| "pg_do now (Claim_Call env states limit wid d) db =
     (case pg_claim env now db states limit wid d of
        (Inl e, db') \<Rightarrow> (Inl e, db') | (Inr out, db') \<Rightarrow> (Inr (Claimed (set out)), db'))"
| "pg_do now (Cas_Call i tok src dst sets detail renew who) db =
     (case pg_cas now db i tok src dst sets detail renew who of
        (Inl e, db') \<Rightarrow> (Inl e, db') | (Inr r, db') \<Rightarrow> (Inr (Wrote r), db'))"
| "pg_do now (Release_Call i tok) db = (Inr Released, pg_release now db i tok)"

text \<open>The conditions, read on the database.\<close>

fun agreed :: "time \<Rightarrow> pgdb \<Rightarrow> store_call \<Rightarrow> bool" where
  "agreed now db (Insert_Call op) \<longleftrightarrow>
     op = new_operation (operation_id op) (op_request_hash op) (op_state op) (to_address op) (asset op) (amount_units op)"
| "agreed now db (Claim_Call env states limit wid d) \<longleftrightarrow> fst env = [] \<and> int (length (pg_ops db)) \<le> limit \<and>
     list_all (\<lambda>(k, r). lease_expires_at r \<noteq> Some now) (pg_ops db)"
| "agreed now db (Cas_Call i tok src dst sets detail renew who) \<longleftrightarrow> True"
| "agreed now db (Release_Call i tok) \<longleftrightarrow>
     (case pg_get db i of None \<Rightarrow> True | Some r \<Rightarrow> op_state r \<notin> set TERMINAL)"

text \<open>A sequence of calls with its clock readings; \<open>None\<close> when the database raised or a condition
  failed.\<close>

fun pg_run :: "(time \<times> store_call) list \<Rightarrow> pgdb \<Rightarrow> (answer list \<times> pgdb) option" where
  "pg_run [] db = Some ([], db)"
| "pg_run ((now, c) # cs) db =
     (if agreed now db c then
        (case pg_do now c db of
           (Inl e, _) \<Rightarrow> None
         | (Inr a, db') \<Rightarrow> map_option (apfst (Cons a)) (pg_run cs db'))
      else None)"

fun mem_run :: "(time \<times> store_call) list \<Rightarrow> mstore \<Rightarrow> (exn + answer) list \<times> mstore" where
  "mem_run [] ms = ([], ms)"
| "mem_run ((now, c) # cs) ms =
     (let (a, ms') = mem_do now c ms; (as, ms'') = mem_run cs ms' in (a # as, ms''))"

section \<open>The simulation\<close>

definition unnumbered :: "event \<Rightarrow> event" where
  "unnumbered e = e\<lparr>ev_seq := 0\<rparr>"

definition same_store :: "mstore \<Rightarrow> pgdb \<Rightarrow> bool" where
  "same_store ms db \<longleftrightarrow> store_wf ms \<and> pg_wf db \<and> get ms = pg_get db \<and>
     map unnumbered (ms_events ms) = map unnumbered (pg_events db)"

text \<open>A claim with room takes every free row.\<close>

definition takes :: "time \<Rightarrow> op_state list \<Rightarrow> operation \<Rightarrow> bool" where
  "takes now states r \<longleftrightarrow> op_state r \<in> set states \<and> lease_free now r"

definition claim_all :: "time \<Rightarrow> op_state list \<Rightarrow> string \<Rightarrow> duration \<Rightarrow> (uuid \<rightharpoonup> operation) \<Rightarrow> (uuid \<rightharpoonup> operation)" where
  "claim_all now states wid d m =
     (\<lambda>i. map_option (\<lambda>r. if takes now states r then claimed now wid d r else r) (m i))"

lemma length_rows: "distinct (map fst d) \<Longrightarrow> length d = card (dom (map_of d))"
  using distinct_card [of "map fst d"] by (simp add: dom_map_of_conv_image_fst)

lemma selection_map:
  assumes "distinct (map fst sel)" "\<And>k r. (k, r) \<in> set sel \<longleftrightarrow> m k = Some r \<and> P r"
  shows "(case dict_get sel i of None \<Rightarrow> m i | Some v \<Rightarrow> Some (f v)) =
    map_option (\<lambda>r. if P r then f r else r) (m i)"
proof (cases "dict_get sel i")
  case None
  then have "(i, r) \<notin> set sel" for r using dict_get_distinct [OF assms(1), of i r] by auto
  then have "m i = Some r \<Longrightarrow> \<not> P r" for r using assms(2) by blast
  then show ?thesis using None by (cases "m i") auto
next
  case (Some v)
  then have "m i = Some v \<and> P v" using assms(2) dict_get_mem by metis
  then show ?thesis using Some by simp
qed

lemma selected_set:
  assumes "\<And>k r. (k, r) \<in> set sel \<longleftrightarrow> Q k r"
  shows "set (map (\<lambda>(k, r). f r) sel) = {f r | k r. Q k r}"
proof (intro equalityI subsetI)
  fix y assume "y \<in> set (map (\<lambda>(k, r). f r) sel)"
  then obtain k r where "(k, r) \<in> set sel" "y = f r" by auto
  then show "y \<in> {f r | k r. Q k r}" using assms by blast
next
  fix y assume "y \<in> {f r | k r. Q k r}"
  then obtain k r where "(k, r) \<in> set sel" "y = f r" using assms by blast
  then show "y \<in> set (map (\<lambda>(k, r). f r) sel)" by force
qed

lemma mem_claim_all:
  assumes "store_wf ms" "int (card (dom (get ms))) \<le> limit"
  obtains out ms' where "claim now ms states limit wid d = (Inr out, ms')" "store_wf ms'"
    "get ms' = claim_all now states wid d (get ms)" "ms_events ms' = ms_events ms"
    "set out = {claimed now wid d r | i r. get ms i = Some r \<and> takes now states r}"
proof -
  obtain cs where cs: "candidates ms states = Inr cs" using candidates_total [OF assms(1)] by blast
  have dist: "distinct (map fst (ms_ops ms))" using assms(1) by (simp add: store_wf_def)
  have m: "mset cs = mset (filter (\<lambda>(k, op). op_state op \<in> set states) (ms_ops ms))" using candidates_set [OF cs] .
  then have "length cs \<le> length (ms_ops ms)" by (metis length_filter_le size_mset)
  also have "\<dots> = card (dom (get ms))" using length_rows [OF dist] by (simp add: get_def [abs_def])
  finally have len: "length (filter (\<lambda>(k, op). lease_free now op) cs) \<le> nat limit"
    using assms(2) length_filter_le [of "\<lambda>(k, op). lease_free now op" cs] by linarith
  let ?sel = "filter (\<lambda>(k, op). lease_free now op) cs"
  have sel: "claim_selection now limit cs = ?sel" using len by (simp add: claim_selection_def)
  have mem: "(k, r) \<in> set ?sel \<longleftrightarrow> get ms k = Some r \<and> takes now states r" for k r
  proof -
    have "set cs = set (filter (\<lambda>(k, op). op_state op \<in> set states) (ms_ops ms))" using m by (rule mset_eq_setD)
    then show ?thesis using dict_get_distinct [OF dist, of k r] by (auto simp: takes_def get_def)
  qed
  have ds: "distinct (map fst ?sel)"
    using candidates_distinct [OF cs assms(1)] by (rule distinct_map_filter)
  let ?ms = "ms\<lparr>ms_ops := fold (\<lambda>(k, op) o'. dict_set o' k (claimed now wid d op)) ?sel (ms_ops ms)\<rparr>"
  have cl: "claim now ms states limit wid d = (Inr (map (\<lambda>(k, op). claimed now wid d op) ?sel), ?ms)"
    using cs sel by (simp add: claim_def claim_loop_spec Let_def)
  have "get ?ms i = claim_all now states wid d (get ms) i" for i
  proof -
    have "get ?ms i = (case dict_get ?sel i of None \<Rightarrow> get ms i | Some v \<Rightarrow> Some (claimed now wid d v))"
      unfolding get_def using fold_dict_set_get [OF ds] by simp
    also have "\<dots> = claim_all now states wid d (get ms) i"
      unfolding claim_all_def by (rule selection_map [OF ds mem])
    finally show ?thesis .
  qed
  then have rows: "get ?ms = claim_all now states wid d (get ms)" by (rule ext)
  have out: "set (map (\<lambda>(k, op). claimed now wid d op) ?sel) =
      {claimed now wid d r | i r. get ms i = Some r \<and> takes now states r}"
    by (rule selected_set [OF mem])
  show thesis by (rule that [OF cl claim_wf [OF assms(1) cl] rows _ out]) simp
qed

lemma pg_claim_all:
  assumes "pg_wf db" "pg_claim ([], tie, ret) now db states limit wid d = (Inr out, db')"
    "int (length (pg_ops db)) \<le> limit" "list_all (\<lambda>(k, r). lease_expires_at r \<noteq> Some now) (pg_ops db)"
  shows "pg_wf db'" "pg_get db' = claim_all now states wid d (pg_get db)" "pg_events db' = pg_events db"
    "set out = {claimed now wid d r | i r. pg_get db i = Some r \<and> takes now states r}"
proof -
  have dist: "distinct (map fst (pg_ops db))" using assms(1) by (simp add: pg_wf_def)
  let ?f = "filter (\<lambda>(k, r). op_state r \<in> set states \<and> pg_lease_free now r \<and> k \<notin> set []) (pg_ops db)"
  let ?ps = "picked [] tie now db states limit"
  have len: "length ?f \<le> nat limit"
    using assms(3) length_filter_le [of "\<lambda>(k, r). op_state r \<in> set states \<and> pg_lease_free now r \<and> k \<notin> set []" "pg_ops db"]
    by linarith
  have ps: "set ?ps = set ?f" using len by (simp add: picked_def)
  have free: "pg_lease_free now r \<longleftrightarrow> lease_free now r" if "(k, r) \<in> set (pg_ops db)" for k r
    using assms(4) that by (auto simp: list_all_iff pg_lease_free_def lease_free_def less_le split: option.splits)
  have mem: "(k, r) \<in> set ?ps \<longleftrightarrow> pg_get db k = Some r \<and> takes now states r" for k r
    using free [of k r] dict_get_distinct [OF dist, of k r] unfolding ps by (auto simp: takes_def pg_get_def)
  have eq: "out = map (\<lambda>(k, r). claimed now wid d r) (sort_key (\<lambda>(k, r). ret k) ?ps)"
      "db' = db\<lparr>pg_ops := fold (\<lambda>(k, r) d'. dict_set d' k (claimed now wid d r)) ?ps (pg_ops db)\<rparr>"
    using assms(2) unfolding pg_claim_def Let_def claimed_def by (auto split: if_splits)
  show "pg_wf db'" using pg_claim_wf [OF assms(1,2)] .
  show "pg_get db' = claim_all now states wid d (pg_get db)"
    unfolding eq(2) claim_all_def
    by (rule ext, unfold pg_claim_get [OF picked_rows(1) [OF dist]], rule selection_map [OF picked_rows(1) [OF dist] mem])
  show "pg_events db' = pg_events db" unfolding eq(2) by simp
  show "set out = {claimed now wid d r | i r. pg_get db i = Some r \<and> takes now states r}"
    unfolding eq(1) by (rule selected_set) (simp only: set_sort mem)
qed

lemma same_store_event:
  "same_store ms db \<Longrightarrow> store_wf (append_event now ms1 r src dst who tok detail) \<Longrightarrow>
   pg_wf (pg_append_event now db1 i src dst who tok detail) \<Longrightarrow> get ms1 = pg_get db1 \<Longrightarrow>
   ms_events ms1 = ms_events ms \<Longrightarrow> pg_events db1 = pg_events db \<Longrightarrow> operation_id r = i \<Longrightarrow>
   same_store (append_event now ms1 r src dst who tok detail) (pg_append_event now db1 i src dst who tok detail)"
  by (simp add: same_store_def append_event_def pg_append_event_def unnumbered_def)
     (simp add: get_def [abs_def] pg_get_def [abs_def])

lemma mem_cas_writes:
  assumes "get ms i = Some r" "fencing_token r = tok" "op_state r = src" "src \<notin> set TERMINAL"
    "can_transition src dst" "mutable_sets sets"
  shows "cas now now ms i tok src dst sets detail renew who =
    (Inr (Some (written now dst sets renew r)),
     append_event now (ms\<lparr>ms_ops := dict_set (ms_ops ms) i (written now dst sets renew r)\<rparr>)
       (written now dst sets renew r) (Some src) dst who tok detail)"
  using assms by (simp add: cas_def written_def mutable_sets_def get_def Let_def del: TERMINAL_set)

lemma refine_cas:
  assumes s: "same_store ms db" and c: "pg_cas now db i tok src dst sets detail renew who = (Inr x, db')"
  shows "\<exists>ms'. cas now now ms i tok src dst sets detail renew who = (Inr x, ms') \<and> same_store ms' db'"
  using c
proof (cases rule: pg_cas_cases)
  case (wrote r)
  have wf: "store_wf ms" "pg_wf db" "get ms = pg_get db" using s by (simp_all add: same_store_def)
  have g: "get ms i = Some r" using wrote(1) wf(3) by simp
  let ?r = "written now dst sets renew r"
  let ?ms = "append_event now (ms\<lparr>ms_ops := dict_set (ms_ops ms) i ?r\<rparr>) ?r (Some src) dst who tok detail"
  have w: "cas now now ms i tok src dst sets detail renew who = (Inr (Some ?r), ?ms)"
    by (rule mem_cas_writes [OF g wrote(2-6)])
  have "operation_id ?r = i" using written_id(1) [OF wrote(6)] store_wf_row [OF wf(1) g] by simp
  then have "same_store ?ms db'"
    unfolding wrote(11)
    by (intro same_store_event [OF s])
      (use cas_wf [OF wf(1) w] pg_cas_wf [OF wf(2) c] wf(3) wrote(11) in \<open>auto simp: fun_eq_iff\<close>)
  then show ?thesis using w wrote(8) by auto
next
  case refused
  then have none: "x = None" using refused(2) by (cases x) auto
  then have "list_all (\<lambda>f. field_name f \<in> set MUTABLE_FIELDS) sets" "can_transition src dst"
      "\<forall>r. pg_get db i = Some r \<longrightarrow> fencing_token r \<noteq> tok \<or> op_state r \<noteq> src"
    using c by (auto simp: pg_cas_def pg_get_def Let_def split: if_splits option.splits)
  moreover have "get ms = pg_get db" using s by (simp add: same_store_def)
  ultimately have "cas now now ms i tok src dst sets detail renew who = (Inr None, ms)"
    by (cases "pg_get db i") (auto simp: cas_def get_def fun_eq_iff)
  then show ?thesis using s refused none by simp
qed

lemma refine_insert:
  assumes s: "same_store ms db" and a: "agreed now db (Insert_Call op)"
    and c: "pg_insert_new now db op = (Inr (r, b), db')"
  shows "\<exists>ms'. insert_new now now ms op = ((r, b), ms') \<and> same_store ms' db'"
proof -
  have wf: "store_wf ms" "pg_wf db" "get ms = pg_get db" using s by (simp_all add: same_store_def)
  from c show ?thesis
  proof (cases rule: pg_insert_cases)
    case (existing q)
    then have "insert_new now now ms op = ((r, b), ms)" using wf(3) by (simp add: insert_new_def get_def fun_eq_iff)
    then show ?thesis using s existing by blast
  next
    case (created q)
    have q: "q = r" "b" and st: "r = stamped now op" using created(2,4) a by auto
    let ?ms2 = "ms\<lparr>ms_ops := dict_set (ms_ops ms) (operation_id op) r,
        ms_arrival := dict_set (ms_arrival ms) (operation_id op) (ms_order ms), ms_order := ms_order ms + 1\<rparr>"
    let ?ms = "append_event now ?ms2 r None (op_state op) None 0 [(''intake'', PBool True)]"
    have "dict_get (ms_ops ms) (operation_id op) = None" using created(1) wf(3) by (simp only: get_def [symmetric])
    then have ins: "insert_new now now ms op = ((r, True), ?ms)"
      unfolding insert_new_def st by (simp add: stamped_def Let_def)
    have "get ?ms2 = pg_get (db\<lparr>pg_ops := dict_set (pg_ops db) (operation_id op) r\<rparr>)"
      using wf(3) by (auto simp: fun_eq_iff get_def dict_simps)
    then have "same_store ?ms db'"
      unfolding created(5) q
      by (intro same_store_event [OF s])
        (use insert_new_effect(1) [OF wf(1) ins] pg_insert_wf [OF wf(2) c] created(5) q st
          in \<open>simp_all add: stamped_def\<close>)
    then show ?thesis using ins q(2) by auto
  qed simp
qed

lemma refine_release:
  assumes s: "same_store ms db" and a: "agreed now db (Release_Call i tok)"
  shows "same_store (release now ms i tok) (pg_release now db i tok)"
proof -
  have wf: "store_wf ms" "pg_wf db" "get ms = pg_get db" using s by (simp_all add: same_store_def)
  have log: "map unnumbered (ms_events (release now ms i tok)) = map unnumbered (pg_events (pg_release now db i tok))"
    using s by (auto simp: same_store_def release_def pg_release_def split: option.split)
  have "get (release now ms i tok) = pg_get (pg_release now db i tok)"
  proof (rule pg_release_cases [of now db i tok])
    fix r assume r: "pg_get db i = Some r" "fencing_token r = tok"
      "pg_release now db i tok = db\<lparr>pg_ops := dict_set (pg_ops db) i (released now r)\<rparr>"
    then have "dict_get (ms_ops ms) i = Some r" using wf(3) by (simp add: fun_eq_iff get_def)
    then have "release now ms i tok = ms\<lparr>ms_ops := dict_set (ms_ops ms) i (released now r)\<rparr>"
      using r(2) by (simp add: release_def released_def)
    then show ?thesis using r(3) wf(3) by simp
  next
    assume same: "pg_release now db i tok = db"
    show ?thesis
    proof (rule release_cases [of now ms i tok])
      fix r assume r: "get ms i = Some r" "fencing_token r = tok"
        "release now ms i tok = ms\<lparr>ms_ops := dict_set (ms_ops ms) i (released now r)\<rparr>"
      have g: "pg_get db i = Some r" using r(1) wf(3) by simp
      then have "op_state r \<notin> set TERMINAL" using a by simp
      then have "pg_release now db i tok = db\<lparr>pg_ops := dict_set (pg_ops db) i (released now r)\<rparr>"
        using g r(2) by (cases "op_state r") (simp_all add: pg_release_def pg_get_def released_def)
      then have "pg_get db = (pg_get db)(i \<mapsto> released now r)"
        using same by (metis pg_get_dict_set)
      then show ?thesis using r(3) same wf(3) by simp
    qed (use same wf(3) in simp)
  qed
  then show ?thesis using wf release_wf pg_release_wf log by (simp add: same_store_def)
qed

lemma refine_claim:
  assumes s: "same_store ms db" and a: "agreed now db (Claim_Call env states limit wid d)"
    and c: "pg_claim env now db states limit wid d = (Inr out, db')"
  shows "\<exists>out' ms'. claim now ms states limit wid d = (Inr out', ms') \<and> set out' = set out \<and> same_store ms' db'"
proof -
  have wf: "store_wf ms" "pg_wf db" "get ms = pg_get db" using s by (simp_all add: same_store_def)
  obtain tie ret where env: "env = ([], tie, ret)" using a by (cases env) auto
  have lim: "int (length (pg_ops db)) \<le> limit" "list_all (\<lambda>(k, r). lease_expires_at r \<noteq> Some now) (pg_ops db)"
    using a by simp_all
  have "length (pg_ops db) = card (dom (pg_get db))"
    using length_rows [of "pg_ops db"] wf(2) by (simp add: pg_wf_def pg_get_def [abs_def])
  then have card: "int (card (dom (get ms))) \<le> limit" using lim(1) wf(3) by simp
  note pg = pg_claim_all [OF wf(2) c [unfolded env] lim]
  obtain out' ms' where m: "claim now ms states limit wid d = (Inr out', ms')" "store_wf ms'"
    "get ms' = claim_all now states wid d (get ms)" "ms_events ms' = ms_events ms"
    "set out' = {claimed now wid d r | i r. get ms i = Some r \<and> takes now states r}"
    by (rule mem_claim_all [OF wf(1) card])
  have "same_store ms' db'" using s m pg wf(3) by (simp add: same_store_def)
  then show ?thesis using m(1,5) pg(4) wf(3) by simp
qed

lemma refine_call:
  assumes s: "same_store ms db" and a: "agreed now db c" and p: "pg_do now c db = (Inr x, db')"
  shows "\<exists>ms'. mem_do now c ms = (Inr x, ms') \<and> same_store ms' db'"
proof (cases c)
  case (Insert_Call op)
  then obtain r b where "pg_insert_new now db op = (Inr (r, b), db')" "x = Inserted r b"
    using p by (auto split: prod.splits sum.splits)
  then show ?thesis using refine_insert [OF s a [unfolded Insert_Call]] Insert_Call by fastforce
next
  case (Claim_Call env states limit wid d)
  then obtain out where "pg_claim env now db states limit wid d = (Inr out, db')" "x = Claimed (set out)"
    using p by (auto split: prod.splits sum.splits)
  then show ?thesis using refine_claim [OF s a [unfolded Claim_Call]] Claim_Call by fastforce
next
  case (Cas_Call i tok src dst sets detail renew who)
  then obtain r where "pg_cas now db i tok src dst sets detail renew who = (Inr r, db')" "x = Wrote r"
    using p by (auto split: prod.splits sum.splits)
  then show ?thesis using refine_cas [OF s] Cas_Call by fastforce
next
  case (Release_Call i tok)
  then show ?thesis using refine_release [OF s a [unfolded Release_Call]] p by auto
qed

lemma same_store_new: "same_store new_store empty_db"
  by (simp add: same_store_def store_wf_new pg_wf_empty) (simp add: fun_eq_iff get_def pg_get_def new_store_def empty_db_def)

section \<open>Properties\<close>

text \<open>
  C16. The memory store stands in for Postgres: from corresponding contents (in particular from two
  empty stores), any sequence of inserts, claims, writes and releases that the database carries out
  without an error, within the conditions of \<open>agreed\<close>, gives the same answer call by call on the memory
  store, raises nothing there, and leaves the same rows and the same event log up to sequence numbers.
\<close>

theorem pg_refines_memory:
  assumes "same_store ms db" "pg_run cs db = Some (as, db')"
  shows "\<exists>ms'. mem_run cs ms = (map Inr as, ms') \<and> get ms' = pg_get db' \<and>
    map unnumbered (ms_events ms') = map unnumbered (pg_events db')"
proof -
  have "\<exists>ms'. mem_run cs ms = (map Inr as, ms') \<and> same_store ms' db'"
    using assms
  proof (induction cs db arbitrary: ms as rule: pg_run.induct)
    case (2 now c cs db)
    from "2.prems"(2) obtain a db1 as' where p: "agreed now db c" "pg_do now c db = (Inr a, db1)"
        "pg_run cs db1 = Some (as', db')" "as = a # as'"
      by (auto split: if_splits prod.splits sum.splits)
    obtain ms1 where m: "mem_do now c ms = (Inr a, ms1)" "same_store ms1 db1"
      using refine_call [OF "2.prems"(1) p(1,2)] by blast
    then show ?case using "2.IH" [OF p(1) p(2) [symmetric] refl m(2) p(3)] p(4) by auto
  qed auto
  then show ?thesis unfolding same_store_def by blast
qed

definition sample_calls :: "(time \<times> store_call) list" where
  "sample_calls =
     [(0, Insert_Call pg_sample_op),
      (1, Claim_Call pg_sample_env CLAIMABLE 10 ''w'' 30),
      (2, Cas_Call 7 1 REQUESTED VALIDATED [Set_attempts 1] [] (Some 30) (Some ''w'')),
      (3, Cas_Call 7 0 VALIDATED SIGNING [] [] (Some 30) (Some ''v'')),
      (4, Release_Call 7 1)]"

theorem pg_refines_memory_witness:
  "\<exists>as db' ms'. same_store new_store empty_db \<and> pg_run sample_calls empty_db = Some (as, db') \<and>
     mem_run sample_calls new_store = (map Inr as, ms') \<and> length as = 5 \<and> as ! 3 = Wrote None \<and>
     get ms' = pg_get db'"
proof -
  have "\<exists>as db'. pg_run sample_calls empty_db = Some (as, db') \<and> length as = 5 \<and> as ! 3 = Wrote None"
    by (simp add: sample_calls_def pg_insert_new_def pg_cas_def pg_release_def pg_get_def pg_append_event_def
        empty_db_def pg_sample_simps txid_taken_def can_transition_def
        MUTABLE_FIELDS_def Let_def eval_nat_numeral)
  then obtain as db' where run: "pg_run sample_calls empty_db = Some (as, db')" "length as = 5" "as ! 3 = Wrote None"
    by blast
  show ?thesis using pg_refines_memory [OF same_store_new run(1)] run same_store_new by blast
qed

end
