(* ===== verification/Worker_Bounds.thy ===== *)
theory Worker_Bounds
  imports Worker
begin

text \<open>
  A pass of a worker is over after a bounded number of calls to the store, the node, the clock and the
  crash switch, whatever the other workers do between two of them.  \<open>within p n\<close> says that \<open>p\<close> makes at
  most \<open>n\<close> calls whatever they answer (a claim answers with no more rows than asked for); \<open>perform\<close> runs a program with each call made in a world of its
  own, as an arbitrary environment leaves it.
\<close>

section \<open>Calls with interference\<close>

fun perform :: "(bytes \<Rightarrow> bytes) \<Rightarrow> 'a prog \<Rightarrow> world list \<Rightarrow> 'a prog" where
  "perform sha p [] = p"
| "perform sha p (w # ws) =
     (case step1 sha p w of None \<Rightarrow> p | Some (p', _) \<Rightarrow> perform sha p' ws)"

definition over :: "'a prog \<Rightarrow> bool" where
  "over p = (case p of Return x \<Rightarrow> True | Raise e \<Rightarrow> True | _ \<Rightarrow> False)"

primrec within :: "'a prog \<Rightarrow> nat \<Rightarrow> bool" where
  "within (Return x) = (\<lambda>n. True)"
| "within (Raise e) = (\<lambda>n. True)"
| "within (Clock_Now k) = (\<lambda>n. \<exists>m. n = Suc m \<and> (\<forall>r. within (k r) m))"
| "within (Store_Claim ss l w d k) =
     (\<lambda>n. \<exists>m. n = Suc m \<and> (\<forall>r. (\<forall>out. r = Inr out \<longrightarrow> length out \<le> nat l) \<longrightarrow> within (k r) m))"
| "within (Store_Cas i tok src dst sets det renew who k) = (\<lambda>n. \<exists>m. n = Suc m \<and> (\<forall>r. within (k r) m))"
| "within (Store_Release i tok k) = (\<lambda>n. \<exists>m. n = Suc m \<and> (\<forall>r. within (k r) m))"
| "within (Node_Ref_Block k) = (\<lambda>n. \<exists>m. n = Suc m \<and> (\<forall>r. within (k r) m))"
| "within (Node_Broadcast g w k) = (\<lambda>n. \<exists>m. n = Suc m \<and> (\<forall>r. within (k r) m))"
| "within (Node_Find_Tx t k) = (\<lambda>n. \<exists>m. n = Suc m \<and> (\<forall>r. within (k r) m))"
| "within (Node_Solid_Now k) = (\<lambda>n. \<exists>m. n = Suc m \<and> (\<forall>r. within (k r) m))"
| "within (Node_Solid_Block k) = (\<lambda>n. \<exists>m. n = Suc m \<and> (\<forall>r. within (k r) m))"
| "within (Crash_Here q k) = (\<lambda>n. \<exists>m. n = Suc m \<and> (\<forall>r. within (k r) m))"

lemma Suc_le_pred: "Suc m \<le> n \<Longrightarrow> \<exists>k. n = Suc k \<and> m \<le> k"
  by (cases n) auto

lemma within_mono: "within p m \<Longrightarrow> m \<le> n \<Longrightarrow> within p n"
  by (induction p arbitrary: m n) (simp_all, (metis Suc_le_pred Suc_le_mono rangeI)+)

lemma within_catch:
  assumes "within p m" "\<And>e. within (h e) n" "\<And>x. within (f x) n" "m + n \<le> k"
  shows "within (catch p h f) k"
proof -
  have "within (catch p h f) (m + n)"
    using assms(1-3) by (induction p arbitrary: m) (auto intro: within_mono [OF _ le_add2])
  then show ?thesis using assms(4) within_mono by blast
qed

lemma within_pbind:
  assumes "within p m" "\<And>x. within (f x) n" "m + n \<le> k"
  shows "within (pbind p f) k"
  unfolding catch_Raise [symmetric] by (rule within_catch [OF assms(1) _ assms(2,3)]) simp

lemma claim_at_most:
  "claim now ms states limit wid d = (res, ms') \<Longrightarrow> \<forall>out. res = Inr out \<longrightarrow> length out \<le> nat limit"
  by (auto simp: claim_def claim_loop_spec claim_selection_def Let_def split: sum.splits)

lemma within_perform: "within p (length ws) \<Longrightarrow> over (perform sha p ws)"
proof (induction ws arbitrary: p)
  case Nil
  then show ?case by (cases p) (simp_all add: over_def)
next
  case (Cons w ws)
  show ?case
  proof (cases "step1 sha p w")
    case None
    then show ?thesis by (cases p) (auto simp: step1_def over_def Let_def split: prod.splits)
  next
    case (Some q)
    obtain p' w' where q: "q = (p', w')" by fastforce
    have "within p' (length ws)"
      using Cons.prems Some q by (cases p) (auto simp: step1_def Let_def dest!: claim_at_most split: prod.splits)
    then show ?thesis using Cons.IH Some q by simp
  qed
qed

section \<open>The handlers\<close>

lemma within_lift [simp]: "within (lift_exn r) n"
  by (cases r) (simp_all add: lift_exn_def)

lemma within_calls [simp]:
  assumes "0 < n"
  shows "within clock_now n" "within (store_claim ss l wid d) n" "within (store_cas i tok src dst sets det renew who) n"
  "within (store_release i tok) n" "within node_ref_block n" "within (node_broadcast g who) n"
  "within (node_find_tx t) n" "within node_solid_now n" "within node_solid_block n" "within (crash_here q) n"
  using assms by (simp_all add: call_defs gr0_conv_Suc)

text \<open>A call, then the rest.\<close>

lemma within_call_pbind:
  "within p 1 \<Longrightarrow> (\<And>x. within (f x) (n - 1)) \<Longrightarrow> 0 < n \<Longrightarrow> within (pbind p f) n"
  by (rule within_pbind [where m = 1 and n = "n - 1"]) simp_all

lemma within_call_catch:
  "within p 1 \<Longrightarrow> (\<And>e. within (h e) (n - 1)) \<Longrightarrow> (\<And>x. within (f x) (n - 1)) \<Longrightarrow> 0 < n \<Longrightarrow>
   within (catch p h f) n"
  by (rule within_catch [where m = 1 and n = "n - 1"]) simp_all

lemma within_p_cas [simp]: "0 < n \<Longrightarrow> within (p_cas cfg op st wid sets det) n"
  unfolding p_cas_def
  by (rule within_pbind [where m = 1 and n = 0]) (auto split: option.split)

lemma within_load [simp]: "within (load_signed op) 0"
  by (simp add: load_signed_def split: option.split)

lemma within_on_timeout [simp]: "within (on_timeout op e) n"
  by (cases e) (simp_all add: on_timeout_def)

lemma within_load_pbind: "(\<And>x. within (f x) n) \<Longrightarrow> within (pbind (load_signed op) f) n"
  by (rule within_pbind [OF within_load, where n = n]) simp_all

lemma within_validate: "within (p_validate sha cfg op wid) 1"
  by (simp add: p_validate_def)

lemma within_persist: "within (persist_and_sign sha cfg sg op wid u) 3"
  unfolding persist_and_sign_def by (intro within_call_pbind) simp_all

lemma within_build_fresh: "within (build_fresh sha cfg sg op wid) 5"
proof -
  have "within (pbind (lift_exn (py_str (amount_units op)))
      (\<lambda>units. persist_and_sign sha cfg sg op wid (unsigned_envelope sha cfg op units ref now))) 3" for ref now
    by (rule within_pbind [OF within_lift [of _ 0] within_persist]) simp
  then have "within (pbind node_ref_block (\<lambda>ref. pbind clock_now (\<lambda>now. pbind (lift_exn (py_str (amount_units op)))
      (\<lambda>units. persist_and_sign sha cfg sg op wid (unsigned_envelope sha cfg op units ref now))))) 5"
    by (intro within_call_pbind [OF within_calls(5)] within_call_pbind [OF within_calls(1)]) simp_all
  then show ?thesis by (simp add: build_fresh_def)
qed

lemma within_build: "within (build_and_sign sha cfg sg op wid) 6"
  unfolding build_and_sign_def
  by (rule within_call_pbind) (simp_all add: within_build_fresh)

lemma within_stamp [simp]: "within (pbind clock_now (\<lambda>now. p_cas cfg op st wid (s now) det)) 2"
  by (rule within_call_pbind) simp_all

lemma within_settle [simp]: "within (settle_broadcast_result cfg op wid stx result) 2"
  by (simp add: settle_broadcast_result_def Let_def)

lemma within_rebuild [simp]: "0 < n \<Longrightarrow> within (rebuild cfg op wid why ev) n"
  by (simp add: rebuild_def)

lemma within_resend [simp]: "within (resend cfg op wid stx) 3"
  unfolding resend_def by (rule within_call_catch) simp_all

lemma within_first_send [simp]: "within (first_send cfg op wid stx) 5"
  unfolding first_send_def by (intro within_call_pbind within_call_catch) simp_all

lemma within_broadcast: "within (p_broadcast cfg op wid) 7"
proof -
  have "within (pbind (p_cas cfg op BROADCASTING wid [] det) (\<lambda>op. first_send cfg op wid stx)) 6" for det stx
    by (rule within_call_pbind) simp_all
  then show ?thesis
    unfolding p_broadcast_def by (intro within_load_pbind within_call_pbind) simp_all
qed

lemma within_proof: "within (proof_of_death cfg stx) 2"
  unfolding proof_of_death_def Let_def by (intro within_call_pbind) simp_all

lemma within_proof_pbind:
  "(\<And>dead ev. within (f dead ev) (n - 2)) \<Longrightarrow> 2 \<le> n \<Longrightarrow>
   within (pbind (proof_of_death cfg stx) (\<lambda>(dead, ev). f dead ev)) n"
  by (rule within_pbind [OF within_proof, where n = "n - 2"]) (simp_all split: prod.split)

lemma within_mark: "within (mark_found cfg op wid stx status) 2"
  unfolding mark_found_def by (rule within_call_pbind) (simp_all split: option.split)

lemma within_inclusion [simp]: "within (settle_inclusion cfg op wid stx status) 3"
  unfolding settle_inclusion_def by (rule within_call_pbind) simp_all

lemma within_reconcile: "within (reconcile_broadcast cfg op wid) 6"
proof -
  have "within (mark_found cfg op wid stx status) 5" for stx status by (rule within_mono [OF within_mark]) simp
  moreover have "within (pbind (proof_of_death cfg stx) (\<lambda>(dead, ev).
      if \<not> dead then resend cfg op wid stx else rebuild cfg op wid why ev)) 5" for stx why
    by (rule within_proof_pbind) simp_all
  ultimately show ?thesis
    unfolding reconcile_broadcast_def by (intro within_load_pbind within_call_catch) simp_all
qed

lemma within_await: "within (await_confirmation cfg op wid) 4"
proof -
  have "within (pbind (proof_of_death cfg stx) (\<lambda>(dead, ev).
      if dead then rebuild cfg op wid why ev else Return op)) 3" for stx why
    by (rule within_proof_pbind) simp_all
  then show ?thesis
    unfolding await_confirmation_def by (intro within_load_pbind within_call_catch) simp_all
qed

lemma within_step: "within (pipeline_step sha cfg sg op wid) 7"
  unfolding pipeline_step_def
  using within_mono [OF within_validate, of 7] within_mono [OF within_build, of 7] within_broadcast
    within_mono [OF within_reconcile, of 7] within_mono [OF within_await, of 7]
  by (auto split: op_state.split)

lemma within_drive_loop: "within (drive_loop sha cfg sg wid n op adv) (7 * n)"
proof (induction n arbitrary: op adv)
  case (Suc n)
  show ?case
    unfolding drive_loop.simps
    by (rule within_catch [OF within_step, where n = "7 * n"]) (auto simp: Let_def Suc.IH split: exn.split)
qed simp

lemma within_drive: "within (drive sha cfg sg wid op) 58"
proof -
  have rel: "within (pbind (store_release i tok) (\<lambda>_. Return a)) 1" for i tok and a :: int
    by (rule within_pbind [where m = 1 and n = 0]) simp_all
  have crumb: "within (pbind (store_cas i tok src dst sets det renew who)
      (\<lambda>_. pbind (store_release i tok) (\<lambda>_. Return a))) 2" for i tok src dst sets det renew who and a :: int
    by (rule within_pbind [where m = 1 and n = 1]) (simp_all only: within_calls zero_less_one rel)
  show ?thesis
    unfolding drive_def
    by (rule within_pbind [OF within_drive_loop, where n = 2])
      (auto simp: MAX_STEPS_PER_CLAIM_def crumb intro: within_mono [OF rel] split: drive_exit.split)
qed

lemma within_drive_all: "within (drive_all sha cfg sg wid ops acc) (58 * length ops)"
proof (induction ops arbitrary: acc)
  case (Cons op ops)
  show ?case
    unfolding drive_all.simps
    by (rule within_pbind [OF within_drive Cons.IH]) simp
qed simp

lemma within_run_once: "within (run_once sha cfg sg wid) (1 + 58 * nat (claim_batch cfg))"
proof -
  have "within (pbind (lift_exn r) (\<lambda>ops. drive_all sha cfg sg wid ops 0)) (58 * nat (claim_batch cfg))"
    if "\<forall>out. r = Inr out \<longrightarrow> length out \<le> nat (claim_batch cfg)" for r
  proof (cases r)
    case (Inr ops)
    have "58 * length ops \<le> 58 * nat (claim_batch cfg)" using that Inr by simp
    then show ?thesis using within_mono [OF within_drive_all] Inr by (simp add: lift_exn_def)
  qed (simp add: lift_exn_def)
  then show ?thesis by (simp add: run_once_def store_claim_def)
qed

lemma within_run_forever: "within (run_forever sha cfg sg wid n) (n * (1 + 58 * nat (claim_batch cfg)))"
proof (induction n)
  case (Suc n)
  show ?case
    unfolding run_forever.simps
    by (rule within_catch [OF within_run_once, where n = "n * (1 + 58 * nat (claim_batch cfg))"])
      (use Suc.IH in simp_all)
qed simp

lemma within_drain_loop: "within (drain_loop sha cfg sg wid n) (n * (1 + 58 * nat (claim_batch cfg)))"
proof (induction n)
  case (Suc n)
  show ?case
    unfolding drain_loop.simps
    by (rule within_pbind [OF within_run_once, where n = "n * (1 + 58 * nat (claim_batch cfg))"])
      (use Suc.IH in simp_all)
qed simp

section \<open>What leaves the loop\<close>

primrec crash_only :: "'a prog \<Rightarrow> bool" where
  "crash_only (Return x) = True"
| "crash_only (Raise e) = (\<not> is_Exception e)"
| "crash_only (Clock_Now k) = (\<forall>r. crash_only (k r))"
| "crash_only (Store_Claim ss l w d k) = (\<forall>r. crash_only (k r))"
| "crash_only (Store_Cas i tok src dst sets det renew who k) = (\<forall>r. crash_only (k r))"
| "crash_only (Store_Release i tok k) = (\<forall>r. crash_only (k r))"
| "crash_only (Node_Ref_Block k) = (\<forall>r. crash_only (k r))"
| "crash_only (Node_Broadcast g w k) = (\<forall>r. crash_only (k r))"
| "crash_only (Node_Find_Tx t k) = (\<forall>r. crash_only (k r))"
| "crash_only (Node_Solid_Now k) = (\<forall>r. crash_only (k r))"
| "crash_only (Node_Solid_Block k) = (\<forall>r. crash_only (k r))"
| "crash_only (Crash_Here q k) = (\<forall>r. crash_only (k r))"

lemma crash_only_catch:
  "(\<And>e. crash_only (h e)) \<Longrightarrow> (\<And>x. crash_only (f x)) \<Longrightarrow> crash_only (catch p h f)"
  by (induction p) simp_all

lemma crash_only_run_forever: "crash_only (run_forever sha cfg sg wid n)"
proof (induction n)
  case (Suc n)
  show ?case unfolding run_forever.simps by (rule crash_only_catch) (use Suc.IH in simp_all)
qed simp

lemma crash_only_perform: "crash_only p \<Longrightarrow> crash_only (perform sha p ws)"
proof (induction ws arbitrary: p)
  case (Cons w ws)
  have "crash_only p'" if "step1 sha p w = Some (p', w')" for p' w'
    using Cons.prems that by (cases p) (auto simp: step1_def Let_def split: prod.splits)
  then show ?case using Cons by (simp split: option.split)
qed simp

section \<open>Properties\<close>

text \<open>
  C24. A pass always ends: however the other workers, the clock and the chain change the world between
  its calls (each call meets a world of its own), a pass of a worker has returned or raised after at
  most 1 + 58 k calls to the outside, k being the size of the batch it may claim, and \<open>drain\<close> after
  at most 1000 times as many.
\<close>

theorem pass_ends:
  assumes "1 + 58 * nat (claim_batch cfg) \<le> length ws" "1000 * (1 + 58 * nat (claim_batch cfg)) \<le> length vs"
  shows "over (perform sha (run_once sha cfg sg wid) ws) \<and> over (perform sha (drain sha cfg sg wid) vs)"
  using within_perform [OF within_mono [OF within_run_once assms(1)]]
    within_perform [OF within_mono [OF within_drain_loop assms(2)]] by (simp add: drain_def)

theorem pass_ends_witness:
  "\<forall>w. over (perform sample_sha (run_once sample_sha default_config default_signer ''w1'')
     (replicate (1 + 58 * nat (claim_batch default_config)) w))"
  using pass_ends [of default_config "replicate (1 + 58 * nat (claim_batch default_config)) w"
    "replicate (1000 * (1 + 58 * nat (claim_batch default_config))) w" sample_sha default_signer "''w1''" for w]
  by simp

text \<open>
  C25. Nothing but a crash takes a worker down: however the world changes between its calls, and whatever
  its handlers, the store and the node raise, the loop of a worker ends only because it was told to
  stop or by a simulated crash; told to stop after \<open>n\<close> passes it has ended after at most
  n (1 + 58 k) calls.
\<close>

theorem worker_loop_survives:
  assumes "n * (1 + 58 * nat (claim_batch cfg)) \<le> length ws"
  shows "perform sha (run_forever sha cfg sg wid n) ws = Return () \<or>
    (\<exists>p. perform sha (run_forever sha cfg sg wid n) ws = Raise (SimulatedCrash p))"
proof -
  let ?p = "perform sha (run_forever sha cfg sg wid n) ws"
  have "over ?p" by (rule within_perform [OF within_mono [OF within_run_forever assms]])
  moreover have "crash_only ?p" by (rule crash_only_perform [OF crash_only_run_forever])
  moreover have "\<exists>p. e = SimulatedCrash p" if "\<not> is_Exception e" for e
    using that by (cases e) (simp_all add: is_Exception_def)
  ultimately show ?thesis by (cases ?p) (auto simp: over_def)
qed

theorem worker_loop_survives_witness:
  "\<forall>w. perform sample_sha (run_forever sample_sha default_config default_signer ''w1'' 2)
       (replicate (2 * (1 + 58 * nat (claim_batch default_config))) w) = Return () \<or>
     (\<exists>p. perform sample_sha (run_forever sample_sha default_config default_signer ''w1'' 2)
       (replicate (2 * (1 + 58 * nat (claim_batch default_config))) w) = Raise (SimulatedCrash p))"
  using worker_loop_survives [of 2 default_config "replicate (2 * (1 + 58 * nat (claim_batch default_config))) w" for w]
  by simp

end
