(* ===== verification/Spec2Isabelle.thy ===== *)
theory Spec2Isabelle
  imports Demo Client Pg_Intake Pg_Rows Store_Refinement Worker_Bounds
begin

text \<open>
  Verification of sluice, a withdrawal processor: clients submit withdrawals over HTTP, rows in a store
  carry them through a state machine, and a fleet of workers signs, broadcasts and confirms one TRON
  transaction for each.  What has to hold is that no withdrawal is ever paid twice, whatever crashes,
  timeouts, lost leases and retries happen.

  \<^bold>\<open>The parts and how they meet.\<close>  The API (\<open>src/sluice/api.py\<close>) hands a request to the intake
  (\<open>service.py\<close>), which checks it and inserts a row into a store.  A store (\<open>store/memory.py\<close>,
  \<open>store/postgres.py\<close>) gives rows to workers with a lease and a fencing token and lets a worker write a
  row only under its token.  A worker (\<open>worker.py\<close>) claims rows and drives each through the handlers of
  the pipeline (\<open>pipeline.py\<close>), which call the store, the signer, the clock, the crash switch and the
  node (\<open>tron/mocknet.py\<close>).

  \<^bold>\<open>Theories.\<close>
  \<^item> \<open>Prelude\<close>: results, Python dictionaries and strings, list lemmas.  \<open>Exceptions\<close>: the exceptions as
    one datatype, JSON values.
  \<^item> \<open>States\<close>: \<open>states.py\<close> and the trigger of \<open>migrations/001_schema.sql\<close>; the two tables agree on live rows
    and no path leaves a terminal state.
  \<^item> \<open>Money\<close>, \<open>Canonical\<close>, \<open>Address\<close>, \<open>Config\<close> (with \<open>crashpoints.py\<close>), \<open>Tron_Types\<close>, \<open>Signer\<close>, \<open>Model\<close>: the
    modules of these names under \<open>src/sluice\<close>.  Amounts are exact, printing and parsing are inverse,
    equal request hashes mean equal requests, the accepted addresses are the minted ones, txids identify
    envelopes, signatures verify exactly when made by the signer.
  \<^item> \<open>Store_Interface\<close>: the storage contract of \<open>store/__init__.py\<close> as the locale \<open>fenced_store\<close>, with its
    consequences (monotone tokens, terminal rows at rest, stale tokens write nothing) proved once.
  \<^item> \<open>Memory_Store\<close>: \<open>store/memory.py\<close>, an instance.  Claims are exclusive and in order of arrival, a write
    applies exactly under its token and state, the event log is the history.
  \<^item> \<open>Postgres\<close>: \<open>store/postgres.py\<close> and what the schema enforces, another instance; the schema's bounds and
    unique txids hold in every reachable database, and the defect of terminal writes is stated.
    \<open>Pg_Rows\<close>: the conversion of the driver's rows, which gives back every row and event of a reachable
    database.
  \<^item> \<open>Store_Refinement\<close>: Postgres simulated by the memory store, with the conditions where they differ.
  \<^item> \<open>Mocknet\<close>: \<open>tron/mocknet.py\<close>.  Inclusion is final and precedes the expiration, a txid is accepted once, and a transaction unseen
    when the solid chain has passed its expiration is never included.
  \<^item> \<open>Identifiers\<close>, \<open>Service\<close>, \<open>Api\<close>: \<open>uuid.UUID\<close> as it is used, \<open>service.py\<close> over the locale
    \<open>intake_store\<close>, the handlers of \<open>api.py\<close>.  \<open>Pg_Intake\<close>: the intake over the database.
  \<^item> \<open>Effects\<close>: a handler is a tree whose nodes are its outside calls, so that other workers can run at
    each of them; \<open>step1\<close> performs one call on the world (clock, store, node, crash switch) and \<open>run\<close> a
    whole program with nobody else running.
  \<^item> \<open>Pipeline\<close>, \<open>Worker\<close>: \<open>pipeline.py\<close> and \<open>worker.py\<close> as such programs, method by method.
    \<open>Worker_Bounds\<close>: a pass ends, and only a crash takes a worker down.
  \<^item> \<open>World_Invariant\<close>, \<open>Interference\<close>, \<open>Handlers_Safe\<close>: the invariant of store and chain, what others may do
    between two calls of a worker, and that every handler keeps the invariant under such interference.
  \<^item> \<open>Fleet\<close>: the system as a step relation (workers started, stepped and killed at any point; clock,
    blocks, faults, crash points and intake at any time) and the invariant in every reachable state.
    \<open>Solo\<close>, \<open>Delivery\<close>: runs of one worker as paths of the system, and a good request delivered.
    \<open>Safety\<close>: no double spend, confirmed means paid once, nothing on chain before the write-ahead.
    \<open>Stale_Lookup\<close>: a run that pays twice when the timing condition of these theorems fails.
  \<^item> \<open>Discipline\<close>: invariants that each call of a worker keeps on its own, so that they hold whatever the timing:
    what is known of a row and of the answers of the node, which writes and sends are allowed, as the locales
    \<open>discipline_laws\<close> and \<open>disciplined_fleet\<close>, with two interpretations.  \<open>Signed_Rows\<close>: a row past signing
    carries an envelope that loads.  \<open>Payments\<close>: every transaction the node holds transfers what one operation
    on record asked for.
  \<^item> \<open>Ledger\<close>: the contract of the whole system as a ledger (withdrawals owed, paid once and exactly, closed
    once), the ledger a state of store and chain shows, with every transfer that succeeded for an operation,
    and that the runs under the conditions below refine it; failed means not paid, and the books balance.  \<open>Refused_Run\<close>: a run in which the node refuses the key of the wallet.
    \<open>Client\<close>: from \<open>POST\<close> through the fleet to \<open>GET\<close>, under the same conditions what a client is told is
    true of the chain.
  \<^item> \<open>Lone_Runs\<close>: each row has a rank, the
    distance to the end of its life with the rebuilds left to it, and no drive of a worker raises it.
    \<open>Overdue\<close>: when every deadline has passed on the solid chain a pass lowers it.  \<open>Recovery\<close>: from any
    reachable state, with workers dead anywhere, rounds of blocks and passes finish every operation; the
    argument is the locale \<open>descent\<close>.
  \<^item> \<open>Two_Rows\<close>, \<open>Demo\<close>: \<open>scripts/demo.py\<close> as a program over the parts above, and that it runs to its end
    with no assertion failing.

  \<^bold>\<open>Conventions.\<close>  Times are integers in microseconds.  Texts are lists of 8-bit characters.  SHA-256 is the
  parameter \<open>sha\<close>; where a property needs that it does not collide on the texts at hand, it says so.
  Each method of a store and of the node is one atomic step, as it is under the lock of the memory
  store and the node and in a transaction of the database.

  \<^bold>\<open>Bounds.\<close>  The loops of the source have bounds and the model has the same ones: 8 steps for a claim
  (\<open>MAX_STEPS_PER_CLAIM\<close>), 1000 passes of \<open>drain\<close>.  \<open>run_forever\<close> takes the number of passes before it is
  told to stop, which is arbitrary.  The loops \<open>while w.run_once()\<close> of the demonstration take a number of
  passes and give \<open>None\<close> when it is too small; three are enough, by \<open>demo_runs_clean\<close>.  No other fuel is used.

  \<^bold>\<open>Conditions of the safety theorems.\<close>  They are hypotheses of \<open>no_double_spend\<close>, \<open>confirmed_is_paid_once\<close>,
  \<open>unsent_never_landed\<close> and of the theorems of \<open>Ledger\<close> and \<open>Client\<close> but \<open>chain_pays_as_asked\<close>, and no property of
  the program.  The tip of the chain advances by at most the configured safety
  margin between a worker's lookup of a txid and its reading of the solidified timestamp: the source
  reads them in this order with no check, and a worker paused there for longer can judge a landed
  transaction dead; \<open>Stale_Lookup\<close> has the run.  No two operations are given the same txid: the envelope names no operation, so two
  equal requests built in the same millisecond on the same reference block would share one; the
  database excludes that by an index, the memory store does not.  The theorems of
  \<open>Ledger\<close> and \<open>Client\<close>, which speak of failed operations, also need that the node knows no other secret under
  the key id of the wallet.

  \<^bold>\<open>Not modelled.\<close>  Logging; the idle pause of the worker loop and its jitter; the default worker name; the
  connection pool; Flask (routing, JSON decoding, the development server); the wall clock, whose
  readings are chosen by the environment; characters beyond 8 bits; the layout of the
  lines the demonstration prints; the tests.
\<close>

end
